(* ===== verification/Prelude.thy ===== *)
theory Prelude
  imports Main "HOL-Library.Word" "HOL-Library.Multiset"
begin

text \<open>
  What every component of the development shares: Rust strings, results and control flow,
  \<open>Ordering\<close>, the ASCII and UTF-8 operations of the standard library, decimal
  integers, slices cut into chunks, and stable sorting by a comparator.

  A Rust \<open>char\<close> is its Unicode scalar value, a \<open>nat\<close>; a \<open>String\<close> is the list
  of its scalars, so that \<open>chars()\<close> is the list itself and \<open>as_bytes()\<close> is its UTF-8
  encoding. A string literal of the source is written \<open>str ''...''\<close>.
\<close>

named_theorems str_eval \<open>evaluation of string literals and decimal numbers\<close>
named_theorems flow \<open>unfolding of result and loop combinators\<close>

type_synonym uchar = nat
type_synonym ustr = "uchar list"
type_synonym i64 = "64 word"

abbreviation ch :: "char \<Rightarrow> uchar" where
  "ch c \<equiv> of_char c"

definition str :: "string \<Rightarrow> ustr" where
  "str s = map of_char s"

lemma str_Nil [simp]: "str [] = []"
  by (simp add: str_def)

lemma str_Cons [simp]: "str (c # cs) = of_char c # str cs"
  by (simp add: str_def)

lemma str_append: "str (xs @ ys) = str xs @ str ys"
  by (simp add: str_def)

lemma ch_less_256 [simp]: "(of_char c :: nat) < 256"
  using range_nat_of_char by (metis atLeast0LessThan lessThan_iff rangeI)

section \<open>Results and loops\<close>

text \<open>
  A fallible Rust function returns \<open>'e + 'a\<close>, with \<open>Inl\<close> for \<open>Err\<close>. The \<open>?\<close>
  operator is \<^emph>\<open>and_then\<close>. A \<open>for\<close> loop whose body may \<open>return\<close> is \<^emph>\<open>loopM\<close>:
  the body yields \<open>Return r\<close> (leave the function) or \<open>Next s\<close> (go on with the loop
  variables \<open>s\<close>).
\<close>

definition and_then :: "'e + 'a \<Rightarrow> ('a \<Rightarrow> 'e + 'b) \<Rightarrow> 'e + 'b" where
  "and_then r f = (case r of Inl e \<Rightarrow> Inl e | Inr x \<Rightarrow> f x)"

lemma and_then_simps [simp]:
  "and_then (Inl e) f = Inl e"
  "and_then (Inr x) f = f x"
  by (simp_all add: and_then_def)

lemma and_then_cong [fundef_cong]:
  "r = r' \<Longrightarrow> (\<And>x. r' = Inr x \<Longrightarrow> f x = g x) \<Longrightarrow> and_then r f = and_then r' g"
  by (cases r') auto

lemma and_then_eq_Inr [flow]:
  "and_then r f = Inr y \<longleftrightarrow> (\<exists>x. r = Inr x \<and> f x = Inr y)"
  by (cases r) auto

lemma and_then_eq_Inl [flow]:
  "and_then r f = Inl e \<longleftrightarrow> r = Inl e \<or> (\<exists>x. r = Inr x \<and> f x = Inl e)"
  by (cases r) auto

lemma and_then_assoc:
  "and_then (and_then r f) g = and_then r (\<lambda>x. and_then (f x) g)"
  by (cases r) auto

fun mapM :: "('a \<Rightarrow> 'e + 'b) \<Rightarrow> 'a list \<Rightarrow> 'e + 'b list" where
  "mapM f [] = Inr []"
| "mapM f (x # xs) = and_then (f x) (\<lambda>y. and_then (mapM f xs) (\<lambda>ys. Inr (y # ys)))"

lemma mapM_cong [fundef_cong]:
  "xs = ys \<Longrightarrow> (\<And>x. x \<in> set ys \<Longrightarrow> f x = g x) \<Longrightarrow> mapM f xs = mapM g ys"
proof (induction ys arbitrary: xs)
  case (Cons y ys)
  then show ?case by (auto intro: and_then_cong)
qed simp

lemma mapM_Inr_iff:
  "mapM f xs = Inr ys \<longleftrightarrow> length ys = length xs \<and> (\<forall>i < length xs. f (xs ! i) = Inr (ys ! i))"
proof (induction xs arbitrary: ys)
  case (Cons x xs)
  show ?case
    by (cases ys) (auto simp: flow Cons.IH nth_Cons split: nat.splits)
qed auto

lemma mapM_length: "mapM f xs = Inr ys \<Longrightarrow> length ys = length xs"
  by (simp add: mapM_Inr_iff)

lemma mapM_total: "(\<And>x. x \<in> set xs \<Longrightarrow> f x = Inr (g x)) \<Longrightarrow> mapM f xs = Inr (map g xs)"
  by (induction xs) auto

lemma mapM_append:
  "mapM f (xs @ ys) = and_then (mapM f xs) (\<lambda>as. and_then (mapM f ys) (\<lambda>bs. Inr (as @ bs)))"
  by (induction xs) (auto simp: and_then_assoc and_then_def split: sum.splits)

lemma mapM_Inr_set:
  "mapM f xs = Inr ys \<Longrightarrow> x \<in> set xs \<Longrightarrow> \<exists>y \<in> set ys. f x = Inr y"
  by (induction xs arbitrary: ys) (auto simp: flow)

datatype ('r, 's) step = Return 'r | Next 's

fun loopM :: "('s \<Rightarrow> 'a \<Rightarrow> 'e + ('r, 's) step) \<Rightarrow> 's \<Rightarrow> 'a list \<Rightarrow> 'e + ('r, 's) step" where
  "loopM body s [] = Inr (Next s)"
| "loopM body s (x # xs) =
     and_then (body s x) (\<lambda>c. case c of Return r \<Rightarrow> Inr (Return r) | Next s' \<Rightarrow> loopM body s' xs)"

lemma loopM_cong [fundef_cong]:
  "s = s' \<Longrightarrow> xs = ys \<Longrightarrow> (\<And>t x. x \<in> set ys \<Longrightarrow> f t x = g t x) \<Longrightarrow> loopM f s xs = loopM g s' ys"
proof (induction ys arbitrary: xs s s')
  case (Cons y ys)
  have "and_then (g s' y) (\<lambda>c. case c of Return r \<Rightarrow> Inr (Return r) | Next t \<Rightarrow> loopM f t ys)
      = and_then (g s' y) (\<lambda>c. case c of Return r \<Rightarrow> Inr (Return r) | Next t \<Rightarrow> loopM g t ys)"
    using Cons.IH [OF refl refl] Cons.prems(3) by (intro and_then_cong) (auto split: step.splits)
  with Cons.prems show ?case by simp
qed simp

section \<open>Ordering\<close>

datatype ordering = Less | Equal | Greater

fun reverse :: "ordering \<Rightarrow> ordering" where
  "reverse Less = Greater"
| "reverse Equal = Equal"
| "reverse Greater = Less"

lemma reverse_reverse [simp]: "reverse (reverse x) = x"
  by (cases x) auto

lemma reverse_eq_iff [simp]:
  "reverse x = Less \<longleftrightarrow> x = Greater"
  "reverse x = Greater \<longleftrightarrow> x = Less"
  "reverse x = Equal \<longleftrightarrow> x = Equal"
  by (cases x; simp)+

definition cmp :: "'a::linorder \<Rightarrow> 'a \<Rightarrow> ordering" where
  "cmp a b = (if a < b then Less else if a = b then Equal else Greater)"

lemma cmp_reverse: "cmp b a = reverse (cmp a b)"
  by (auto simp: cmp_def)

lemma cmp_iff [simp]:
  "cmp a b = Less \<longleftrightarrow> a < b"
  "cmp a b = Equal \<longleftrightarrow> a = b"
  "cmp a b = Greater \<longleftrightarrow> b < a"
  by (auto simp: cmp_def)

text \<open>\<open>str::cmp\<close> and slice comparison: lexicographic, a proper prefix is less.\<close>

fun lex_cmp :: "'a::linorder list \<Rightarrow> 'a list \<Rightarrow> ordering" where
  "lex_cmp [] [] = Equal"
| "lex_cmp [] (y # ys) = Less"
| "lex_cmp (x # xs) [] = Greater"
| "lex_cmp (x # xs) (y # ys) = (case cmp x y of Equal \<Rightarrow> lex_cmp xs ys | o1 \<Rightarrow> o1)"

lemma lex_cmp_reverse: "lex_cmp ys xs = reverse (lex_cmp xs ys)"
proof (induction xs ys rule: lex_cmp.induct)
  case (4 x xs y ys)
  then show ?case by (cases "cmp x y") (auto simp: cmp_def split: if_splits)
qed auto

lemma lex_cmp_Equal [simp]: "lex_cmp xs ys = Equal \<longleftrightarrow> xs = ys"
  by (induction xs ys rule: lex_cmp.induct) (auto split: ordering.splits)

lemma lex_cmp_Less_trans: "lex_cmp xs ys = Less \<Longrightarrow> lex_cmp ys zs = Less \<Longrightarrow> lex_cmp xs zs = Less"
proof (induction xs ys arbitrary: zs rule: lex_cmp.induct)
  case (2 y ys)
  then show ?case by (cases zs) auto
next
  case (4 x xs y ys)
  show ?case
  proof (cases zs)
    case Nil
    with 4 show ?thesis by simp
  next
    case (Cons z zs')
    with 4 show ?thesis by (auto simp: cmp_def split: ordering.splits if_splits)
  qed
qed auto

text \<open>
  What a comparison function has to satisfy for a sort to mean anything. The laws are
  asked of the values of a carrier set \<open>C\<close> only, because the engine's comparator is
  consistent on the columns of one kind and not on arbitrary mixtures.
\<close>

locale comparator_on =
  fixes C :: "'a set" and cmpf :: "'a \<Rightarrow> 'a \<Rightarrow> ordering"
  assumes refl: "x \<in> C \<Longrightarrow> cmpf x x = Equal"
    and swap: "x \<in> C \<Longrightarrow> y \<in> C \<Longrightarrow> cmpf y x = reverse (cmpf x y)"
    and le_trans: "x \<in> C \<Longrightarrow> y \<in> C \<Longrightarrow> z \<in> C \<Longrightarrow>
      cmpf x y \<noteq> Greater \<Longrightarrow> cmpf y z \<noteq> Greater \<Longrightarrow> cmpf x z \<noteq> Greater"
begin

lemma not_Less_iff: "x \<in> C \<Longrightarrow> y \<in> C \<Longrightarrow> cmpf x y \<noteq> Less \<longleftrightarrow> cmpf y x \<noteq> Greater"
  by (simp add: swap [of x y])

lemma Equal_trans:
  assumes "x \<in> C" "y \<in> C" "z \<in> C" "cmpf x y = Equal" "cmpf y z = Equal"
  shows "cmpf x z = Equal"
proof -
  have "cmpf x z \<noteq> Greater" using assms by (intro le_trans [of x y z]) auto
  moreover have "cmpf z x \<noteq> Greater"
    using assms by (intro le_trans [of z y x]) (simp_all add: swap [of y z] swap [of x y])
  ultimately show ?thesis
    using assms by (cases "cmpf x z") (simp_all add: swap [of x z])
qed

lemma Less_trans:
  assumes "x \<in> C" "y \<in> C" "z \<in> C" "cmpf x y = Less" "cmpf y z \<noteq> Greater"
  shows "cmpf x z = Less"
proof (rule ccontr)
  assume "cmpf x z \<noteq> Less"
  then have "cmpf z x \<noteq> Greater" using assms not_Less_iff by blast
  then have "cmpf y x \<noteq> Greater" using le_trans [of y z x] assms by blast
  then show False using swap [of x y] assms by simp
qed

end

subsection \<open>Stable sorting\<close>

text \<open>
  \<open>slice::sort_by\<close> is stable; for a comparator that is a total preorder its result is
  determined by that, and the model computes it by insertion.
\<close>

fun insert_by :: "('a \<Rightarrow> 'a \<Rightarrow> ordering) \<Rightarrow> 'a \<Rightarrow> 'a list \<Rightarrow> 'a list" where
  "insert_by f x [] = [x]"
| "insert_by f x (y # ys) = (if f x y = Greater then y # insert_by f x ys else x # y # ys)"

fun sort_by :: "('a \<Rightarrow> 'a \<Rightarrow> ordering) \<Rightarrow> 'a list \<Rightarrow> 'a list" where
  "sort_by f [] = []"
| "sort_by f (x # xs) = insert_by f x (sort_by f xs)"

lemma mset_insert_by [simp]: "mset (insert_by f x xs) = add_mset x (mset xs)"
  by (induction xs) auto

lemma mset_sort_by [simp]: "mset (sort_by f xs) = mset xs"
  by (induction xs) auto

lemma set_insert_by [simp]: "set (insert_by f x xs) = insert x (set xs)"
  by (induction xs) auto

lemma set_sort_by [simp]: "set (sort_by f xs) = set xs"
  by (induction xs) auto

lemma length_sort_by [simp]: "length (sort_by f xs) = length xs"
  using mset_sort_by by (metis size_mset)

lemma distinct_sort_by [simp]: "distinct (sort_by f xs) = distinct xs"
  using mset_sort_by [of f xs] by (metis mset_eq_imp_distinct_iff)

context comparator_on
begin

definition ordered :: "'a list \<Rightarrow> bool" where
  "ordered xs = sorted_wrt (\<lambda>a b. cmpf a b \<noteq> Greater) xs"

lemma ordered_insert_by:
  assumes "x \<in> C" "set xs \<subseteq> C" "ordered xs"
  shows "ordered (insert_by cmpf x xs)"
  using assms
proof (induction xs)
  case (Cons y ys)
  show ?case
  proof (cases "cmpf x y = Greater")
    case True
    then have "cmpf y x \<noteq> Greater" using swap [of x y] Cons.prems by simp
    with True Cons show ?thesis by (auto simp: ordered_def)
  next
    case False
    have "cmpf x z \<noteq> Greater" if "z \<in> set ys" for z
      using le_trans [of x y z] that False Cons.prems by (auto simp: ordered_def)
    with False Cons.prems show ?thesis by (auto simp: ordered_def)
  qed
qed (simp add: ordered_def)

lemma ordered_sort_by: "set xs \<subseteq> C \<Longrightarrow> ordered (sort_by cmpf xs)"
proof (induction xs)
  case (Cons x xs)
  then show ?case by (simp add: ordered_insert_by)
qed (simp add: ordered_def)

lemma insert_by_stable:
  assumes "x \<in> C" "k \<in> C" "set xs \<subseteq> C" "ordered xs"
  shows "filter (\<lambda>y. cmpf k y = Equal) (insert_by cmpf x xs) = filter (\<lambda>y. cmpf k y = Equal) (x # xs)"
  using assms
proof (induction xs)
  case (Cons y ys)
  show ?case
  proof (cases "cmpf x y = Greater")
    case True
    have "\<not> (cmpf k x = Equal \<and> cmpf k y = Equal)"
      using Equal_trans [of x k y] swap [of k x] True Cons.prems by auto
    with True Cons show ?thesis by (auto simp: ordered_def)
  qed auto
qed auto

lemma sort_by_stable:
  "k \<in> C \<Longrightarrow> set xs \<subseteq> C \<Longrightarrow>
    filter (\<lambda>y. cmpf k y = Equal) (sort_by cmpf xs) = filter (\<lambda>y. cmpf k y = Equal) xs"
proof (induction xs)
  case (Cons x xs)
  then show ?case
    using insert_by_stable [of x k "sort_by cmpf xs"] ordered_sort_by [of xs] by simp
qed simp

end

interpretation linorder_cmp: comparator_on UNIV "cmp :: 'a::linorder \<Rightarrow> 'a \<Rightarrow> ordering"
  by unfold_locales (auto simp: cmp_def split: if_splits)

lemma lex_cmp_le_trans:
  "lex_cmp xs ys \<noteq> Greater \<Longrightarrow> lex_cmp ys zs \<noteq> Greater \<Longrightarrow> lex_cmp xs zs \<noteq> Greater"
  by (metis lex_cmp_Equal lex_cmp_Less_trans ordering.exhaust ordering.distinct(3))

interpretation bytes_cmp: comparator_on UNIV "lex_cmp :: 'a::linorder list \<Rightarrow> 'a list \<Rightarrow> ordering"
  by unfold_locales (simp, rule lex_cmp_reverse, rule lex_cmp_le_trans)

section \<open>Characters and bytes\<close>

definition is_ascii_char :: "uchar \<Rightarrow> bool" where
  "is_ascii_char c \<longleftrightarrow> c < 128"

definition is_ascii :: "ustr \<Rightarrow> bool" where
  "is_ascii s = list_all is_ascii_char s"

definition to_ascii_lowercase :: "uchar \<Rightarrow> uchar" where
  "to_ascii_lowercase c = (if 65 \<le> c \<and> c \<le> 90 then c + 32 else c)"

definition to_ascii_uppercase :: "uchar \<Rightarrow> uchar" where
  "to_ascii_uppercase c = (if 97 \<le> c \<and> c \<le> 122 then c - 32 else c)"

definition eq_ignore_ascii_case_char :: "uchar \<Rightarrow> uchar \<Rightarrow> bool" where
  "eq_ignore_ascii_case_char a b \<longleftrightarrow> to_ascii_lowercase a = to_ascii_lowercase b"

definition eq_ignore_ascii_case :: "ustr \<Rightarrow> ustr \<Rightarrow> bool" where
  "eq_ignore_ascii_case a b \<longleftrightarrow> map to_ascii_lowercase a = map to_ascii_lowercase b"

definition is_ascii_digit :: "uchar \<Rightarrow> bool" where
  "is_ascii_digit c \<longleftrightarrow> 48 \<le> c \<and> c \<le> 57"

definition is_ascii_whitespace :: "uchar \<Rightarrow> bool" where
  "is_ascii_whitespace c \<longleftrightarrow> c \<in> {9, 10, 12, 13, 32}"

text \<open>\<open>char::is_whitespace\<close>: the Unicode property \<open>White_Space\<close>, in full.\<close>

definition is_whitespace :: "uchar \<Rightarrow> bool" where
  "is_whitespace c \<longleftrightarrow> (9 \<le> c \<and> c \<le> 13) \<or> c = 32 \<or> c = 133 \<or> c = 160 \<or> c = 5760 \<or>
     (8192 \<le> c \<and> c \<le> 8202) \<or> c \<in> {8232, 8233, 8239, 8287, 12288}"

definition trim_start :: "ustr \<Rightarrow> ustr" where
  "trim_start s = dropWhile is_whitespace s"

definition trim_end :: "ustr \<Rightarrow> ustr" where
  "trim_end s = rev (dropWhile is_whitespace (rev s))"

definition trim :: "ustr \<Rightarrow> ustr" where
  "trim s = trim_end (trim_start s)"

lemma to_ascii_lowercase_idem [simp]:
  "to_ascii_lowercase (to_ascii_lowercase c) = to_ascii_lowercase c"
  by (simp add: to_ascii_lowercase_def)

lemma to_ascii_lowercase_ascii [simp]:
  "is_ascii_char (to_ascii_lowercase c) \<longleftrightarrow> is_ascii_char c"
  by (auto simp: to_ascii_lowercase_def is_ascii_char_def)

lemma eq_ignore_ascii_case_refl [simp]: "eq_ignore_ascii_case a a"
  by (simp add: eq_ignore_ascii_case_def)

lemma is_ascii_simps [simp]:
  "is_ascii []"
  "is_ascii (c # s) \<longleftrightarrow> is_ascii_char c \<and> is_ascii s"
  "is_ascii (s @ t) \<longleftrightarrow> is_ascii s \<and> is_ascii t"
  by (auto simp: is_ascii_def)

lemma is_ascii_map_lower [simp]: "is_ascii (map to_ascii_lowercase s) \<longleftrightarrow> is_ascii s"
  by (induction s) auto

text \<open>UTF-8.\<close>

definition utf8_encode :: "uchar \<Rightarrow> nat list" where
  "utf8_encode c =
     (if c < 128 then [c]
      else if c < 2048 then [192 + c div 64, 128 + c mod 64]
      else if c < 65536 then [224 + c div 4096, 128 + c div 64 mod 64, 128 + c mod 64]
      else [240 + c div 262144, 128 + c div 4096 mod 64, 128 + c div 64 mod 64, 128 + c mod 64])"

definition as_bytes :: "ustr \<Rightarrow> nat list" where
  "as_bytes s = concat (map utf8_encode s)"

lemma as_bytes_ascii [simp]: "is_ascii s \<Longrightarrow> as_bytes s = s"
  by (induction s) (auto simp: as_bytes_def utf8_encode_def is_ascii_char_def)

lemma as_bytes_simps [simp]:
  "as_bytes [] = []"
  "as_bytes (c # s) = utf8_encode c @ as_bytes s"
  by (simp_all add: as_bytes_def)

definition string_cmp :: "ustr \<Rightarrow> ustr \<Rightarrow> ordering" where
  "string_cmp a b = lex_cmp (as_bytes a) (as_bytes b)"

section \<open>Decimal integers\<close>

fun show_nat :: "nat \<Rightarrow> ustr" where
  "show_nat n = (if n < 10 then [48 + n] else show_nat (n div 10) @ [48 + n mod 10])"

declare show_nat.simps [simp del]

definition show_int :: "int \<Rightarrow> ustr" where
  "show_int i = (if i < 0 then ch CHR ''-'' # show_nat (nat (- i)) else show_nat (nat i))"

definition show_i64 :: "i64 \<Rightarrow> ustr" where
  "show_i64 i = show_int (sint i)"

definition digits_value :: "ustr \<Rightarrow> nat" where
  "digits_value s = foldl (\<lambda>acc c. 10 * acc + (c - 48)) 0 s"

definition parse_digits :: "ustr \<Rightarrow> nat option" where
  "parse_digits s = (if s \<noteq> [] \<and> list_all is_ascii_digit s then Some (digits_value s) else None)"

definition usize_max :: nat where
  "usize_max = 2 ^ 64 - 1"

text \<open>\<open>str::parse::<usize>\<close> and \<open>str::parse::<i64>\<close>: an optional sign (only \<open>+\<close> for the
  unsigned type), then one or more digits, in range.\<close>

definition parse_usize :: "ustr \<Rightarrow> nat option" where
  "parse_usize s =
     (case parse_digits (case s of [] \<Rightarrow> [] | c # r \<Rightarrow> if c = ch CHR ''+'' then r else s) of
        None \<Rightarrow> None
      | Some n \<Rightarrow> if n \<le> usize_max then Some n else None)"

definition parse_i64 :: "ustr \<Rightarrow> i64 option" where
  "parse_i64 s =
     (case s of
        [] \<Rightarrow> None
      | c # r \<Rightarrow>
          if c = ch CHR ''-''
          then (case parse_digits r of None \<Rightarrow> None
                | Some n \<Rightarrow> if n \<le> 2 ^ 63 then Some (- word_of_nat n) else None)
          else (case parse_digits (if c = ch CHR ''+'' then r else s) of None \<Rightarrow> None
                | Some n \<Rightarrow> if n < 2 ^ 63 then Some (word_of_nat n) else None))"

lemma show_nat_digits: "list_all is_ascii_digit (show_nat n) \<and> show_nat n \<noteq> []"
proof (induction n rule: show_nat.induct)
  case (1 n)
  then show ?case
    by (subst (1 2) show_nat.simps) (auto simp: is_ascii_digit_def [abs_def])
qed

lemma digits_value_append1: "digits_value (s @ [c]) = 10 * digits_value s + (c - 48)"
  by (simp add: digits_value_def)

lemma digits_value_show_nat: "digits_value (show_nat n) = n"
proof (induction n rule: show_nat.induct)
  case (1 n)
  show ?case
  proof (cases "n < 10")
    case True
    then show ?thesis by (simp add: show_nat.simps [of n] digits_value_def)
  next
    case False
    then show ?thesis using 1 by (simp add: show_nat.simps [of n] digits_value_append1)
  qed
qed

lemma parse_digits_show_nat [simp]: "parse_digits (show_nat n) = Some n"
  using show_nat_digits by (simp add: parse_digits_def digits_value_show_nat)

lemma show_nat_inj [simp]: "show_nat m = show_nat n \<longleftrightarrow> m = n"
  by (metis digits_value_show_nat)

lemma show_nat_hd_digit: "\<exists>d r. show_nat n = d # r \<and> is_ascii_digit d"
  using show_nat_digits [of n] by (cases "show_nat n") auto

lemma parse_i64_show_i64: "parse_i64 (show_i64 i) = Some i"
proof (cases "sint i < 0")
  case True
  have "nat (- sint i) \<le> 2 ^ 63"
    using sint_greater_eq [of i] by simp
  moreover have "- word_of_nat (nat (- sint i)) = i"
    using True by simp
  ultimately show ?thesis
    using True by (simp add: show_i64_def show_int_def parse_i64_def)
next
  case False
  have b: "nat (sint i) < 2 ^ 63"
    using sint_less [of i] False by simp
  obtain d r where d: "show_nat (nat (sint i)) = d # r" "is_ascii_digit d"
    using show_nat_hd_digit by blast
  have "parse_digits (d # r) = Some (nat (sint i))"
    using parse_digits_show_nat d(1) by metis
  with False b d show ?thesis
    by (simp add: show_i64_def show_int_def parse_i64_def is_ascii_digit_def)
qed

lemma show_int_inj [simp]: "show_int i = show_int j \<longleftrightarrow> i = j"
proof -
  have sign: "show_nat n \<noteq> 45 # s" for n s
    using show_nat_hd_digit [of n] by (auto simp: is_ascii_digit_def)
  then show ?thesis
    by (auto simp: show_int_def sign [symmetric] dest: sym split: if_splits)
qed

lemma show_i64_inj [simp]: "show_i64 i = show_i64 j \<longleftrightarrow> i = j"
  by (metis option.inject parse_i64_show_i64)

section \<open>Slices cut into chunks\<close>

text \<open>\<open>slice::chunks_exact\<close> (a shorter rest is left out) and \<open>slice::chunks\<close>.\<close>

function chunks_exact :: "nat \<Rightarrow> 'a list \<Rightarrow> 'a list list" where
  "chunks_exact w xs = (if w = 0 \<or> length xs < w then [] else take w xs # chunks_exact w (drop w xs))"
  by pat_completeness auto
termination
  by (relation "measure (\<lambda>(w, xs). length xs)") auto

function chunks :: "nat \<Rightarrow> 'a list \<Rightarrow> 'a list list" where
  "chunks w xs = (if w = 0 \<or> xs = [] then [] else take w xs # chunks w (drop w xs))"
  by pat_completeness auto
termination
  by (relation "measure (\<lambda>(w, xs). length xs)") auto

declare chunks_exact.simps [simp del] chunks.simps [simp del]

lemma chunks_exact_concat:
  "0 < w \<Longrightarrow> (\<forall>r \<in> set rows. length r = w) \<Longrightarrow> chunks_exact w (concat rows) = rows"
proof (induction rows)
  case Nil
  then show ?case by (simp add: chunks_exact.simps [of w "[]"])
next
  case (Cons r rows)
  then show ?case by (simp add: chunks_exact.simps [of w "r @ concat rows"])
qed

lemma chunks_exact_Nil [simp]: "chunks_exact w [] = []"
  by (cases w) (simp_all add: chunks_exact.simps [of _ "[]"])

lemma chunks_Nil [simp]: "chunks w [] = []"
  by (simp add: chunks.simps)

lemma concat_chunks: "0 < w \<Longrightarrow> concat (chunks w xs) = xs"
proof (induction w xs rule: chunks.induct)
  case (1 w xs)
  then show ?case by (cases "xs = []") (simp_all add: chunks.simps [of w xs])
qed

lemma length_chunks_exact: "w dvd length xs \<Longrightarrow> 0 < w \<Longrightarrow> length (chunks_exact w xs) = length xs div w"
proof (induction w xs rule: chunks_exact.induct)
  case (1 w xs)
  show ?case
  proof (cases "length xs < w")
    case True
    then show ?thesis using 1 by (simp add: chunks_exact.simps [of w xs])
  next
    case False
    moreover have "w dvd length (drop w xs)" using 1 False by (simp add: dvd_minus_self)
    ultimately show ?thesis
      using 1 by (simp add: chunks_exact.simps [of w xs] le_div_geq)
  qed
qed

section \<open>Lists\<close>

lemma nth_option_cases: "(if i < length xs then Some (xs ! i) else None) = Some x \<longleftrightarrow> i < length xs \<and> xs ! i = x"
  by auto

text \<open>\<open>slice::get\<close>.\<close>

definition get :: "'a list \<Rightarrow> nat \<Rightarrow> 'a option" where
  "get xs i = (if i < length xs then Some (xs ! i) else None)"

lemma get_simps [simp]:
  "get [] i = None"
  "get (x # xs) 0 = Some x"
  "get (x # xs) (Suc i) = get xs i"
  "i < length xs \<Longrightarrow> get xs i = Some (xs ! i)"
  "length xs \<le> i \<Longrightarrow> get xs i = None"
  by (simp_all add: get_def)

lemma get_numeral [simp]: "get (x # xs) (numeral n) = get xs (pred_numeral n)"
  by (simp add: get_def numeral_eq_Suc)

lemma get_map [simp]: "get (map f xs) i = map_option f (get xs i)"
  by (simp add: get_def)

lemma get_Some_iff: "get xs i = Some x \<longleftrightarrow> i < length xs \<and> xs ! i = x"
  by (auto simp: get_def)

text \<open>\<open>Iterator::position\<close>.\<close>

fun position :: "('a \<Rightarrow> bool) \<Rightarrow> 'a list \<Rightarrow> nat option" where
  "position p [] = None"
| "position p (x # xs) = (if p x then Some 0 else map_option Suc (position p xs))"

lemma position_Some: "position p xs = Some i \<Longrightarrow> i < length xs \<and> p (xs ! i) \<and> (\<forall>j < i. \<not> p (xs ! j))"
proof (induction xs arbitrary: i)
  case (Cons x xs)
  show ?case
  proof (cases "p x")
    case False
    with Cons.prems obtain k where "position p xs = Some k" "i = Suc k" by auto
    with False Cons.IH show ?thesis by (auto simp: nth_Cons split: nat.splits)
  qed (use Cons.prems in auto)
qed simp

lemma position_None: "position p xs = None \<longleftrightarrow> (\<forall>x \<in> set xs. \<not> p x)"
  by (induction xs) auto

end
