(* ===== verification/F64.thy ===== *)
theory F64
  imports Prelude
begin

text \<open>
  IEEE-754 binary64, the \<open>f64\<close> of the language: a sign and the low 63 bits, so that the
  type has exactly the \<open>2^64\<close> values of the machine format. Every finite value is a whole
  number of units of \<open>2^-1074\<close>; arithmetic is exact on those units and then rounded to
  nearest, ties to even. The result of an invalid operation is one fixed quiet NaN, where
  the hardware may choose another sign or payload; no property below reads a NaN's bits.
\<close>

section \<open>Representation\<close>

datatype f64 = F64 (f_sign: bool) (f_mag: "63 word")

definition inf_mag :: nat where
  "inf_mag = 2047 * 2 ^ 52"

definition unit_one :: nat where
  "unit_one = 2 ^ 1074"

abbreviation fmag :: "f64 \<Rightarrow> nat" where
  "fmag f \<equiv> unat (f_mag f)"

definition is_nan :: "f64 \<Rightarrow> bool" where
  "is_nan f \<longleftrightarrow> inf_mag < fmag f"

definition is_infinite :: "f64 \<Rightarrow> bool" where
  "is_infinite f \<longleftrightarrow> fmag f = inf_mag"

definition is_finite :: "f64 \<Rightarrow> bool" where
  "is_finite f \<longleftrightarrow> fmag f < inf_mag"

definition f_nan :: f64 where
  "f_nan = F64 False (word_of_nat (inf_mag + 2 ^ 51))"

definition f_inf :: "bool \<Rightarrow> f64" where
  "f_inf s = F64 s (word_of_nat inf_mag)"

definition f_zero :: "bool \<Rightarrow> f64" where
  "f_zero s = F64 s 0"

text \<open>The magnitude of a finite value in units, from its exponent and mantissa fields.\<close>

definition mag_units :: "nat \<Rightarrow> nat" where
  "mag_units n =
     (if n div 2 ^ 52 = 0 then n mod 2 ^ 52
      else (2 ^ 52 + n mod 2 ^ 52) * 2 ^ (n div 2 ^ 52 - 1))"

definition f_units :: "f64 \<Rightarrow> int" where
  "f_units f = (if f_sign f then - int (mag_units (fmag f)) else int (mag_units (fmag f)))"

fun bit_length :: "nat \<Rightarrow> nat" where
  "bit_length n = (if n = 0 then 0 else Suc (bit_length (n div 2)))"

declare bit_length.simps [simp del]

text \<open>Nearest integer to \<open>p / q\<close>, ties to even, and the nearest magnitude to \<open>p / q\<close> units.\<close>

definition rne :: "nat \<Rightarrow> nat \<Rightarrow> nat" where
  "rne p q =
     (let d = p div q; m = p mod q
      in if q < 2 * m \<or> (2 * m = q \<and> odd d) then d + 1 else d)"

definition round_units :: "nat \<Rightarrow> nat \<Rightarrow> nat" where
  "round_units p q =
     (let e = bit_length (p div q) - 53
      in min (e * 2 ^ 52 + rne p (q * 2 ^ e)) inf_mag)"

definition of_units :: "bool \<Rightarrow> nat \<Rightarrow> nat \<Rightarrow> f64" where
  "of_units s p q = F64 s (word_of_nat (round_units p q))"

section \<open>Operations\<close>

definition f_minus :: "f64 \<Rightarrow> f64" where
  "f_minus f = F64 (\<not> f_sign f) (f_mag f)"

definition f_abs :: "f64 \<Rightarrow> f64" where
  "f_abs f = F64 False (f_mag f)"

definition f_add :: "f64 \<Rightarrow> f64 \<Rightarrow> f64" where
  "f_add a b =
     (if is_nan a \<or> is_nan b then f_nan
      else if is_infinite a then (if is_infinite b \<and> f_sign a \<noteq> f_sign b then f_nan else a)
      else if is_infinite b then b
      else let s = f_units a + f_units b
           in if s = 0 then f_zero (f_sign a \<and> f_sign b)
              else of_units (s < 0) (nat \<bar>s\<bar>) 1)"

definition f_sub :: "f64 \<Rightarrow> f64 \<Rightarrow> f64" where
  "f_sub a b = f_add a (f_minus b)"

definition f_mul :: "f64 \<Rightarrow> f64 \<Rightarrow> f64" where
  "f_mul a b =
     (let s = (f_sign a \<noteq> f_sign b)
      in if is_nan a \<or> is_nan b then f_nan
         else if is_infinite a \<or> is_infinite b
         then (if fmag a = 0 \<or> fmag b = 0 then f_nan else f_inf s)
         else of_units s (mag_units (fmag a) * mag_units (fmag b)) unit_one)"

definition f_div :: "f64 \<Rightarrow> f64 \<Rightarrow> f64" where
  "f_div a b =
     (let s = (f_sign a \<noteq> f_sign b)
      in if is_nan a \<or> is_nan b then f_nan
         else if is_infinite a then (if is_infinite b then f_nan else f_inf s)
         else if is_infinite b then f_zero s
         else if fmag b = 0 then (if fmag a = 0 then f_nan else f_inf s)
         else of_units s (mag_units (fmag a) * unit_one) (mag_units (fmag b)))"

text \<open>The \<open>%\<close> operator: the remainder of the truncated quotient, exact, with the sign of
  the dividend.\<close>

definition f_rem :: "f64 \<Rightarrow> f64 \<Rightarrow> f64" where
  "f_rem a b =
     (if is_nan a \<or> is_nan b \<or> is_infinite a \<or> fmag b = 0 then f_nan
      else if is_infinite b then a
      else of_units (f_sign a) (mag_units (fmag a) mod mag_units (fmag b)) 1)"

definition f_of_int :: "int \<Rightarrow> f64" where
  "f_of_int i = of_units (i < 0) (nat \<bar>i\<bar> * unit_one) 1"

text \<open>\<open>as i64\<close>: truncation, saturating, NaN to zero.\<close>

definition f_to_i64 :: "f64 \<Rightarrow> i64" where
  "f_to_i64 f =
     (if is_nan f then 0
      else if is_infinite f then (if f_sign f then - (2 ^ 63) else 2 ^ 63 - 1)
      else let t = int (mag_units (fmag f) div unit_one);
               v = (if f_sign f then - t else t)
           in word_of_int (max (- (2 ^ 63)) (min (2 ^ 63 - 1) v)))"

text \<open>\<open>total_cmp\<close>, and the IEEE relations behind \<open>==\<close> and \<open><\<close>.\<close>

definition total_key :: "f64 \<Rightarrow> int" where
  "total_key f = (if f_sign f then - int (fmag f) - 1 else int (fmag f))"

definition total_cmp :: "f64 \<Rightarrow> f64 \<Rightarrow> ordering" where
  "total_cmp a b = cmp (total_key a) (total_key b)"

definition ieee_key :: "f64 \<Rightarrow> int" where
  "ieee_key f = (if f_sign f then - int (fmag f) else int (fmag f))"

definition f_eq :: "f64 \<Rightarrow> f64 \<Rightarrow> bool" where
  "f_eq a b \<longleftrightarrow> \<not> is_nan a \<and> \<not> is_nan b \<and> ieee_key a = ieee_key b"

definition f_lt :: "f64 \<Rightarrow> f64 \<Rightarrow> bool" where
  "f_lt a b \<longleftrightarrow> \<not> is_nan a \<and> \<not> is_nan b \<and> ieee_key a < ieee_key b"

text \<open>\<open>f.fract() == 0.0\<close>, false for an infinity and for NaN.\<close>

definition fract_is_zero :: "f64 \<Rightarrow> bool" where
  "fract_is_zero f \<longleftrightarrow> is_finite f \<and> mag_units (fmag f) mod unit_one = 0"

definition f_floor :: "f64 \<Rightarrow> f64" where
  "f_floor f =
     (if \<not> is_finite f then f
      else let u = mag_units (fmag f); q = u div unit_one
           in of_units (f_sign f) ((if f_sign f \<and> u mod unit_one \<noteq> 0 then q + 1 else q) * unit_one) 1)"

definition f_ceil :: "f64 \<Rightarrow> f64" where
  "f_ceil f =
     (if \<not> is_finite f then f
      else let u = mag_units (fmag f); q = u div unit_one
           in of_units (f_sign f) ((if \<not> f_sign f \<and> u mod unit_one \<noteq> 0 then q + 1 else q) * unit_one) 1)"

definition f_round :: "f64 \<Rightarrow> f64" where
  "f_round f =
     (if \<not> is_finite f then f
      else let u = mag_units (fmag f); q = u div unit_one
           in of_units (f_sign f) ((if unit_one \<le> 2 * (u mod unit_one) then q + 1 else q) * unit_one) 1)"

text \<open>\<open>sqrt\<close>, correctly rounded: the integer square root of the argument scaled so that it has
  more than 53 bits, with a sticky half for an inexact root.\<close>

fun isqrt_loop :: "nat \<Rightarrow> nat \<Rightarrow> nat \<Rightarrow> nat" where
  "isqrt_loop 0 n s = s"
| "isqrt_loop (Suc k) n s = isqrt_loop k n (if (s + 2 ^ k) * (s + 2 ^ k) \<le> n then s + 2 ^ k else s)"

definition isqrt :: "nat \<Rightarrow> nat" where
  "isqrt n = isqrt_loop (bit_length n) n 0"

definition f_sqrt :: "f64 \<Rightarrow> f64" where
  "f_sqrt f =
     (if is_nan f then f_nan
      else if fmag f = 0 then f
      else if f_sign f then f_nan
      else if is_infinite f then f
      else let n = mag_units (fmag f) * unit_one; r = isqrt n
           in of_units False (2 * r + (if r * r = n then 0 else 1)) 2)"

section \<open>Reading and printing\<close>

text \<open>
  \<open>str::parse::<f64>\<close>: an optional sign, then \<open>inf\<close>, \<open>infinity\<close> or \<open>nan\<close> in any case, or
  digits with an optional point (a digit on one side at least) and an optional exponent;
  the decimal value is rounded once.
\<close>

definition span_digits :: "ustr \<Rightarrow> ustr \<times> ustr" where
  "span_digits s = (takeWhile is_ascii_digit s, dropWhile is_ascii_digit s)"

definition parse_exponent :: "ustr \<Rightarrow> int option" where
  "parse_exponent s =
     (case s of
        [] \<Rightarrow> Some 0
      | c # r \<Rightarrow>
          if c = ch CHR ''e'' \<or> c = ch CHR ''E''
          then (case r of
                  [] \<Rightarrow> None
                | d # r' \<Rightarrow>
                    if d = ch CHR ''-'' then map_option (\<lambda>n. - int n) (parse_digits r')
                    else map_option int (parse_digits (if d = ch CHR ''+'' then r' else r)))
          else None)"

definition decimal_f64 :: "bool \<Rightarrow> nat \<Rightarrow> int \<Rightarrow> f64" where
  "decimal_f64 s d x =
     (if 0 \<le> x then of_units s (d * 10 ^ nat x * unit_one) 1
      else of_units s (d * unit_one) (10 ^ nat (- x)))"

definition parse_unsigned_f64 :: "bool \<Rightarrow> ustr \<Rightarrow> f64 option" where
  "parse_unsigned_f64 s t =
     (let lower = map to_ascii_lowercase t
      in if lower = str ''inf'' \<or> lower = str ''infinity'' then Some (f_inf s)
         else if lower = str ''nan'' then Some f_nan
         else
           let (ip, r1) = span_digits t;
               (fp, r2) = (case r1 of
                             [] \<Rightarrow> ([], [])
                           | c # r \<Rightarrow> if c = ch CHR ''.'' then span_digits r else ([], r1))
           in if ip = [] \<and> fp = [] then None
              else map_option (\<lambda>x. decimal_f64 s (digits_value (ip @ fp)) (x - int (length fp)))
                     (parse_exponent r2))"

definition parse_f64 :: "ustr \<Rightarrow> f64 option" where
  "parse_f64 t =
     (case t of
        [] \<Rightarrow> None
      | c # r \<Rightarrow>
          if c = ch CHR ''-'' then parse_unsigned_f64 True r
          else if c = ch CHR ''+'' then parse_unsigned_f64 False r
          else parse_unsigned_f64 False t)"

text \<open>
  \<open>Display\<close> of an \<open>f64\<close>: the fewest significant digits that read back as the same value,
  the nearest such decimal, written without an exponent.
\<close>

definition dec_length :: "nat \<Rightarrow> nat" where
  "dec_length n = (if n = 0 then 0 else length (show_nat n))"

definition dec_exponent :: "nat \<Rightarrow> int" where
  "dec_exponent u =
     (if unit_one \<le> u then int (dec_length (u div unit_one))
      else 1 - int (dec_length (unit_one div u) +
                    (if unit_one \<le> u * 10 ^ (dec_length (unit_one div u) - 1) then 0 else 1) - 1))"

text \<open>\<open>decimal_candidate u n\<close>: the \<open>n\<close>-digit decimal \<open>d * 10^t\<close> nearest to \<open>u\<close> units that
  rounds back to them, if there is one.\<close>

definition decimal_candidate :: "nat \<Rightarrow> nat \<Rightarrow> nat \<Rightarrow> (nat \<times> int) option" where
  "decimal_candidate mag u n =
     (let t = dec_exponent u - int n;
          p = (if 0 \<le> t then u else u * 10 ^ nat (- t));
          q = (if 0 \<le> t then unit_one * 10 ^ nat t else unit_one);
          lo = p div q;
          back = (\<lambda>d. f_mag (decimal_f64 False d t) = word_of_nat mag)
      in if back lo \<and> (\<not> back (lo + 1) \<or> 2 * (p mod q) \<le> q) then Some (lo, t)
         else if back (lo + 1) then Some (lo + 1, t)
         else None)"

fun shortest_decimal :: "nat \<Rightarrow> nat \<Rightarrow> nat \<Rightarrow> nat \<Rightarrow> (nat \<times> int) option" where
  "shortest_decimal 0 n mag u = None"
| "shortest_decimal (Suc k) n mag u =
     (case decimal_candidate mag u n of
        Some r \<Rightarrow> Some r
      | None \<Rightarrow> shortest_decimal k (Suc n) mag u)"

definition strip_zeros :: "ustr \<Rightarrow> ustr" where
  "strip_zeros s = rev (dropWhile (\<lambda>c. c = ch CHR ''0'') (rev s))"

definition place_point :: "ustr \<Rightarrow> int \<Rightarrow> ustr" where
  "place_point ds t =
     (if 0 \<le> t then ds @ replicate (nat t) (ch CHR ''0'')
      else
        let k = nat (- t);
            padded = (if length ds \<le> k then replicate (k + 1 - length ds) (ch CHR ''0'') @ ds else ds);
            ip = take (length padded - k) padded;
            fp = strip_zeros (drop (length padded - k) padded)
        in if fp = [] then ip else ip @ [ch CHR ''.''] @ fp)"

definition show_f64 :: "f64 \<Rightarrow> ustr" where
  "show_f64 f =
     (let sign = (if f_sign f then str ''-'' else [])
      in if is_nan f then str ''NaN''
         else if is_infinite f then sign @ str ''inf''
         else if fmag f = 0 then sign @ str ''0''
         else case shortest_decimal 17 1 (fmag f) (mag_units (fmag f)) of
                None \<Rightarrow> str ''NaN''
              | Some (d, t) \<Rightarrow> sign @ place_point (show_nat d) t)"

text \<open>\<open>format!("{:.k}", f)\<close> for a finite value: the exact decimal expansion, rounded half
  to even at \<open>k\<close> places.\<close>

definition show_fixed :: "nat \<Rightarrow> f64 \<Rightarrow> ustr" where
  "show_fixed k f =
     (let d = rne (mag_units (fmag f) * 10 ^ k) unit_one;
          ds = show_nat d;
          padded = (if length ds \<le> k then replicate (k + 1 - length ds) (ch CHR ''0'') @ ds else ds);
          ip = take (length padded - k) padded;
          fp = drop (length padded - k) padded
      in (if f_sign f then str ''-'' else []) @ ip @ (if k = 0 then [] else ch CHR ''.'' # fp))"

section \<open>Exactness on integers\<close>

lemma bit_length_pos: "0 < n \<Longrightarrow> bit_length n = Suc (bit_length (n div 2))"
  by (subst bit_length.simps) simp

lemma bit_length_0 [simp]: "bit_length 0 = 0"
  by (subst bit_length.simps) simp

lemma bit_length_le_iff: "bit_length n \<le> k \<longleftrightarrow> n < 2 ^ k"
proof (induction k arbitrary: n)
  case 0
  then show ?case
    by (cases n) (simp_all add: bit_length_pos)
next
  case (Suc k)
  then show ?case
    by (cases "n = 0") (simp_all add: bit_length_pos div_less_iff_less_mult mult.commute)
qed

lemma bit_length_ge: "k < bit_length n \<longleftrightarrow> 2 ^ k \<le> n"
  using bit_length_le_iff [of n k] by linarith

lemma inf_mag_less: "inf_mag < 2 ^ 63" "2 ^ 53 < inf_mag"
  by (simp_all add: inf_mag_def)

lemma unat_of_mag [simp]: "n \<le> inf_mag \<Longrightarrow> unat (word_of_nat n :: 63 word) = n"
  using inf_mag_less(1) by (simp add: unat_of_nat)

lemma round_units_le: "round_units p q \<le> inf_mag"
  by (simp add: round_units_def Let_def)

lemma rne_dvd: "0 < q \<Longrightarrow> q dvd p \<Longrightarrow> rne p q = p div q"
  by (auto simp: rne_def Let_def)

lemma mag_units_fields:
  "m < 2 ^ 52 \<Longrightarrow> mag_units (Suc e * 2 ^ 52 + m) = (2 ^ 52 + m) * 2 ^ e"
proof -
  assume "m < 2 ^ 52"
  then have "(Suc e * 2 ^ 52 + m) div 2 ^ 52 = Suc e" "(Suc e * 2 ^ 52 + m) mod 2 ^ 52 = m"
    by (simp_all only: div_mult_self3 mod_mult_self3 div_less mod_less)
  then show ?thesis
    unfolding mag_units_def by simp
qed

lemma mag_units_small: "n < 2 ^ 53 \<Longrightarrow> mag_units n = n"
proof (cases "n < 2 ^ 52")
  case False
  moreover assume "n < 2 ^ 53"
  ultimately have "n - 2 ^ 52 < 2 ^ 52" "n = Suc 0 * 2 ^ 52 + (n - 2 ^ 52)"
    by auto
  then show ?thesis
    by (metis add_diff_cancel_left' mag_units_fields mult.left_neutral mult.right_neutral
        power_0 One_nat_def)
qed (simp add: mag_units_def)

lemma round_units_exact:
  assumes p: "p = m * 2 ^ k" and m: "m < 2 ^ 53" and small: "p < 2 ^ 2098"
  shows "round_units p 1 < inf_mag \<and> mag_units (round_units p 1) = p"
proof (cases "bit_length p \<le> 53")
  case True
  then have "p < 2 ^ 53"
    by (simp only: bit_length_le_iff)
  then show ?thesis
    using True inf_mag_less by (simp add: round_units_def rne_dvd mag_units_small)
next
  case False
  define e where "e = bit_length p - 53"
  have e: "bit_length p = 53 + e" "0 < e"
    using False by (auto simp: e_def)
  have lo: "2 ^ (52 + e) \<le> p" and hi: "p < 2 ^ (53 + e)"
    using e bit_length_ge [of "52 + e" p] bit_length_le_iff [of p "53 + e"] by auto
  have "e \<le> k"
  proof (rule ccontr)
    assume "\<not> e \<le> k"
    then have "(2 ^ 53 :: nat) * 2 ^ k \<le> 2 ^ (52 + e)"
      unfolding power_add [symmetric] by (intro power_increasing) auto
    moreover have "m * 2 ^ k < 2 ^ 53 * 2 ^ k"
      using m by simp
    ultimately show False
      using lo p by linarith
  qed
  then have dvd: "2 ^ e dvd p"
    by (simp add: p le_imp_power_dvd)
  then obtain r where r: "p = 2 ^ e * r" ..
  have rb: "2 ^ 52 \<le> r" "r < 2 ^ 53"
    using lo hi by (simp_all add: r power_add mult.commute)
  have e_le: "e \<le> 2045"
  proof (rule ccontr)
    assume "\<not> e \<le> 2045"
    then have "(2 :: nat) ^ 2098 \<le> 2 ^ (52 + e)"
      by (intro power_increasing) auto
    then show False
      using lo small by linarith
  qed
  have v: "e * 2 ^ 52 + r = Suc e * 2 ^ 52 + (r - 2 ^ 52)" "r - 2 ^ 52 < 2 ^ 52"
    using rb by auto
  have lt: "e * 2 ^ 52 + r < inf_mag"
    using e_le rb(2) by (simp add: inf_mag_def)
  have "round_units p 1 = e * 2 ^ 52 + r"
    using lt rne_dvd [OF _ dvd] by (simp add: round_units_def Let_def e_def [symmetric]) (simp add: r)
  moreover have "mag_units (e * 2 ^ 52 + r) = p"
    unfolding v(1) using rb by (subst mag_units_fields [OF v(2)]) (simp add: r)
  ultimately show ?thesis
    using lt by simp
qed

lemma mag_units_Suc: "mag_units n < mag_units (Suc n)"
proof (cases "Suc (n mod 2 ^ 52) = 2 ^ 52")
  case True
  then have "Suc n div 2 ^ 52 = Suc (n div 2 ^ 52)" "Suc n mod 2 ^ 52 = 0"
    by (simp_all add: div_Suc mod_Suc)
  moreover have "n mod 2 ^ 52 = 2 ^ 52 - 1"
    using True by simp
  ultimately show ?thesis
    by (cases "n div 2 ^ 52") (simp_all add: mag_units_def)
next
  case False
  then have "Suc n div 2 ^ 52 = n div 2 ^ 52" "Suc n mod 2 ^ 52 = Suc (n mod 2 ^ 52)"
    by (simp_all add: div_Suc mod_Suc)
  then show ?thesis
    by (simp add: mag_units_def)
qed

lemma mag_units_less [simp]: "mag_units m < mag_units n \<longleftrightarrow> m < n"
  using lift_Suc_mono_less_iff [of mag_units, OF mag_units_Suc] .

lemma mag_units_eq [simp]: "mag_units m = mag_units n \<longleftrightarrow> m = n"
  by (metis mag_units_less nat_neq_iff)

text \<open>Integers up to \<open>2^53\<close> in magnitude are represented exactly.\<close>

lemma exact_int_bound:
  assumes "\<bar>i\<bar> \<le> 2 ^ 53"
  shows "round_units (nat \<bar>i\<bar> * unit_one) 1 < inf_mag"
    "mag_units (round_units (nat \<bar>i\<bar> * unit_one) 1) = nat \<bar>i\<bar> * unit_one"
proof -
  have "\<exists>m k. nat \<bar>i\<bar> * unit_one = m * 2 ^ k \<and> m < (2 :: nat) ^ 53"
  proof (cases "\<bar>i\<bar> = 2 ^ 53")
    case True
    then have "nat \<bar>i\<bar> * unit_one = 1 * 2 ^ 1127"
      unfolding unit_one_def by simp
    then show ?thesis
      by (intro exI [of _ 1] exI [of _ 1127]) auto
  next
    case False
    then have "nat \<bar>i\<bar> < 2 ^ 53"
      using assms by (simp add: nat_less_iff)
    then show ?thesis
      unfolding unit_one_def by blast
  qed
  moreover have "nat \<bar>i\<bar> * unit_one < 2 ^ 2098"
  proof -
    have "nat \<bar>i\<bar> * unit_one \<le> 2 ^ 53 * 2 ^ 1074"
      using assms unfolding unit_one_def by (intro mult_right_mono) (simp_all add: nat_le_iff)
    also have "\<dots> < 2 ^ 2098"
      by simp
    finally show ?thesis .
  qed
  ultimately show "round_units (nat \<bar>i\<bar> * unit_one) 1 < inf_mag"
    "mag_units (round_units (nat \<bar>i\<bar> * unit_one) 1) = nat \<bar>i\<bar> * unit_one"
    using round_units_exact by blast+
qed

lemma unit_one_pos [simp]: "0 < unit_one" "unit_one \<noteq> 0"
  by (simp_all add: unit_one_def)

lemma f_of_int_fields:
  assumes "\<bar>i\<bar> \<le> 2 ^ 53"
  shows "f_sign (f_of_int i) \<longleftrightarrow> i < 0"
    "mag_units (fmag (f_of_int i)) = nat \<bar>i\<bar> * unit_one"
    "is_finite (f_of_int i)" "\<not> is_nan (f_of_int i)" "\<not> is_infinite (f_of_int i)"
  using exact_int_bound [OF assms]
  by (simp_all add: f_of_int_def of_units_def is_finite_def is_nan_def is_infinite_def)

lemma f_units_of_int: "\<bar>i\<bar> \<le> 2 ^ 53 \<Longrightarrow> f_units (f_of_int i) = i * int unit_one"
  by (auto simp: f_units_def f_of_int_fields)

lemma f_of_int_0: "f_of_int 0 = f_zero False"
  by (simp add: f_zero_def f_of_int_def of_units_def round_units_def rne_def)

lemma f_add_of_int:
  assumes "\<bar>i\<bar> \<le> 2 ^ 53" "\<bar>j\<bar> \<le> 2 ^ 53"
  shows "f_add (f_of_int i) (f_of_int j) = f_of_int (i + j)"
proof -
  have s: "f_units (f_of_int i) + f_units (f_of_int j) = (i + j) * int unit_one"
    using assms by (simp add: f_units_of_int distrib_right)
  have "f_add (f_of_int i) (f_of_int j) =
    (if i + j = 0 then f_zero (i < 0 \<and> j < 0)
     else of_units ((i + j) * int unit_one < 0) (nat \<bar>(i + j) * int unit_one\<bar>) 1)"
    unfolding f_add_def Let_def s using assms
    by (simp only: f_of_int_fields if_False simp_thms mult_eq_0_iff of_nat_eq_0_iff unit_one_pos)
  moreover have "nat \<bar>(i + j) * int unit_one\<bar> = nat \<bar>i + j\<bar> * unit_one"
    by (simp add: abs_mult nat_mult_distrib)
  moreover have "(i + j) * int unit_one < 0 \<longleftrightarrow> i + j < 0"
    by (simp add: mult_less_0_iff)
  moreover have "i + j = 0 \<Longrightarrow> (i < 0 \<and> j < 0) = False"
    by auto
  ultimately show ?thesis
    by (cases "i + j = 0") (simp_all only: f_of_int_0 f_of_int_def [of "i + j"] if_True if_False refl)
qed

lemma f_minus_of_int: "i \<noteq> 0 \<Longrightarrow> f_minus (f_of_int i) = f_of_int (- i)"
  by (auto simp: f_minus_def f_of_int_def of_units_def)

lemma fract_of_int [simp]: "\<bar>i\<bar> \<le> 2 ^ 53 \<Longrightarrow> fract_is_zero (f_of_int i)"
  by (simp add: fract_is_zero_def f_of_int_fields)

lemma f_to_i64_of_int:
  assumes "\<bar>i\<bar> \<le> 2 ^ 53"
  shows "f_to_i64 (f_of_int i) = word_of_int i"
proof -
  have "max (- (2 ^ 63)) (min (2 ^ 63 - 1) i) = i"
    using assms by (auto simp: max_def min_def abs_le_iff)
  moreover have "(if i < 0 then - int (nat \<bar>i\<bar>) else int (nat \<bar>i\<bar>)) = i"
    by simp
  ultimately show ?thesis
    using assms by (simp only: f_to_i64_def f_of_int_fields Let_def if_False
        nonzero_mult_div_cancel_right [OF unit_one_pos(2)])
qed

lemma ieee_key_less: "ieee_key a < ieee_key b \<longleftrightarrow> f_units a < f_units b"
proof -
  have "mag_units 0 = 0"
    by (simp add: mag_units_def)
  then have "0 < mag_units m \<longleftrightarrow> 0 < m" for m
    using mag_units_less [of 0 m] by simp
  then have "0 < int (mag_units m) \<longleftrightarrow> 0 < int m" for m
    by simp
  from this [of "fmag a"] this [of "fmag b"] show ?thesis
    unfolding ieee_key_def f_units_def
    by (cases "f_sign a"; cases "f_sign b")
       (simp_all only: if_True if_False neg_less_iff_less of_nat_less_iff mag_units_less, linarith+)
qed

lemma ieee_key_of_int_less:
  assumes "\<bar>i\<bar> \<le> 2 ^ 53" "\<bar>j\<bar> \<le> 2 ^ 53"
  shows "ieee_key (f_of_int i) < ieee_key (f_of_int j) \<longleftrightarrow> i < j"
  by (simp only: ieee_key_less f_units_of_int [OF assms(1)] f_units_of_int [OF assms(2)])
     (simp add: mult_less_cancel_right)

lemma f_lt_of_int:
  "\<bar>i\<bar> \<le> 2 ^ 53 \<Longrightarrow> \<bar>j\<bar> \<le> 2 ^ 53 \<Longrightarrow> f_lt (f_of_int i) (f_of_int j) \<longleftrightarrow> i < j"
  by (simp only: f_lt_def f_of_int_fields ieee_key_of_int_less) simp

lemma total_key_ieee: "total_key f = (if f_sign f then ieee_key f - 1 else ieee_key f)"
  by (simp add: total_key_def ieee_key_def)

lemma total_key_of_int_less:
  assumes "\<bar>i\<bar> \<le> 2 ^ 53" "\<bar>j\<bar> \<le> 2 ^ 53"
  shows "total_key (f_of_int i) < total_key (f_of_int j) \<longleftrightarrow> i < j"
  using ieee_key_of_int_less [OF assms] ieee_key_of_int_less [OF assms(2,1)]
  unfolding total_key_ieee f_of_int_fields(1) [OF assms(1)] f_of_int_fields(1) [OF assms(2)]
  by (cases "i < 0"; cases "j < 0") (simp_all only: if_True if_False, linarith+)

lemma total_cmp_of_int:
  assumes "\<bar>i\<bar> \<le> 2 ^ 53" "\<bar>j\<bar> \<le> 2 ^ 53"
  shows "total_cmp (f_of_int i) (f_of_int j) = cmp i j"
proof -
  let ?a = "total_key (f_of_int i)" and ?b = "total_key (f_of_int j)"
  have "?a = ?b \<longleftrightarrow> i = j"
    using total_key_of_int_less [OF assms] total_key_of_int_less [OF assms(2,1)] by linarith
  then show ?thesis
    by (simp only: total_cmp_def cmp_def total_key_of_int_less [OF assms])
qed

section \<open>The total order\<close>

lemma total_key_inj: "total_key a = total_key b \<longleftrightarrow> a = b"
proof
  assume eq: "total_key a = total_key b"
  have "total_key f < 0 \<longleftrightarrow> f_sign f" for f
    unfolding total_key_def by (simp del: of_nat_unat)
  from this [of a] this [of b] eq have "f_sign a = f_sign b"
    by simp
  moreover from this eq have "fmag a = fmag b"
    unfolding total_key_def by (cases "f_sign a") (simp_all del: of_nat_unat)
  ultimately show "a = b"
    by (cases a; cases b) (simp add: word_unat_eq_iff)
qed simp

lemma total_cmp_Equal [simp]: "total_cmp a b = Equal \<longleftrightarrow> a = b"
  by (simp add: total_cmp_def total_key_inj)

lemma total_cmp_reverse: "total_cmp b a = reverse (total_cmp a b)"
  by (simp add: total_cmp_def cmp_reverse [of "total_key a"])

lemma total_cmp_le_trans:
  "total_cmp a b \<noteq> Greater \<Longrightarrow> total_cmp b c \<noteq> Greater \<Longrightarrow> total_cmp a c \<noteq> Greater"
  by (simp add: total_cmp_def not_less)

interpretation f64_cmp: comparator_on UNIV total_cmp
proof
  show "total_cmp y x = reverse (total_cmp x y)" for x y
    by (rule total_cmp_reverse)
  show "total_cmp x y \<noteq> Greater \<Longrightarrow> total_cmp y z \<noteq> Greater \<Longrightarrow> total_cmp x z \<noteq> Greater" for x y z
    by (rule total_cmp_le_trans)
qed simp_all

end
