(* ===== verification/Values.thy ===== *)
theory Values
  imports F64
begin

text \<open>
  The dynamic value of the language (\<open>cfml-common/src/dynamic.rs\<close>) as the query engine sees
  it, its conversions to text and to a truth value, the numeric reading of a string
  (\<open>numeric.rs\<close>) and the case-insensitive order of \<open>text.rs\<close>.

  What the standard library and third-party crates supply is a record \<open>runtime\<close> passed to
  every definition that uses it: the Unicode tables, the regular-expression engine, the
  transcendental functions, and the calendar conversions that depend on the request's time
  zone. What is relied on is stated by \<open>unicode_laws\<close>.
\<close>

section \<open>The runtime the code is linked with\<close>

datatype date_kind = KDateTime | KDate | KTime

datatype cfml_date = CfmlDate (date_secs: i64) (date_nanos: "32 word") (date_kind: date_kind)

definition epoch_nanos :: "cfml_date \<Rightarrow> int" where
  "epoch_nanos d = sint (date_secs d) * 1000000000 + uint (date_nanos d)"

record runtime =
  rt_lower :: "ustr \<Rightarrow> ustr"
  rt_upper :: "ustr \<Rightarrow> ustr"
  rt_char_lower :: "uchar \<Rightarrow> ustr"
  rt_alphabetic :: "uchar \<Rightarrow> bool"
  rt_alphanumeric :: "uchar \<Rightarrow> bool"
  rt_regex_escape :: "ustr \<Rightarrow> ustr"
  rt_regex_is_match :: "ustr \<Rightarrow> ustr \<Rightarrow> bool"
  rt_parse_date :: "ustr \<Rightarrow> cfml_date option"
  rt_from_numeric :: "f64 \<Rightarrow> cfml_date option"
  rt_date_string :: "cfml_date \<Rightarrow> ustr"
  rt_exp :: "f64 \<Rightarrow> f64"
  rt_sin :: "f64 \<Rightarrow> f64"
  rt_cos :: "f64 \<Rightarrow> f64"
  rt_tan :: "f64 \<Rightarrow> f64"
  rt_powf :: "f64 \<Rightarrow> f64 \<Rightarrow> f64"
  rt_powi :: "f64 \<Rightarrow> int \<Rightarrow> f64"

definition is_ascii_letter :: "uchar \<Rightarrow> bool" where
  "is_ascii_letter c \<longleftrightarrow> (65 \<le> c \<and> c \<le> 90) \<or> (97 \<le> c \<and> c \<le> 122)"

text \<open>
  The documented behaviour of the Unicode tables on ASCII. Lower-casing is not
  character by character (the final sigma looks at its context), but an ASCII prefix is
  always mapped on its own, a suffix \<open>_n\<close> is neither cased nor looked through, and a
  lower-cased string does not change again.
\<close>

definition lower_ascii_prefix :: "runtime \<Rightarrow> bool" where
  "lower_ascii_prefix R \<longleftrightarrow>
     (\<forall>p r. is_ascii p \<longrightarrow> (\<exists>t. rt_lower R (p @ r) = map to_ascii_lowercase p @ t))"

definition unicode_laws :: "runtime \<Rightarrow> bool" where
  "unicode_laws R \<longleftrightarrow>
     (\<forall>s. is_ascii s \<longrightarrow> rt_lower R s = map to_ascii_lowercase s) \<and>
     (\<forall>s. is_ascii s \<longrightarrow> rt_upper R s = map to_ascii_uppercase s) \<and>
     lower_ascii_prefix R \<and>
     (\<forall>c. is_ascii_char c \<longrightarrow> rt_char_lower R c = [to_ascii_lowercase c]) \<and>
     (\<forall>c. is_ascii_char c \<longrightarrow> rt_alphabetic R c = is_ascii_letter c) \<and>
     (\<forall>c. is_ascii_char c \<longrightarrow> rt_alphanumeric R c = (is_ascii_letter c \<or> is_ascii_digit c)) \<and>
     (\<forall>s. rt_lower R (rt_lower R s) = rt_lower R s) \<and>
     (\<forall>s n. rt_lower R (s @ str ''_'' @ show_nat n) = rt_lower R s @ str ''_'' @ show_nat n)"

lemma unicode_lower_idem: "unicode_laws R \<Longrightarrow> rt_lower R (rt_lower R s) = rt_lower R s"
  by (simp add: unicode_laws_def)

lemma unicode_lower_number:
  "unicode_laws R \<Longrightarrow> rt_lower R (s @ str ''_'' @ show_nat n) = rt_lower R s @ str ''_'' @ show_nat n"
  by (simp add: unicode_laws_def)

lemma unicode_lawsD:
  assumes "unicode_laws R"
  shows "is_ascii s \<Longrightarrow> rt_lower R s = map to_ascii_lowercase s"
    "is_ascii s \<Longrightarrow> rt_upper R s = map to_ascii_uppercase s"
    "is_ascii p \<Longrightarrow> \<exists>t. rt_lower R (p @ r) = map to_ascii_lowercase p @ t"
    "is_ascii_char c \<Longrightarrow> rt_char_lower R c = [to_ascii_lowercase c]"
    "is_ascii_char c \<Longrightarrow> rt_alphabetic R c = is_ascii_letter c"
    "is_ascii_char c \<Longrightarrow> rt_alphanumeric R c = (is_ascii_letter c \<or> is_ascii_digit c)"
  using assms unfolding unicode_laws_def lower_ascii_prefix_def by blast+

text \<open>
  A runtime to evaluate with: the ASCII part of the tables, every other character its own
  lower and upper case and a letter. Dates and the transcendental functions have no
  entries.
\<close>

definition ascii_runtime :: runtime where
  "ascii_runtime =
     \<lparr> rt_lower = map to_ascii_lowercase,
       rt_upper = map to_ascii_uppercase,
       rt_char_lower = (\<lambda>c. [to_ascii_lowercase c]),
       rt_alphabetic = (\<lambda>c. is_ascii_letter c \<or> \<not> is_ascii_char c),
       rt_alphanumeric = (\<lambda>c. is_ascii_letter c \<or> is_ascii_digit c \<or> \<not> is_ascii_char c),
       rt_regex_escape = concat \<circ> map (\<lambda>c. [ch CHR 0x5C, c]),
       rt_regex_is_match = (\<lambda>p s. False),
       rt_parse_date = (\<lambda>s. None),
       rt_from_numeric = (\<lambda>f. None),
       rt_date_string = (\<lambda>d. []),
       rt_exp = id, rt_sin = id, rt_cos = id, rt_tan = id,
       rt_powf = (\<lambda>a b. a),
       rt_powi = (\<lambda>a i. a) \<rparr>"

lemma ascii_runtime_simps [simp]:
  "rt_lower ascii_runtime = map to_ascii_lowercase"
  "rt_upper ascii_runtime = map to_ascii_uppercase"
  "rt_char_lower ascii_runtime c = [to_ascii_lowercase c]"
  "rt_alphabetic ascii_runtime c = (is_ascii_letter c \<or> \<not> is_ascii_char c)"
  "rt_alphanumeric ascii_runtime c = (is_ascii_letter c \<or> is_ascii_digit c \<or> \<not> is_ascii_char c)"
  "rt_parse_date ascii_runtime s = None"
  "rt_from_numeric ascii_runtime d = None"
  by (simp_all add: ascii_runtime_def)

lemma ascii_runtime_laws [simp]: "unicode_laws ascii_runtime"
proof -
  have "map to_ascii_lowercase (show_nat n) = show_nat n" for n
    using show_nat_digits [of n]
    by (intro map_idI) (auto simp: list_all_iff is_ascii_digit_def to_ascii_lowercase_def)
  then show ?thesis
    by (auto simp: unicode_laws_def lower_ascii_prefix_def to_ascii_lowercase_def)
qed

section \<open>Values\<close>

text \<open>
  \<open>CfmlValue\<close>. The variants that only reach the engine as opaque cells (structs, closures,
  components, functions, queries, binaries, native objects) are one constructor that carries
  what the engine reads of them: their text and their truth value.
\<close>

datatype cfml_value =
    VNull
  | VBool bool
  | VInt i64
  | VDouble f64
  | VTimeSpan f64
  | VDateTime cfml_date
  | VString ustr
  | VArray "cfml_value list"
  | VQueryColumn "cfml_value list" nat
  | VOpaque ustr bool

definition is_vnull :: "cfml_value \<Rightarrow> bool" where
  "is_vnull v \<longleftrightarrow> v = VNull"

lemma is_vnull_code [simp]:
  "is_vnull VNull" "\<not> is_vnull (VBool b)" "\<not> is_vnull (VInt i)" "\<not> is_vnull (VDouble d)"
  "\<not> is_vnull (VTimeSpan d)" "\<not> is_vnull (VDateTime e)" "\<not> is_vnull (VString s)"
  "\<not> is_vnull (VArray vs)" "\<not> is_vnull (VQueryColumn vs n)" "\<not> is_vnull (VOpaque s b)"
  by (simp_all add: is_vnull_def)

fun join :: "ustr \<Rightarrow> ustr list \<Rightarrow> ustr" where
  "join sep [] = []"
| "join sep [x] = x"
| "join sep (x # y # xs) = x @ sep @ join sep (y # xs)"

text \<open>\<open>format_double\<close>: how a floating-point number prints.\<close>

definition fmt_int_bound :: f64 where
  "fmt_int_bound = f_of_int (10 ^ 15)"

definition format_double :: "f64 \<Rightarrow> ustr" where
  "format_double d =
     (if is_nan d then str ''NaN''
      else if is_infinite d then (if f_sign d then str ''-Infinity'' else str ''Infinity'')
      else if fract_is_zero d
      then (if f_lt (f_abs d) fmt_int_bound then show_i64 (f_to_i64 d) else show_fixed 0 d)
      else
        let short = show_f64 d;
            fixed = strip_zeros (show_fixed 12 d);
            s = (if fixed \<noteq> [] \<and> last fixed = ch CHR ''.'' then butlast fixed else fixed);
            rounded = (if s = str ''-0'' then str ''0'' else s)
        in if ch CHR ''e'' \<in> set short \<or> ch CHR ''E'' \<in> set short then rounded
           else case position (\<lambda>c. c = ch CHR ''.'') short of
                  Some dot \<Rightarrow> if length short - dot - 1 \<le> 12 then short else rounded
                | None \<Rightarrow> rounded)"

text \<open>\<open>as_string\<close>. A query column stands for its current row, or its first row.\<close>

fun as_string :: "runtime \<Rightarrow> cfml_value \<Rightarrow> ustr" where
  "as_string R VNull = []"
| "as_string R (VBool b) = (if b then str ''true'' else str ''false'')"
| "as_string R (VInt i) = show_i64 i"
| "as_string R (VDouble d) = format_double d"
| "as_string R (VTimeSpan d) = format_double d"
| "as_string R (VDateTime d) = rt_date_string R d"
| "as_string R (VString s) = s"
| "as_string R (VArray vs) = str ''['' @ join (str '', '') (map (as_string R) vs) @ str '']''"
| "as_string R (VQueryColumn vs row) =
     (let ss = map (as_string R) vs
      in case get ss row of Some s \<Rightarrow> s | None \<Rightarrow> (case ss of [] \<Rightarrow> [] | s # _ \<Rightarrow> s))"
| "as_string R (VOpaque s b) = s"

definition numeric_string_value :: "ustr \<Rightarrow> f64 option" where
  "numeric_string_value s =
     (case parse_f64 (trim s) of
        None \<Rightarrow> None
      | Some n \<Rightarrow> if is_finite n then Some n else None)"

definition string_is_true :: "runtime \<Rightarrow> ustr \<Rightarrow> bool" where
  "string_is_true R s =
     (let trimmed = trim s
      in if trimmed = [] then False
         else let l = rt_lower R trimmed
              in if l = str ''false'' \<or> l = str ''no'' \<or> l = str ''0'' then False
                 else case numeric_string_value trimmed of
                        None \<Rightarrow> True
                      | Some n \<Rightarrow> \<not> f_eq n (f_zero False))"

fun is_true :: "runtime \<Rightarrow> cfml_value \<Rightarrow> bool" where
  "is_true R VNull = False"
| "is_true R (VBool b) = b"
| "is_true R (VInt i) = (i \<noteq> 0)"
| "is_true R (VDouble d) = (\<not> f_eq d (f_zero False))"
| "is_true R (VTimeSpan d) = (\<not> f_eq d (f_zero False))"
| "is_true R (VDateTime d) = True"
| "is_true R (VString s) = string_is_true R s"
| "is_true R (VArray vs) = (vs \<noteq> [])"
| "is_true R (VQueryColumn vs row) =
     (let bs = map (is_true R) vs
      in case get bs row of Some b \<Rightarrow> b | None \<Rightarrow> (case bs of [] \<Rightarrow> False | b # _ \<Rightarrow> b))"
| "is_true R (VOpaque s b) = b"

section \<open>Case-insensitive order\<close>

text \<open>\<open>cmp_ignore_case\<close> of \<open>text.rs\<close>: on ASCII byte by byte, then by length.\<close>

fun cmp_ascii_bytes :: "nat list \<Rightarrow> nat list \<Rightarrow> ordering" where
  "cmp_ascii_bytes (p # x) (q # y) =
     (case cmp (to_ascii_lowercase p) (to_ascii_lowercase q) of
        Equal \<Rightarrow> cmp_ascii_bytes x y
      | other \<Rightarrow> other)"
| "cmp_ascii_bytes x y = cmp (length x) (length y)"

definition cmp_ignore_case :: "runtime \<Rightarrow> ustr \<Rightarrow> ustr \<Rightarrow> ordering" where
  "cmp_ignore_case R a b =
     (if is_ascii a \<and> is_ascii b then cmp_ascii_bytes (as_bytes a) (as_bytes b)
      else string_cmp (rt_lower R a) (rt_lower R b))"

lemma cmp_ascii_bytes_lex:
  "cmp_ascii_bytes x y = lex_cmp (map to_ascii_lowercase x) (map to_ascii_lowercase y)"
  by (induction x y rule: cmp_ascii_bytes.induct)
     (auto simp: cmp_def neq_Nil_conv split: ordering.split list.split)

lemma f_abs_of_int: "f_abs (f_of_int i) = f_of_int \<bar>i\<bar>"
  by (simp add: f_abs_def f_of_int_def of_units_def)

text \<open>Below \<open>10^15\<close> an integral double prints as that integer.\<close>

lemma integral_display:
  assumes "\<bar>i\<bar> < 10 ^ 15"
  shows "fract_is_zero (f_of_int i)" "f_lt (f_abs (f_of_int i)) fmt_int_bound"
    "show_i64 (f_to_i64 (f_of_int i)) = show_int i"
    "\<not> is_nan (f_of_int i)" "\<not> is_infinite (f_of_int i)"
proof -
  have i: "\<bar>i\<bar> \<le> 2 ^ 53"
    using assms by simp
  show "fract_is_zero (f_of_int i)"
    using i by (rule fract_of_int)
  show "f_lt (f_abs (f_of_int i)) fmt_int_bound"
    unfolding fmt_int_bound_def f_abs_of_int using i assms by (subst f_lt_of_int) auto
  have "sint (word_of_int i :: i64) = i"
    using assms by (simp add: int_word_sint mod_pos_pos_trivial)
  then show "show_i64 (f_to_i64 (f_of_int i)) = show_int i"
    by (simp add: f_to_i64_of_int [OF i] show_i64_def)
qed (use f_of_int_fields [of i] assms in auto)

lemma format_double_of_int: "\<bar>i\<bar> < 10 ^ 15 \<Longrightarrow> format_double (f_of_int i) = show_int i"
  by (simp only: format_double_def integral_display if_True if_False)

lemma trim_no_whitespace: "\<forall>c \<in> set s. \<not> is_whitespace c \<Longrightarrow> trim s = s"
proof -
  assume *: "\<forall>c \<in> set s. \<not> is_whitespace c"
  have "dropWhile is_whitespace t = t" if "\<forall>c \<in> set t. \<not> is_whitespace c" for t
    using that by (cases t) auto
  from this [of s] this [of "rev s"] * show ?thesis
    by (simp add: trim_def trim_start_def trim_end_def)
qed

lemma show_int_chars: "c \<in> set (show_int i) \<Longrightarrow> c = 45 \<or> is_ascii_digit c"
  using show_nat_digits by (auto simp: show_int_def list_all_iff split: if_splits)

lemma trim_show_int [simp]: "trim (show_int i) = show_int i"
  by (rule trim_no_whitespace) (auto dest!: show_int_chars simp: is_whitespace_def is_ascii_digit_def)

text \<open>Reading back a printed integer.\<close>

lemma parse_unsigned_show_nat:
  "parse_unsigned_f64 s (show_nat n) = Some (of_units s (n * unit_one) 1)"
proof -
  have d: "list_all is_ascii_digit (show_nat n)" "show_nat n \<noteq> []"
    using show_nat_digits by blast+
  have "map to_ascii_lowercase (show_nat n) = show_nat n"
    using d(1) by (intro map_idI) (auto simp: list_all_iff to_ascii_lowercase_def is_ascii_digit_def)
  moreover have "show_nat n \<noteq> str ''inf''" "show_nat n \<noteq> str ''infinity''" "show_nat n \<noteq> str ''nan''"
    using d(1) by (auto simp: is_ascii_digit_def)
  moreover have "span_digits (show_nat n) = (show_nat n, [])"
    using d(1) by (simp add: span_digits_def takeWhile_eq_all_conv list_all_iff)
  ultimately show ?thesis
    using d(2) by (simp add: parse_unsigned_f64_def Let_def parse_exponent_def
        decimal_f64_def digits_value_show_nat del: str_Cons)
qed

lemma parse_f64_show_int [simp]: "parse_f64 (show_int i) = Some (f_of_int i)"
proof (cases "i < 0")
  case True
  then show ?thesis
    by (simp add: parse_f64_def show_int_def parse_unsigned_show_nat f_of_int_def)
next
  case False
  obtain d r where d: "show_nat (nat i) = d # r" "is_ascii_digit d"
    using show_nat_hd_digit by blast
  then have "parse_f64 (show_nat (nat i)) = parse_unsigned_f64 False (show_nat (nat i))"
    by (auto simp: parse_f64_def is_ascii_digit_def)
  then show ?thesis
    using False by (simp add: show_int_def parse_unsigned_show_nat f_of_int_def)
qed

end
