(* ===== verification/Compare.thy ===== *)
theory Compare
  imports Values
begin

text \<open>
  The comparison of cells (\<open>cfml-qoq/src/compare.rs\<close>): the three-valued SQL comparison, the
  order of ORDER BY, MIN and MAX, and the type-tagged key by which DISTINCT, GROUP BY and the
  hash join identify rows.
\<close>

section \<open>Definitions\<close>

datatype cls = Num f64 | Str ustr

definition bool_f64 :: "bool \<Rightarrow> f64" where
  "bool_f64 b = (if b then f_of_int 1 else f_of_int 0)"

fun classify :: "runtime \<Rightarrow> cfml_value \<Rightarrow> cls option" where
  "classify R VNull = None"
| "classify R (VInt i) = Some (Num (f_of_int (sint i)))"
| "classify R (VDouble d) = Some (Num d)"
| "classify R (VBool b) = Some (Num (bool_f64 b))"
| "classify R (VString s) = Some (Str s)"
| "classify R v = Some (Str (as_string R v))"

definition parse_num :: "ustr \<Rightarrow> f64 option" where
  "parse_num s = (let t = trim s in if t = [] then None else parse_f64 t)"

text \<open>\<open>str_cmp\<close>: walks the bytes of both strings while they are ASCII and equal up to case;
  any byte of a longer character sends it to the Unicode comparison.\<close>

fun str_cmp_loop :: "ordering \<Rightarrow> ordering \<Rightarrow> nat list \<Rightarrow> nat list \<Rightarrow> ordering" where
  "str_cmp_loop unicode lens (ba # ab) (bbi # bb) =
     (if 128 \<le> ba \<or> 128 \<le> bbi then unicode
      else if to_ascii_lowercase ba \<noteq> to_ascii_lowercase bbi
      then cmp (to_ascii_lowercase ba) (to_ascii_lowercase bbi)
      else str_cmp_loop unicode lens ab bb)"
| "str_cmp_loop unicode lens ab bb =
     (let tail = (if ab \<noteq> [] then ab else bb)
      in if list_ex (\<lambda>t. 128 \<le> t) tail then unicode else lens)"

definition str_cmp :: "runtime \<Rightarrow> ustr \<Rightarrow> ustr \<Rightarrow> ordering" where
  "str_cmp R a b =
     str_cmp_loop (string_cmp (rt_lower R a) (rt_lower R b))
       (cmp (length (as_bytes a)) (length (as_bytes b))) (as_bytes a) (as_bytes b)"

definition num_cmp :: "f64 \<Rightarrow> f64 \<Rightarrow> ordering" where
  "num_cmp a b = total_cmp a b"

definition fmt_num :: "f64 \<Rightarrow> ustr" where
  "fmt_num n =
     (if fract_is_zero n \<and> f_lt (f_abs n) fmt_int_bound then show_i64 (f_to_i64 n) else show_f64 n)"

definition date_vs :: "runtime \<Rightarrow> cfml_date \<Rightarrow> cfml_value \<Rightarrow> ordering" where
  "date_vs R d v =
     (let as_date = (case v of
                       VInt i \<Rightarrow> rt_from_numeric R (f_of_int (sint i))
                     | VDouble f \<Rightarrow> rt_from_numeric R f
                     | VString s \<Rightarrow> rt_parse_date R (trim s)
                     | _ \<Rightarrow> None)
      in case as_date of
           Some d' \<Rightarrow> cmp (epoch_nanos d) (epoch_nanos d')
         | None \<Rightarrow> str_cmp R (rt_date_string R d) (as_string R v))"

definition compare_classes :: "runtime \<Rightarrow> cls \<Rightarrow> cls \<Rightarrow> ordering" where
  "compare_classes R ca cb =
     (case (ca, cb) of
        (Num x, Num y) \<Rightarrow> num_cmp x y
      | (Str x, Str y) \<Rightarrow> str_cmp R x y
      | (Num x, Str y) \<Rightarrow>
          (case parse_num y of Some yn \<Rightarrow> num_cmp x yn | None \<Rightarrow> str_cmp R (fmt_num x) y)
      | (Str x, Num y) \<Rightarrow>
          (case parse_num x of Some xn \<Rightarrow> num_cmp xn y | None \<Rightarrow> str_cmp R x (fmt_num y)))"

definition bool_i64 :: "bool \<Rightarrow> int" where
  "bool_i64 b = (if b then 1 else 0)"

definition compare_sql :: "runtime \<Rightarrow> cfml_value \<Rightarrow> cfml_value \<Rightarrow> ordering option" where
  "compare_sql R a b =
     (if is_vnull a \<or> is_vnull b then None
      else case (a, b) of
        (VString sa, VString sb) \<Rightarrow> Some (str_cmp R sa sb)
      | (VInt ia, VInt ib) \<Rightarrow> Some (cmp (sint ia) (sint ib))
      | (VDouble da, VDouble db) \<Rightarrow> Some (total_cmp da db)
      | (VBool ba, VBool bb) \<Rightarrow> Some (cmp (bool_i64 ba) (bool_i64 bb))
      | (VBool ba, VInt ib) \<Rightarrow> Some (cmp (bool_i64 ba) (sint ib))
      | (VInt ia, VBool bb) \<Rightarrow> Some (cmp (sint ia) (bool_i64 bb))
      | (VDateTime da, VDateTime db) \<Rightarrow> Some (cmp (epoch_nanos da) (epoch_nanos db))
      | (VDateTime d, v) \<Rightarrow> Some (date_vs R d v)
      | (v, VDateTime d) \<Rightarrow> Some (reverse (date_vs R d v))
      | _ \<Rightarrow>
          (case (classify R a, classify R b) of
             (Some ca, Some cb) \<Rightarrow> Some (compare_classes R ca cb)
           | _ \<Rightarrow> None))"

definition compare_total :: "runtime \<Rightarrow> cfml_value \<Rightarrow> cfml_value \<Rightarrow> ordering" where
  "compare_total R a b =
     (case (is_vnull a, is_vnull b) of
        (True, True) \<Rightarrow> Equal
      | (True, False) \<Rightarrow> Less
      | (False, True) \<Rightarrow> Greater
      | (False, False) \<Rightarrow> (case compare_sql R a b of Some x \<Rightarrow> x | None \<Rightarrow> Equal))"

definition sql_equal :: "runtime \<Rightarrow> cfml_value \<Rightarrow> cfml_value \<Rightarrow> bool option" where
  "sql_equal R a b = map_option (\<lambda>x. x = Equal) (compare_sql R a b)"

text \<open>The key of one cell: a type tag, its text, and the terminator U+0001.\<close>

definition append_group_key :: "runtime \<Rightarrow> ustr \<Rightarrow> cfml_value \<Rightarrow> ustr" where
  "append_group_key R key v =
     (case v of
        VNull \<Rightarrow> key @ str ''N'' @ [1]
      | VBool b \<Rightarrow> key @ str ''B'' @ (if b then str ''T'' else str ''F'') @ [1]
      | VInt i \<Rightarrow> key @ str ''#'' @ show_i64 i @ [1]
      | VDouble d \<Rightarrow> key @ str ''#'' @ fmt_num d @ [1]
      | VString s \<Rightarrow> key @ str ''S'' @ rt_lower R s @ [1]
      | VDateTime d \<Rightarrow> key @ str ''D'' @ show_int (epoch_nanos d) @ [1]
      | _ \<Rightarrow> key @ str ''S'' @ rt_lower R (as_string R v) @ [1])"

definition group_key :: "runtime \<Rightarrow> cfml_value list \<Rightarrow> ustr" where
  "group_key R vs = foldl (append_group_key R) [] vs"

section \<open>The string order\<close>

lemma str_cmp_loop_end [simp]:
  "str_cmp_loop u l [] y = (if list_ex (\<lambda>t. 128 \<le> t) y then u else l)"
  "str_cmp_loop u l x [] = (if list_ex (\<lambda>t. 128 \<le> t) x then u else l)"
  by (cases y; simp) (cases x; simp)

lemma str_cmp_loop_reverse:
  "str_cmp_loop (reverse u) (reverse l) y x = reverse (str_cmp_loop u l x y)"
proof (induction x arbitrary: y)
  case (Cons p x)
  then show ?case
    using cmp_reverse [of "to_ascii_lowercase p"] by (cases y) auto
qed simp

lemma str_cmp_reverse: "str_cmp R b a = reverse (str_cmp R a b)"
  unfolding str_cmp_def string_cmp_def
  using str_cmp_loop_reverse cmp_reverse lex_cmp_reverse by metis

lemma utf8_high: "128 \<le> c \<Longrightarrow> \<exists>x r. utf8_encode c = x # r \<and> 128 \<le> x"
  by (auto simp: utf8_encode_def)

lemma utf8_low: "c < 128 \<Longrightarrow> utf8_encode c = [c]"
  by (simp add: utf8_encode_def)

lemma lex_cmp_append_same [simp]: "lex_cmp (p @ x) (p @ y) = lex_cmp x y"
  by (induction p) (auto simp: cmp_def)

lemma as_bytes_append [simp]: "as_bytes (s @ t) = as_bytes s @ as_bytes t"
  by (simp add: as_bytes_def)

lemma list_ex_high_bytes: "list_ex (\<lambda>t. 128 \<le> t) (as_bytes s) \<longleftrightarrow> \<not> is_ascii s"
proof (induction s)
  case (Cons c s)
  then show ?case
    using utf8_high [of c] by (cases "c < 128") (auto simp: utf8_low is_ascii_char_def)
qed simp

lemma lex_cmp_prefix [simp]:
  "lex_cmp p p = Equal"
  "lex_cmp p (p @ d # y) = Less"
  "lex_cmp (p @ c # x) p = Greater"
  by (induction p) (auto simp: cmp_def)

lemma utf8_first: "\<exists>e es. utf8_encode k = e # es \<and> (128 \<le> e \<longleftrightarrow> 128 \<le> k)"
  using utf8_high [of k] utf8_low [of k] by (cases "k < 128") auto

lemma as_bytes_Nil_iff [simp]: "as_bytes s = [] \<longleftrightarrow> s = []"
  using utf8_first [of "hd s"] by (cases s) auto

text \<open>The loop, seen on characters: two strings that agree up to case on an ASCII prefix.\<close>

lemma str_cmp_loop_lower:
  assumes low: "\<And>p r. is_ascii p \<Longrightarrow> \<exists>t. rt_lower R (p @ r) = map to_ascii_lowercase p @ t"
    and whole: "\<And>s. is_ascii s \<Longrightarrow> rt_lower R s = map to_ascii_lowercase s"
    and p: "is_ascii p" "is_ascii q" "map to_ascii_lowercase p = map to_ascii_lowercase q"
    and ab: "a = p @ x" "b = q @ y"
  shows "str_cmp_loop (string_cmp (rt_lower R a) (rt_lower R b))
      (cmp (length (as_bytes a)) (length (as_bytes b))) (as_bytes x) (as_bytes y)
    = string_cmp (rt_lower R a) (rt_lower R b)"
  using p ab
proof (induction x y arbitrary: p q rule: list_induct2')
  case (4 c x d y)
  consider "128 \<le> c \<or> 128 \<le> d" | "c < 128" "d < 128" "to_ascii_lowercase c \<noteq> to_ascii_lowercase d"
    | "c < 128" "d < 128" "to_ascii_lowercase c = to_ascii_lowercase d"
    by linarith
  then show ?case
  proof cases
    case 1
    then show ?thesis
      using utf8_first [of c] utf8_first [of d] by auto
  next
    case 2
    from low [of "p @ [c]" x] low [of "q @ [d]" y] obtain t u where
      "rt_lower R a = map to_ascii_lowercase p @ to_ascii_lowercase c # t"
      "rt_lower R b = map to_ascii_lowercase p @ to_ascii_lowercase d # u"
      using 2 "4.prems" by (auto simp: is_ascii_char_def)
    moreover have "to_ascii_lowercase c < 128" "to_ascii_lowercase d < 128"
      using 2 by (auto simp: to_ascii_lowercase_def)
    ultimately show ?thesis
      using 2 by (simp add: utf8_low string_cmp_def cmp_def)
  next
    case 3
    then show ?thesis
      using "4.IH" [of "p @ [c]" "q @ [d]"] "4.prems" by (simp add: utf8_low is_ascii_char_def)
  qed
qed (use whole [of a] whole [of b] map_eq_imp_length_eq [OF p(3)] in
  \<open>auto simp del: as_bytes_simps(2) simp: list_ex_high_bytes string_cmp_def cmp_def
     dest: map_eq_imp_length_eq\<close>)

lemma str_cmp_unicode:
  "unicode_laws R \<Longrightarrow> str_cmp R a b = string_cmp (rt_lower R a) (rt_lower R b)"
  unfolding str_cmp_def
  by (rule str_cmp_loop_lower [where p = "[]" and q = "[]"]) (simp_all add: unicode_lawsD)

lemma utf8_lead:
  "hd (utf8_encode c) < 128 \<longleftrightarrow> c < 128"
  "hd (utf8_encode c) < 224 \<longleftrightarrow> c < 2048"
  "hd (utf8_encode c) < 240 \<longleftrightarrow> c < 65536"
  by (auto simp: utf8_encode_def div_less_iff_less_mult)

lemma div_64_inj: "c div 64 = d div 64 \<Longrightarrow> c mod 64 = d mod 64 \<Longrightarrow> c = d" for c d :: nat
  by (metis div_mult_mod_eq)

lemma utf8_encode_inj:
  assumes eq: "utf8_encode c @ x = utf8_encode d @ y"
  shows "c = d \<and> x = y"
proof -
  have hd: "hd (utf8_encode c) = hd (utf8_encode d)"
    using eq utf8_first [of c] utf8_first [of d] by auto
  have div: "e div 4096 = e div 64 div 64" "e div 262144 = e div 64 div 64 div 64" for e :: nat
    by (simp_all add: div_mult2_eq [symmetric])
  have "c < 128 \<longleftrightarrow> d < 128" "c < 2048 \<longleftrightarrow> d < 2048" "c < 65536 \<longleftrightarrow> d < 65536"
    using utf8_lead [of c] utf8_lead [of d] unfolding hd by simp_all
  then consider "c < 128" "d < 128" | "\<not> c < 128" "c < 2048" "\<not> d < 128" "d < 2048"
    | "\<not> c < 128" "\<not> d < 128" "\<not> c < 2048" "c < 65536" "\<not> d < 2048" "d < 65536"
    | "\<not> c < 128" "\<not> d < 128" "\<not> c < 2048" "\<not> d < 2048" "\<not> c < 65536" "\<not> d < 65536"
    by linarith
  then show ?thesis
  proof cases
    case 1
    then show ?thesis
      using eq by (simp add: utf8_encode_def)
  next
    case 2
    then have "c div 64 = d div 64" "c mod 64 = d mod 64" "x = y"
      using eq by (simp_all add: utf8_encode_def)
    then show ?thesis
      using div_64_inj by blast
  next
    case 3
    then have "c div 64 div 64 = d div 64 div 64" "c div 64 mod 64 = d div 64 mod 64"
      "c mod 64 = d mod 64" "x = y"
      using eq by (simp_all only: utf8_encode_def if_False if_True div append.simps list.inject
          add_left_cancel)
    then show ?thesis
      using div_64_inj by blast
  next
    case 4
    then have "c div 64 div 64 div 64 = d div 64 div 64 div 64"
      "c div 64 div 64 mod 64 = d div 64 div 64 mod 64" "c div 64 mod 64 = d div 64 mod 64"
      "c mod 64 = d mod 64" "x = y"
      using eq by (simp_all only: utf8_encode_def if_False if_True div append.simps list.inject
          add_left_cancel)
    then show ?thesis
      using div_64_inj by blast
  qed
qed

lemma as_bytes_inj [simp]: "as_bytes a = as_bytes b \<longleftrightarrow> a = b"
proof (induction a arbitrary: b)
  case Nil
  show ?case
    by (metis as_bytes_Nil_iff)
next
  case (Cons c a)
  show ?case
  proof (cases b)
    case Nil
    then show ?thesis
      by (metis as_bytes_Nil_iff)
  next
    case (Cons d b')
    then show ?thesis
      using utf8_encode_inj [of c "as_bytes a" d "as_bytes b'"] Cons.IH by auto
  qed
qed

lemma str_cmp_Equal: "unicode_laws R \<Longrightarrow> str_cmp R a b = Equal \<longleftrightarrow> rt_lower R a = rt_lower R b"
  by (simp add: str_cmp_unicode string_cmp_def)

lemma str_cmp_le_trans:
  assumes "unicode_laws R"
  shows "str_cmp R a b \<noteq> Greater \<Longrightarrow> str_cmp R b c \<noteq> Greater \<Longrightarrow> str_cmp R a c \<noteq> Greater"
  unfolding str_cmp_unicode [OF assms] string_cmp_def by (rule lex_cmp_le_trans)

section \<open>Antisymmetry\<close>

lemma compare_classes_reverse: "compare_classes R b a = reverse (compare_classes R a b)"
proof (cases a; cases b)
  fix x y assume "a = Num x" "b = Num y"
  then show ?thesis
    by (simp add: compare_classes_def num_cmp_def total_cmp_reverse [of y x])
next
  fix x y assume "a = Str x" "b = Str y"
  then show ?thesis
    by (simp add: compare_classes_def str_cmp_reverse [of R y x])
next
  fix x y assume "a = Num x" "b = Str y"
  then show ?thesis
    using total_cmp_reverse [of _ x] str_cmp_reverse [of R y "fmt_num x"]
    by (simp add: compare_classes_def num_cmp_def split: option.split)
next
  fix x y assume "a = Str x" "b = Num y"
  then show ?thesis
    using total_cmp_reverse [of y] str_cmp_reverse [of R "fmt_num y" x]
    by (simp add: compare_classes_def num_cmp_def split: option.split)
qed

text \<open>The pairs of variants that are compared through their classes.\<close>

definition by_class :: "cfml_value \<Rightarrow> cfml_value \<Rightarrow> bool" where
  "by_class a b \<longleftrightarrow>
     (case (a, b) of
        (VNull, _) \<Rightarrow> False | (_, VNull) \<Rightarrow> False
      | (VDateTime _, _) \<Rightarrow> False | (_, VDateTime _) \<Rightarrow> False
      | (VString _, VString _) \<Rightarrow> False | (VInt _, VInt _) \<Rightarrow> False
      | (VDouble _, VDouble _) \<Rightarrow> False | (VBool _, VBool _) \<Rightarrow> False
      | (VBool _, VInt _) \<Rightarrow> False | (VInt _, VBool _) \<Rightarrow> False
      | _ \<Rightarrow> True)"

lemma classify_Some: "\<not> is_vnull v \<Longrightarrow> \<exists>c. classify R v = Some c"
  by (cases v) simp_all

lemma compare_sql_by_class:
  "by_class a b \<Longrightarrow> compare_sql R a b = Some (compare_classes R (the (classify R a)) (the (classify R b)))"
  by (cases a; cases b) (simp_all add: by_class_def compare_sql_def)

lemma by_class_sym: "by_class b a = by_class a b"
  by (cases a; cases b) (simp_all add: by_class_def)

lemma compare_sql_reverse: "compare_sql R b a = map_option reverse (compare_sql R a b)"
proof (cases "by_class a b")
  case True
  then show ?thesis
    using compare_sql_by_class [of a b R] compare_sql_by_class [of b a R] by_class_sym [of a b]
      compare_classes_reverse [of R "the (classify R b)" "the (classify R a)"] by simp
next
  case False
  then show ?thesis
    by (cases a; cases b)
       (simp_all add: by_class_def compare_sql_def,
        (rule str_cmp_reverse cmp_reverse total_cmp_reverse)+)
qed

lemma compare_total_reverse: "compare_total R b a = reverse (compare_total R a b)"
  using compare_sql_reverse [of R b a]
  by (auto simp: compare_total_def split: bool.split option.split)

section \<open>Columns of one kind are totally ordered\<close>

definition opt_cmp :: "('k \<Rightarrow> 'k \<Rightarrow> ordering) \<Rightarrow> 'k option \<Rightarrow> 'k option \<Rightarrow> ordering" where
  "opt_cmp g a b =
     (case (a, b) of
        (None, None) \<Rightarrow> Equal
      | (None, Some _) \<Rightarrow> Less
      | (Some _, None) \<Rightarrow> Greater
      | (Some x, Some y) \<Rightarrow> g x y)"

lemma opt_cmp_simps [simp]:
  "opt_cmp g None None = Equal" "opt_cmp g None (Some y) = Less"
  "opt_cmp g (Some x) None = Greater" "opt_cmp g (Some x) (Some y) = g x y"
  by (simp_all add: opt_cmp_def)

lemma comparator_on_opt:
  assumes "comparator_on UNIV g"
  shows "comparator_on UNIV (opt_cmp g)"
proof
  fix x y z
  show "opt_cmp g x x = Equal"
    using comparator_on.refl [OF assms] by (cases x) simp_all
  show "opt_cmp g y x = reverse (opt_cmp g x y)"
    by (cases x; cases y) (simp_all, rule comparator_on.swap [OF assms UNIV_I UNIV_I])
  assume "opt_cmp g x y \<noteq> Greater" "opt_cmp g y z \<noteq> Greater"
  then show "opt_cmp g x z \<noteq> Greater"
    by (cases x; cases y; cases z)
       (simp_all, erule (1) comparator_on.le_trans [OF assms UNIV_I UNIV_I UNIV_I])
qed

lemma comparator_on_key:
  assumes g: "comparator_on UNIV g"
    and f: "\<And>x y. x \<in> C \<Longrightarrow> y \<in> C \<Longrightarrow> f x y = opt_cmp g (k x) (k y)"
  shows "comparator_on C f"
proof -
  note o = comparator_on_opt [OF g]
  show ?thesis
  proof
    fix x y z
    assume x: "x \<in> C"
    show "f x x = Equal"
      using comparator_on.refl [OF o UNIV_I] f x by simp
    assume y: "y \<in> C"
    show "f y x = reverse (f x y)"
      unfolding f [OF x y] f [OF y x] by (rule comparator_on.swap [OF o UNIV_I UNIV_I])
    assume z: "z \<in> C"
    assume "f x y \<noteq> Greater" "f y z \<noteq> Greater"
    then show "f x z \<noteq> Greater"
      unfolding f [OF x y] f [OF y z] f [OF x z] by (rule comparator_on.le_trans [OF o UNIV_I UNIV_I UNIV_I])
  qed
qed

definition int_cells :: "cfml_value set" where
  "int_cells = {VNull} \<union> range VInt \<union> range VBool"

definition number_cells :: "cfml_value set" where
  "number_cells = {VNull} \<union> range VDouble \<union> range VBool \<union> {VInt i |i. \<bar>sint i\<bar> \<le> 2 ^ 53}"

definition string_cells :: "cfml_value set" where
  "string_cells = {VNull} \<union> range VString"

definition date_cells :: "cfml_value set" where
  "date_cells = {VNull} \<union> range VDateTime"

fun int_key :: "cfml_value \<Rightarrow> int option" where
  "int_key (VInt i) = Some (sint i)"
| "int_key (VBool b) = Some (bool_i64 b)"
| "int_key (VDateTime d) = Some (epoch_nanos d)"
| "int_key v = None"

fun number_key :: "cfml_value \<Rightarrow> f64 option" where
  "number_key (VInt i) = Some (f_of_int (sint i))"
| "number_key (VBool b) = Some (bool_f64 b)"
| "number_key (VDouble d) = Some d"
| "number_key v = None"

fun string_key :: "runtime \<Rightarrow> cfml_value \<Rightarrow> nat list option" where
  "string_key R (VString s) = Some (as_bytes (rt_lower R s))"
| "string_key R v = None"

lemma bool_f64_of_int: "bool_f64 b = f_of_int (bool_i64 b)"
  by (simp add: bool_f64_def bool_i64_def)

lemma bool_i64_small: "\<bar>bool_i64 b\<bar> \<le> 2 ^ 53"
  by (simp add: bool_i64_def)

interpretation int_column: comparator_on int_cells "compare_total R" for R
proof (rule comparator_on_key [where g = cmp and k = int_key])
  show "comparator_on UNIV (cmp :: int \<Rightarrow> int \<Rightarrow> ordering)"
    by (rule linorder_cmp.comparator_on_axioms)
  show "x \<in> int_cells \<Longrightarrow> y \<in> int_cells \<Longrightarrow> compare_total R x y = opt_cmp cmp (int_key x) (int_key y)" for x y
    by (auto simp: int_cells_def compare_total_def compare_sql_def)
qed

interpretation date_column: comparator_on date_cells "compare_total R" for R
proof (rule comparator_on_key [where g = cmp and k = int_key])
  show "comparator_on UNIV (cmp :: int \<Rightarrow> int \<Rightarrow> ordering)"
    by (rule linorder_cmp.comparator_on_axioms)
  show "x \<in> date_cells \<Longrightarrow> y \<in> date_cells \<Longrightarrow> compare_total R x y = opt_cmp cmp (int_key x) (int_key y)" for x y
    by (auto simp: date_cells_def compare_total_def compare_sql_def)
qed

lemma compare_total_number_cells:
  assumes "x \<in> number_cells" "y \<in> number_cells"
  shows "compare_total R x y = opt_cmp total_cmp (number_key x) (number_key y)"
proof (cases x; cases y)
qed (use assms in \<open>auto simp: number_cells_def compare_total_def compare_sql_def bool_f64_of_int
    total_cmp_of_int bool_i64_small [simplified] compare_classes_def num_cmp_def simp del: abs_le_iff\<close>)

interpretation number_column: comparator_on number_cells "compare_total R" for R
  by (rule comparator_on_key [OF f64_cmp.comparator_on_axioms compare_total_number_cells])

lemma string_column:
  assumes "unicode_laws R"
  shows "comparator_on string_cells (compare_total R)"
proof (rule comparator_on_key [where g = lex_cmp and k = "string_key R"])
  show "comparator_on UNIV (lex_cmp :: nat list \<Rightarrow> nat list \<Rightarrow> ordering)"
    by (rule bytes_cmp.comparator_on_axioms)
  show "x \<in> string_cells \<Longrightarrow> y \<in> string_cells \<Longrightarrow>
      compare_total R x y = opt_cmp lex_cmp (string_key R x) (string_key R y)" for x y
    using assms
    by (auto simp: string_cells_def compare_total_def compare_sql_def str_cmp_unicode string_cmp_def)
qed

section \<open>Row keys\<close>

text \<open>A column of cells of one kind, with any number of NULLs.\<close>

definition one_kind :: "cfml_value set \<Rightarrow> bool" where
  "one_kind V \<longleftrightarrow> V \<subseteq> string_cells \<or> V \<subseteq> int_cells \<or> V \<subseteq> number_cells \<or> V \<subseteq> date_cells"

lemma one_kind_comparator:
  assumes "unicode_laws R" "one_kind V"
  shows "\<exists>C. V \<subseteq> C \<and> comparator_on C (compare_total R)"
  using assms string_column int_column.comparator_on_axioms number_column.comparator_on_axioms
    date_column.comparator_on_axioms
  unfolding one_kind_def by blast

lemma comparator_on_subset:
  assumes "comparator_on C f" "V \<subseteq> C"
  shows "comparator_on V f"
proof
  fix x y z
  assume x: "x \<in> V"
  then have x': "x \<in> C" using assms(2) by blast
  show "f x x = Equal"
    by (rule comparator_on.refl [OF assms(1) x'])
  assume "y \<in> V"
  then have y': "y \<in> C" using assms(2) by blast
  show "f y x = reverse (f x y)"
    by (rule comparator_on.swap [OF assms(1) x' y'])
  assume "z \<in> V"
  then have z': "z \<in> C" using assms(2) by blast
  assume "f x y \<noteq> Greater" "f y z \<noteq> Greater"
  then show "f x z \<noteq> Greater"
    by (rule comparator_on.le_trans [OF assms(1) x' y' z'])
qed

text \<open>Ascending or descending.\<close>

definition directed :: "bool \<Rightarrow> ('a \<Rightarrow> 'a \<Rightarrow> ordering) \<Rightarrow> 'a \<Rightarrow> 'a \<Rightarrow> ordering" where
  "directed asc f x y = (if asc then f x y else reverse (f x y))"

lemma comparator_on_directed:
  assumes "comparator_on C f"
  shows "comparator_on C (directed asc f)"
proof
  fix x y z
  assume x: "x \<in> C"
  show "directed asc f x x = Equal"
    using comparator_on.refl [OF assms x] by (simp add: directed_def)
  assume y: "y \<in> C"
  show "directed asc f y x = reverse (directed asc f x y)"
    using comparator_on.swap [OF assms x y] by (simp add: directed_def)
  assume z: "z \<in> C"
  assume "directed asc f x y \<noteq> Greater" "directed asc f y z \<noteq> Greater"
  then show "directed asc f x z \<noteq> Greater"
    using comparator_on.le_trans [OF assms x y z] comparator_on.le_trans [OF assms z y x]
      comparator_on.swap [OF assms x y] comparator_on.swap [OF assms y z] comparator_on.swap [OF assms x z]
    by (auto simp: directed_def split: if_splits)
qed

lemma one_kind_column: "unicode_laws R \<Longrightarrow> one_kind V \<Longrightarrow> comparator_on V (compare_total R)"
  using one_kind_comparator comparator_on_subset by blast

lemma sint_inject: "sint i = sint j \<longleftrightarrow> i = j" for i j :: i64
  using show_i64_inj [of i j] by (simp add: show_i64_def show_int_inj)

definition cell_text :: "runtime \<Rightarrow> cfml_value \<Rightarrow> ustr" where
  "cell_text R v = butlast (append_group_key R [] v)"

lemma append_group_key_text: "append_group_key R key v = key @ cell_text R v @ [1]"
  by (cases v) (simp_all add: append_group_key_def cell_text_def butlast_append)

lemma group_key_concat: "group_key R vs = concat (map (\<lambda>v. cell_text R v @ [1]) vs)"
proof -
  have "foldl (append_group_key R) k vs = k @ concat (map (\<lambda>v. cell_text R v @ [1]) vs)" for k
    by (induction vs arbitrary: k) (simp_all add: append_group_key_text)
  then show ?thesis
    by (simp add: group_key_def)
qed

lemma split_at_marker:
  "a @ m # x = b @ m # y \<Longrightarrow> m \<notin> set a \<Longrightarrow> m \<notin> set b \<Longrightarrow> a = b \<and> x = y"
  by (auto simp: append_eq_append_conv2 append_eq_Cons_conv Cons_eq_append_conv)

lemma group_key_eq_iff:
  assumes "length xs = length ys"
    and "\<forall>v \<in> set xs \<union> set ys. 1 \<notin> set (cell_text R v)"
  shows "group_key R xs = group_key R ys \<longleftrightarrow> list_all2 (\<lambda>x y. cell_text R x = cell_text R y) xs ys"
  unfolding group_key_concat using assms
proof (induction xs ys rule: list_induct2)
  case (Cons x xs y ys)
  then have "1 \<notin> set (cell_text R x)" "1 \<notin> set (cell_text R y)"
    by simp_all
  then have "cell_text R x @ 1 # a = cell_text R y @ 1 # b \<longleftrightarrow> cell_text R x = cell_text R y \<and> a = b"
    for a b
    using split_at_marker [of "cell_text R x" 1 a "cell_text R y" b] by blast
  with Cons show ?case
    by simp
qed simp

lemma show_int_no_marker: "1 \<notin> set (show_int i)"
proof -
  have "1 \<notin> set (show_nat n)" for n
    using show_nat_digits [of n] by (auto simp: list_all_iff is_ascii_digit_def)
  then show ?thesis
    by (simp add: show_int_def)
qed

text \<open>
  Two cells of one kind for the row keys: both strings, both booleans, both dates, both integers,
  or numbers that are whole and below \<open>10^15\<close>, integers and doubles in any mixture; or a NULL with
  one of these. Other doubles are left out, the negative zero among them, and so are time spans
  and all other values.
\<close>

definition small_int :: "i64 \<Rightarrow> bool" where
  "small_int i \<longleftrightarrow> \<bar>sint i\<bar> < 10 ^ 15"

definition whole :: "f64 \<Rightarrow> bool" where
  "whole d \<longleftrightarrow> small_int (f_to_i64 d) \<and> d = f_of_int (sint (f_to_i64 d))"

fun same_kind :: "cfml_value \<Rightarrow> cfml_value \<Rightarrow> bool" where
  "same_kind VNull v = (case v of VNull \<Rightarrow> True | VBool _ \<Rightarrow> True | VInt _ \<Rightarrow> True | VDouble d \<Rightarrow> whole d
     | VString _ \<Rightarrow> True | VDateTime _ \<Rightarrow> True | _ \<Rightarrow> False)"
| "same_kind (VBool a) v = (case v of VBool _ \<Rightarrow> True | VNull \<Rightarrow> True | _ \<Rightarrow> False)"
| "same_kind (VInt a) v = (case v of VInt _ \<Rightarrow> True | VDouble d \<Rightarrow> small_int a \<and> whole d | VNull \<Rightarrow> True
     | _ \<Rightarrow> False)"
| "same_kind (VDouble d) v = (whole d \<and> (case v of VInt a \<Rightarrow> small_int a | VDouble e \<Rightarrow> whole e | VNull \<Rightarrow> True
     | _ \<Rightarrow> False))"
| "same_kind (VString a) v = (case v of VString _ \<Rightarrow> True | VNull \<Rightarrow> True | _ \<Rightarrow> False)"
| "same_kind (VDateTime a) v = (case v of VDateTime _ \<Rightarrow> True | VNull \<Rightarrow> True | _ \<Rightarrow> False)"
| "same_kind _ v = False"

lemma whole_text: "whole d \<Longrightarrow> fmt_num d = show_int (sint (f_to_i64 d))"
  using integral_display [of "sint (f_to_i64 d)"] unfolding whole_def small_int_def fmt_num_def by metis

lemma small_int_cmp:
  assumes "small_int i" "small_int j"
  shows "total_cmp (f_of_int (sint i)) (f_of_int (sint j)) = Equal \<longleftrightarrow> sint i = sint j"
proof -
  have "\<bar>sint i\<bar> \<le> 2 ^ 53" "\<bar>sint j\<bar> \<le> 2 ^ 53" using assms by (simp_all add: small_int_def)
  from total_cmp_of_int [OF this] show ?thesis by (simp add: cmp_def del: total_cmp_Equal)
qed

lemma whole_cmp:
  "whole d \<Longrightarrow> whole e \<Longrightarrow> total_cmp d e = Equal \<longleftrightarrow> sint (f_to_i64 d) = sint (f_to_i64 e)"
  "small_int i \<Longrightarrow> whole e \<Longrightarrow> total_cmp (f_of_int (sint i)) e = Equal \<longleftrightarrow> sint i = sint (f_to_i64 e)"
  "whole d \<Longrightarrow> small_int j \<Longrightarrow> total_cmp d (f_of_int (sint j)) = Equal \<longleftrightarrow> sint (f_to_i64 d) = sint j"
  unfolding whole_def using small_int_cmp by metis+

definition cells_match :: "runtime \<Rightarrow> cfml_value \<Rightarrow> cfml_value \<Rightarrow> bool" where
  "cells_match R x y \<longleftrightarrow> (is_vnull x \<and> is_vnull y) \<or> sql_equal R x y = Some True"

fun no_marker :: "runtime \<Rightarrow> cfml_value \<Rightarrow> bool" where
  "no_marker R (VString s) = (1 \<notin> set (rt_lower R s))"
| "no_marker R v = True"

lemma same_kindE:
  assumes "same_kind x y"
  obtains (null) "x = VNull" | (null2) "y = VNull" | (bool) a b where "x = VBool a" "y = VBool b"
    | (int) i j where "x = VInt i" "y = VInt j" | (string) s t where "x = VString s" "y = VString t"
    | (date) d e where "x = VDateTime d" "y = VDateTime e"
    | (double) d e where "x = VDouble d" "y = VDouble e" "whole d" "whole e"
    | (int_double) i e where "x = VInt i" "y = VDouble e" "small_int i" "whole e"
    | (double_int) d j where "x = VDouble d" "y = VInt j" "whole d" "small_int j"
  using assms by (cases x) (auto split: cfml_value.splits)

lemma cell_text_null: "cell_text R v = cell_text R VNull \<longleftrightarrow> v = VNull"
  by (cases v) (simp_all add: cell_text_def append_group_key_def butlast_append)

lemma cell_text_same_kind:
  assumes "unicode_laws R" "same_kind x y"
  shows "cell_text R x = cell_text R y \<longleftrightarrow> cells_match R x y"
  using assms(2)
proof (cases rule: same_kindE)
  case null
  then show ?thesis
    using cell_text_null [of R y] by (auto simp: cells_match_def is_vnull_def sql_equal_def compare_sql_def)
next
  case null2
  then show ?thesis
    using cell_text_null [of R x] by (auto simp: cells_match_def is_vnull_def sql_equal_def compare_sql_def)
next
  case (double d e)
  then show ?thesis
    by (simp add: cell_text_def append_group_key_def cells_match_def sql_equal_def compare_sql_def
        butlast_append is_vnull_def whole_text whole_cmp(1) show_int_inj del: total_cmp_Equal)
next
  case (int_double i e)
  then show ?thesis
    by (simp add: cell_text_def append_group_key_def cells_match_def sql_equal_def compare_sql_def
        compare_classes_def num_cmp_def butlast_append is_vnull_def whole_text whole_cmp(2) show_i64_def
        show_int_inj del: total_cmp_Equal)
next
  case (double_int d j)
  then show ?thesis
    by (simp add: cell_text_def append_group_key_def cells_match_def sql_equal_def compare_sql_def
        compare_classes_def num_cmp_def butlast_append is_vnull_def whole_text whole_cmp(3) show_i64_def
        show_int_inj del: total_cmp_Equal)
qed (simp_all add: cell_text_def append_group_key_def cells_match_def sql_equal_def
      compare_sql_def butlast_append str_cmp_Equal [OF assms(1)] show_i64_inj show_int_inj
      bool_i64_def sint_inject)

lemma no_marker_cell_text: "same_kind v w \<Longrightarrow> no_marker R v \<Longrightarrow> 1 \<notin> set (cell_text R v)"
  using show_int_no_marker
  by (cases v) (simp_all add: cell_text_def append_group_key_def butlast_append show_i64_def whole_text)

lemma same_kind_sym: "same_kind y x = same_kind x y"
  by (cases x; cases y) auto

lemma group_key_cell:
  "unicode_laws R \<Longrightarrow> same_kind x y \<Longrightarrow> group_key R [x] = group_key R [y] \<longleftrightarrow> cells_match R x y"
  by (simp add: group_key_concat cell_text_same_kind)

lemma show_int_not_Nil [simp]: "show_int i \<noteq> []"
  using show_nat_digits by (simp add: show_int_def)

lemma parse_num_show_int [simp]: "parse_num (show_int i) = Some (f_of_int i)"
  by (simp add: parse_num_def)

section \<open>Properties\<close>

text \<open>C32: The ASCII fast path of \<open>str_cmp\<close> never changes the answer: for every pair of
  strings, ASCII or not, \<open>str_cmp\<close> orders them exactly as the bytes of their Unicode
  lower-case forms do.\<close>

theorem str_cmp_is_lowercase_order:
  assumes "unicode_laws R"
  shows "str_cmp R a b = string_cmp (rt_lower R a) (rt_lower R b)"
  using assms by (rule str_cmp_unicode)

theorem str_cmp_is_lowercase_order_witness:
  "unicode_laws ascii_runtime \<and>
   str_cmp ascii_runtime (str ''Zoe'' @ [233]) (str ''zOE'') = Greater"
proof -
  have "str_cmp ascii_runtime (str ''Zoe'' @ [233]) (str ''zOE'') =
    string_cmp (rt_lower ascii_runtime (str ''Zoe'' @ [233])) (rt_lower ascii_runtime (str ''zOE''))"
    by (rule str_cmp_is_lowercase_order) simp
  then show ?thesis
    by (simp add: to_ascii_lowercase_def string_cmp_def utf8_encode_def cmp_def)
qed

text \<open>\<open>cmp_ignore_case\<close> answers as \<open>to_lowercase\<close> of both sides followed by a comparison
  would, also on its allocation-free ASCII path.\<close>

lemma cmp_ignore_case_correct:
  assumes "unicode_laws R"
  shows "cmp_ignore_case R a b = string_cmp (rt_lower R a) (rt_lower R b)"
  by (auto simp: cmp_ignore_case_def cmp_ascii_bytes_lex string_cmp_def unicode_lawsD(1) [OF assms])

text \<open>Swapping the operands of an SQL comparison reverses the answer, for every pair of
  values of any variants, NULL (unknown) included. The rewriting of \<open>literal op column\<close> into
  \<open>column op' literal\<close> rests on this.\<close>

lemma compare_sql_antisymmetric:
  "compare_sql R b a = map_option reverse (compare_sql R a b)"
  by (rule compare_sql_reverse)

text \<open>\<open>compare_total\<close> is documented as a total order, but a column that mixes numbers
  with text has a cycle: \<open>10 > '9' > '10a' > 10\<close>.\<close>

lemma compare_total_cycle:
  "compare_total ascii_runtime (VInt 10) (VString (str ''9'')) = Greater \<and>
   compare_total ascii_runtime (VString (str ''9'')) (VString (str ''10a'')) = Greater \<and>
   compare_total ascii_runtime (VString (str ''10a'')) (VInt 10) = Greater"
proof (intro conjI)
  have digits: "str ''9'' = show_int 9" "str ''10'' = show_int 10"
    by (simp_all add: show_int_def show_nat.simps)
  show "compare_total ascii_runtime (VInt 10) (VString (str ''9'')) = Greater"
    unfolding digits using total_cmp_of_int [of 10 9]
    by (simp add: compare_total_def compare_sql_def compare_classes_def num_cmp_def cmp_def)
  show "compare_total ascii_runtime (VString (str ''9'')) (VString (str ''10a'')) = Greater"
    by (simp add: compare_total_def compare_sql_def str_cmp_def utf8_encode_def
        to_ascii_lowercase_def cmp_def)
  have "parse_num (str ''10a'') = None"
    by (simp add: parse_num_def trim_no_whitespace is_whitespace_def parse_f64_def
        parse_unsigned_f64_def to_ascii_lowercase_def span_digits_def is_ascii_digit_def
        parse_exponent_def)
  moreover have "fmt_num (f_of_int 10) = str ''10''"
    unfolding digits using integral_display [of 10] by (simp add: fmt_num_def)
  moreover have "str_cmp ascii_runtime (str ''10a'') (str ''10'') = Greater"
    by (simp add: str_cmp_def utf8_encode_def to_ascii_lowercase_def cmp_def)
  ultimately show "compare_total ascii_runtime (VString (str ''10a'')) (VInt 10) = Greater"
    by (simp add: compare_total_def compare_sql_def compare_classes_def del: str_Cons)
qed

text \<open>C30: DISTINCT, GROUP BY and the hash join identify two rows by equal keys. Take two rows whose cells,
  column by column, are both strings, both booleans, both dates, both integers, or whole numbers
  below \<open>10^15\<close> of which each may be an integer or a double, or of which one is NULL; and let no
  string contain U+0001. Then the keys are equal exactly when the rows are equal cell by cell,
  two NULLs counting as equal. Doubles with a fraction, from \<open>10^15\<close> on, infinite, NaN or the
  negative zero are not covered.\<close>

theorem group_key_iff_cells_match:
  assumes "unicode_laws R" "list_all2 same_kind xs ys"
    and "\<forall>v \<in> set xs \<union> set ys. no_marker R v"
  shows "group_key R xs = group_key R ys \<longleftrightarrow> list_all2 (cells_match R) xs ys"
proof -
  have len: "length xs = length ys"
    using assms(2) by (rule list_all2_lengthD)
  have "\<exists>w. same_kind v w" if "v \<in> set xs \<union> set ys" for v
    using that assms(2) same_kind_sym by (auto simp: list_all2_conv_all_nth in_set_conv_nth) blast+
  then have "\<forall>v \<in> set xs \<union> set ys. 1 \<notin> set (cell_text R v)"
    using assms(3) no_marker_cell_text by blast
  then show ?thesis
    using group_key_eq_iff [OF len, of R] assms(2) cell_text_same_kind [OF assms(1)]
    by (simp add: list_all2_conv_all_nth len)
qed

lemma whole_seven: "whole (f_of_int 7)"
proof -
  have "show_i64 (f_to_i64 (f_of_int 7)) = show_int 7" by (rule integral_display) simp
  then have "sint (f_to_i64 (f_of_int 7)) = 7" by (simp only: show_i64_def show_int_inj)
  then show ?thesis by (simp add: whole_def small_int_def)
qed

theorem group_key_iff_cells_match_witness:
  "group_key ascii_runtime [VString (str ''Ann''), VInt 7, VNull] =
   group_key ascii_runtime [VString (str ''ANN''), VDouble (f_of_int 7), VNull] \<longleftrightarrow>
   list_all2 (cells_match ascii_runtime) [VString (str ''Ann''), VInt 7, VNull]
     [VString (str ''ANN''), VDouble (f_of_int 7), VNull]"
  by (rule group_key_iff_cells_match) (simp_all add: to_ascii_lowercase_def whole_seven small_int_def)

text \<open>The two zeros have one key and are not equal: \<open>total_cmp\<close> orders \<open>-0.0\<close> before \<open>0.0\<close>.\<close>

lemma zeros_share_key:
  "group_key R [VDouble (f_zero False)] = group_key R [VDouble (f_zero True)] \<and>
   sql_equal R (VDouble (f_zero False)) (VDouble (f_zero True)) = Some False"
proof -
  have "f_zero False = f_of_int 0"
    by (simp add: f_zero_def f_of_int_def of_units_def round_units_def rne_def Let_def)
  then have "f_lt (f_abs (f_zero False)) fmt_int_bound"
    using integral_display(2) [of 0] by simp
  then have "fmt_num (f_zero False) = fmt_num (f_zero True)"
    by (simp add: fmt_num_def fract_is_zero_def f_zero_def f_abs_def f_to_i64_def is_nan_def
        is_infinite_def is_finite_def mag_units_def inf_mag_def)
  then show ?thesis
    by (simp add: group_key_def append_group_key_def sql_equal_def compare_sql_def f_zero_def)
qed

text \<open>The terminator is not escaped, so keys are not injective on all rows: where columns
  mix strings and numbers, two rows that differ in every column but one can share a key.\<close>

lemma group_key_collision:
  "group_key ascii_runtime [VString (str ''a'' @ [1] @ str ''#1''), VString (str ''b''), VInt 1] =
   group_key ascii_runtime [VString (str ''a''), VInt 1, VString (str ''b'' @ [1] @ str ''#1'')] \<and>
   sql_equal ascii_runtime (VString (str ''a'' @ [1] @ str ''#1'')) (VString (str ''a'')) = Some False"
  by (simp add: group_key_def append_group_key_def to_ascii_lowercase_def sql_equal_def
      compare_sql_def str_cmp_def utf8_encode_def cmp_def show_i64_def show_int_def show_nat.simps)

end
