(* ===== verification/Functions.thy ===== *)
theory Functions
  imports Compare
begin

text \<open>
  The functions usable in SQL: the registry of native, extension and user-defined functions
  (\<open>cfml-qoq/src/function.rs\<close>) and the built-in scalar functions and casts
  (\<open>cfml-qoq/src/functions.rs\<close>). Here too are the errors of the engine, one constructor per
  place that raises one.
\<close>

section \<open>Errors\<close>

datatype qoq_error =
    StarRequiresFrom
  | StarOutsideSelect
  | UnknownStarTable ustr
  | TableNotFound ustr
  | ColumnNotFound "ustr option" ustr
  | PositionalParam nat
  | MissingNamedParam ustr
  | UnknownFunction ustr
  | UnknownAggregate ustr
  | AggregateNeedsArgument ustr
  | CannotCast ustr ustr
  | CannotNegate
  | NotNumeric ustr
  | DivisionByZero
  | ModuloByZero
  | UnionMismatch nat nat
  | JoinTooLarge nat
  | CustomOnParallelPath
  | UserError ustr
  | Panic
  | Diverges

text \<open>\<open>CfmlResult\<close>; \<open>Panic\<close> is an abort of the process and \<open>Diverges\<close> a loop that does not end.\<close>

type_synonym 'a outcome = "qoq_error + 'a"

type_synonym cfml_result = "cfml_value outcome"

section \<open>The registry\<close>

datatype fn_kind = Scalar | Aggregate

type_synonym qoq_fn = "cfml_value list \<Rightarrow> cfml_result"

record registry =
  rg_scalars :: "ustr \<rightharpoonup> qoq_fn"
  rg_aggregates :: "ustr \<rightharpoonup> qoq_fn"
  rg_customs :: "ustr \<rightharpoonup> cfml_value \<times> fn_kind"
  rg_dynamics :: "ustr \<rightharpoonup> qoq_fn \<times> fn_kind"

definition registry_new :: registry where
  "registry_new =
     \<lparr> rg_scalars = Map.empty, rg_aggregates = Map.empty, rg_customs = Map.empty,
       rg_dynamics = Map.empty \<rparr>"

definition register_native :: "runtime \<Rightarrow> ustr \<Rightarrow> qoq_fn \<Rightarrow> fn_kind \<Rightarrow> registry \<Rightarrow> registry" where
  "register_native R name f kind rg =
     (let key = rt_lower R name
      in case kind of
           Scalar \<Rightarrow> rg\<lparr>rg_scalars := (rg_scalars rg)(key \<mapsto> f)\<rparr>
         | Aggregate \<Rightarrow> rg\<lparr>rg_aggregates := (rg_aggregates rg)(key \<mapsto> f)\<rparr>)"

definition register_dynamic :: "runtime \<Rightarrow> ustr \<Rightarrow> qoq_fn \<Rightarrow> fn_kind \<Rightarrow> registry \<Rightarrow> registry" where
  "register_dynamic R name f kind rg =
     rg\<lparr>rg_dynamics := (rg_dynamics rg)(rt_lower R name \<mapsto> (f, kind))\<rparr>"

definition get_dynamic :: "runtime \<Rightarrow> registry \<Rightarrow> ustr \<Rightarrow> fn_kind \<Rightarrow> qoq_fn option" where
  "get_dynamic R rg name kind =
     (case rg_dynamics rg (rt_lower R name) of
        Some (f, k) \<Rightarrow> if k = kind then Some f else None
      | None \<Rightarrow> None)"

definition register_custom :: "runtime \<Rightarrow> ustr \<Rightarrow> cfml_value \<Rightarrow> fn_kind \<Rightarrow> registry \<Rightarrow> registry" where
  "register_custom R name f kind rg =
     rg\<lparr>rg_customs := (rg_customs rg)(rt_lower R name \<mapsto> (f, kind))\<rparr>"

definition get_native :: "runtime \<Rightarrow> registry \<Rightarrow> ustr \<Rightarrow> (fn_kind \<times> qoq_fn) option" where
  "get_native R rg name =
     (let key = rt_lower R name
      in case rg_scalars rg key of
           Some f \<Rightarrow> Some (Scalar, f)
         | None \<Rightarrow> (case rg_aggregates rg key of Some f \<Rightarrow> Some (Aggregate, f) | None \<Rightarrow> None))"

definition get_custom :: "runtime \<Rightarrow> registry \<Rightarrow> ustr \<Rightarrow> (cfml_value \<times> fn_kind) option" where
  "get_custom R rg name = rg_customs rg (rt_lower R name)"

definition registry_is_aggregate :: "runtime \<Rightarrow> registry \<Rightarrow> ustr \<Rightarrow> bool" where
  "registry_is_aggregate R rg name =
     (let key = rt_lower R name
      in rg_aggregates rg key \<noteq> None
         \<or> (case rg_customs rg key of Some (_, k) \<Rightarrow> k = Aggregate | None \<Rightarrow> False)
         \<or> (case rg_dynamics rg key of Some (_, k) \<Rightarrow> k = Aggregate | None \<Rightarrow> False))"

definition registry_contains :: "runtime \<Rightarrow> registry \<Rightarrow> ustr \<Rightarrow> bool" where
  "registry_contains R rg name =
     (let key = rt_lower R name
      in rg_scalars rg key \<noteq> None \<or> rg_aggregates rg key \<noteq> None \<or> rg_customs rg key \<noteq> None
         \<or> rg_dynamics rg key \<noteq> None)"

section \<open>Argument helpers\<close>

definition to_f64 :: "cfml_value \<Rightarrow> f64 option" where
  "to_f64 v =
     (case v of
        VInt i \<Rightarrow> Some (f_of_int (sint i))
      | VDouble d \<Rightarrow> Some d
      | VBool b \<Rightarrow> Some (if b then f_of_int 1 else f_of_int 0)
      | VString s \<Rightarrow> parse_f64 (trim s)
      | _ \<Rightarrow> None)"

definition to_i64 :: "cfml_value \<Rightarrow> i64 option" where
  "to_i64 v =
     (case v of
        VInt i \<Rightarrow> Some i
      | VDouble d \<Rightarrow> Some (f_to_i64 d)
      | VBool b \<Rightarrow> Some (if b then 1 else 0)
      | VString s \<Rightarrow>
          (let t = trim s
           in case parse_i64 t of Some i \<Rightarrow> Some i | None \<Rightarrow> map_option f_to_i64 (parse_f64 t))
      | _ \<Rightarrow> None)"

definition arg_str :: "runtime \<Rightarrow> cfml_value list \<Rightarrow> nat \<Rightarrow> ustr" where
  "arg_str R args i = (case get args i of Some v \<Rightarrow> as_string R v | None \<Rightarrow> [])"

definition arg_f64 :: "cfml_value list \<Rightarrow> nat \<Rightarrow> f64" where
  "arg_f64 args i =
     (case Option.bind (get args i) to_f64 of Some d \<Rightarrow> d | None \<Rightarrow> f_zero False)"

definition arg_i64 :: "cfml_value list \<Rightarrow> nat \<Rightarrow> i64 option" where
  "arg_i64 args i = Option.bind (get args i) to_i64"

definition unwrap_or :: "'a option \<Rightarrow> 'a \<Rightarrow> 'a" where
  "unwrap_or x d = (case x of Some v \<Rightarrow> v | None \<Rightarrow> d)"

definition int_limit :: f64 where
  "int_limit = f_of_int 9000000000000000"

definition num_result :: "f64 \<Rightarrow> cfml_value" where
  "num_result n =
     (if is_finite n \<and> fract_is_zero n \<and> f_lt (f_abs n) int_limit then VInt (f_to_i64 n) else VDouble n)"

definition sign :: "f64 \<Rightarrow> i64" where
  "sign n = (if f_lt (f_zero False) n then 1 else if f_lt n (f_zero False) then - 1 else 0)"

definition round_places :: "runtime \<Rightarrow> f64 \<Rightarrow> i64 \<Rightarrow> cfml_value" where
  "round_places R n places =
     (let factor = rt_powi R (f_of_int 10) (sint (ucast places :: 32 word));
          r = f_div (f_round (f_mul n factor)) factor
      in if sint places \<le> 0 then num_result r else VDouble r)"

text \<open>Rust's \<open>%\<close> on \<open>i64\<close>: truncated, and a panic where the quotient overflows.\<close>

definition i64_rem :: "i64 \<Rightarrow> i64 \<Rightarrow> i64 outcome" where
  "i64_rem x y =
     (if sint x = - (2 ^ 63) \<and> sint y = - 1 then Inl Panic
      else Inr (word_of_int (sgn (sint x) * (\<bar>sint x\<bar> mod \<bar>sint y\<bar>))))"

definition modulo :: "cfml_value \<Rightarrow> cfml_value \<Rightarrow> cfml_result" where
  "modulo a b =
     (case (a, b) of
        (VInt x, VInt y) \<Rightarrow> if y = 0 then Inl ModuloByZero else map_sum id VInt (i64_rem x y)
      | _ \<Rightarrow>
          (let x = unwrap_or (to_f64 a) (f_zero False); y = unwrap_or (to_f64 b) (f_zero False)
           in if f_eq y (f_zero False) then Inl ModuloByZero else Inr (num_result (f_rem x y))))"

definition str_left :: "ustr \<Rightarrow> i64 \<Rightarrow> cfml_value" where
  "str_left s n = VString (take (nat (max (sint n) 0)) s)"

definition str_right :: "ustr \<Rightarrow> i64 \<Rightarrow> cfml_value" where
  "str_right s n = (let k = min (nat (max (sint n) 0)) (length s) in VString (drop (length s - k) s))"

definition str_mid :: "ustr \<Rightarrow> i64 \<Rightarrow> i64 option \<Rightarrow> cfml_value" where
  "str_mid s start len =
     (let start0 = (if sint start < 1 then 0 else nat (sint start - 1))
      in if length s \<le> start0 then VString []
         else let n = (case len of
                         Some l \<Rightarrow> if 0 \<le> sint l then min (nat (sint l)) (length s - start0)
                                   else length s - start0
                       | None \<Rightarrow> length s - start0)
              in VString (take n (drop start0 s)))"

text \<open>\<open>str::replace\<close>: every occurrence, left to right; an empty needle matches between all
  characters.\<close>

fun replace_loop :: "ustr \<Rightarrow> ustr \<Rightarrow> ustr \<Rightarrow> ustr" where
  "replace_loop s from to =
     (if from = [] \<or> s = [] then s
      else if take (length from) s = from then to @ replace_loop (drop (length from) s) from to
      else hd s # replace_loop (tl s) from to)"

declare replace_loop.simps [simp del]

definition str_replace :: "ustr \<Rightarrow> ustr \<Rightarrow> ustr \<Rightarrow> ustr" where
  "str_replace s from to =
     (if from = [] then to @ concat (map (\<lambda>c. c # to) s) else replace_loop s from to)"

definition char_ci_eq :: "runtime \<Rightarrow> uchar \<Rightarrow> uchar \<Rightarrow> bool" where
  "char_ci_eq R a b \<longleftrightarrow> a = b \<or> rt_char_lower R a = rt_char_lower R b"

fun replace_nocase_loop :: "runtime \<Rightarrow> ustr \<Rightarrow> ustr \<Rightarrow> ustr \<Rightarrow> ustr" where
  "replace_nocase_loop R s from to =
     (if from = [] \<or> s = [] then s
      else if length from \<le> length s \<and> list_all2 (char_ci_eq R) (take (length from) s) from
      then to @ replace_nocase_loop R (drop (length from) s) from to
      else hd s # replace_nocase_loop R (tl s) from to)"

declare replace_nocase_loop.simps [simp del]

definition replace_nocase :: "runtime \<Rightarrow> ustr \<Rightarrow> ustr \<Rightarrow> ustr \<Rightarrow> ustr" where
  "replace_nocase R s from to = (if from = [] then s else replace_nocase_loop R s from to)"

section \<open>Built-in scalar functions\<close>

definition f_pi :: f64 where
  "f_pi = F64 False 4614256656552045848"

definition i64_abs :: "i64 \<Rightarrow> i64" where
  "i64_abs i = (if sint i < 0 then - i else i)"

text \<open>\<open>call_scalar\<close>, by the groups of its match: text, numbers, and the functions on NULL.
  \<open>None\<close> when the name is not built in.\<close>

definition call_text :: "runtime \<Rightarrow> ustr \<Rightarrow> cfml_value list \<Rightarrow> cfml_result option" where
  "call_text R l args =
     (if l = str ''upper'' \<or> l = str ''ucase'' then Some (Inr (VString (rt_upper R (arg_str R args 0))))
      else if l = str ''lower'' \<or> l = str ''lcase'' then Some (Inr (VString (rt_lower R (arg_str R args 0))))
      else if l = str ''trim'' then Some (Inr (VString (trim (arg_str R args 0))))
      else if l = str ''ltrim'' then Some (Inr (VString (trim_start (arg_str R args 0))))
      else if l = str ''rtrim'' then Some (Inr (VString (trim_end (arg_str R args 0))))
      else if l = str ''len'' \<or> l = str ''length''
      then Some (Inr (VInt (word_of_nat (length (arg_str R args 0)))))
      else if l = str ''left'' then Some (Inr (str_left (arg_str R args 0) (unwrap_or (arg_i64 args 1) 0)))
      else if l = str ''right'' then Some (Inr (str_right (arg_str R args 0) (unwrap_or (arg_i64 args 1) 0)))
      else if l = str ''mid'' \<or> l = str ''substring'' \<or> l = str ''substr''
      then Some (Inr (str_mid (arg_str R args 0) (unwrap_or (arg_i64 args 1) 1) (arg_i64 args 2)))
      else if l = str ''replace''
      then Some (Inr (VString (str_replace (arg_str R args 0) (arg_str R args 1) (arg_str R args 2))))
      else if l = str ''replacenocase''
      then Some (Inr (VString (replace_nocase R (arg_str R args 0) (arg_str R args 1) (arg_str R args 2))))
      else if l = str ''concat''
      then Some (Inr (VString (concat (map (as_string R) (filter (\<lambda>v. \<not> is_vnull v) args)))))
      else None)"

definition call_number :: "runtime \<Rightarrow> ustr \<Rightarrow> cfml_value list \<Rightarrow> cfml_result option" where
  "call_number R l args =
     (if l = str ''abs''
      then Some (Inr (case args of
                        VInt i # _ \<Rightarrow> VInt (i64_abs i)
                      | v # _ \<Rightarrow> num_result (f_abs (unwrap_or (to_f64 v) (f_zero False)))
                      | [] \<Rightarrow> VNull))
      else if l = str ''ceiling'' \<or> l = str ''ceil'' then Some (Inr (num_result (f_ceil (arg_f64 args 0))))
      else if l = str ''floor'' then Some (Inr (num_result (f_floor (arg_f64 args 0))))
      else if l = str ''sign'' \<or> l = str ''sgn'' then Some (Inr (VInt (sign (arg_f64 args 0))))
      else if l = str ''round'' then Some (Inr (round_places R (arg_f64 args 0) (unwrap_or (arg_i64 args 1) 0)))
      else if l = str ''mod''
      then Some (case args of a # b # _ \<Rightarrow> modulo a b | _ \<Rightarrow> Inr VNull)
      else if l = str ''sqrt'' then Some (Inr (VDouble (f_sqrt (arg_f64 args 0))))
      else if l = str ''exp'' then Some (Inr (VDouble (rt_exp R (arg_f64 args 0))))
      else if l = str ''sin'' then Some (Inr (VDouble (rt_sin R (arg_f64 args 0))))
      else if l = str ''cos'' then Some (Inr (VDouble (rt_cos R (arg_f64 args 0))))
      else if l = str ''tan'' then Some (Inr (VDouble (rt_tan R (arg_f64 args 0))))
      else if l = str ''power'' \<or> l = str ''pow''
      then Some (Inr (VDouble (rt_powf R (arg_f64 args 0) (arg_f64 args 1))))
      else if l = str ''pi'' then Some (Inr (VDouble f_pi))
      else None)"

definition call_null :: "runtime \<Rightarrow> ustr \<Rightarrow> cfml_value list \<Rightarrow> cfml_result option" where
  "call_null R l args =
     (if l = str ''coalesce''
      then Some (Inr (case filter (\<lambda>v. \<not> is_vnull v) args of v # _ \<Rightarrow> v | [] \<Rightarrow> VNull))
      else if l = str ''isnull''
      then Some (Inr (case args of
                        [] \<Rightarrow> VNull
                      | v # rest \<Rightarrow> if is_vnull v then unwrap_or (get args 1) VNull else v))
      else if l = str ''nullif''
      then Some (Inr (case args of
                        a # b # _ \<Rightarrow> if sql_equal R a b = Some True then VNull else a
                      | [a] \<Rightarrow> a
                      | [] \<Rightarrow> VNull))
      else if l = str ''iif''
      then Some (Inr (if (case args of v # _ \<Rightarrow> is_true R v | [] \<Rightarrow> False)
                      then unwrap_or (get args 1) VNull else unwrap_or (get args 2) VNull))
      else None)"

definition call_scalar :: "runtime \<Rightarrow> ustr \<Rightarrow> cfml_value list \<Rightarrow> cfml_result option" where
  "call_scalar R name args =
     (let l = rt_lower R name
      in case call_text R l args of
           Some r \<Rightarrow> Some r
         | None \<Rightarrow> (case call_number R l args of
                      Some r \<Rightarrow> Some r
                    | None \<Rightarrow> call_null R l args))"

text \<open>\<open>cast_value\<close>.\<close>

definition int_types :: "ustr list" where
  "int_types = [str ''int'', str ''integer'', str ''bigint'', str ''smallint'', str ''tinyint'']"

definition double_types :: "ustr list" where
  "double_types = [str ''double'', str ''float'', str ''real'', str ''decimal'', str ''numeric'',
     str ''number'', str ''money'']"

definition bool_types :: "ustr list" where
  "bool_types = [str ''bit'', str ''boolean'', str ''bool'']"

definition text_types :: "ustr list" where
  "text_types = [str ''varchar'', str ''char'', str ''nvarchar'', str ''nchar'', str ''string'',
     str ''text'', str ''clob'']"

definition cast_value :: "runtime \<Rightarrow> cfml_value \<Rightarrow> ustr \<Rightarrow> cfml_result" where
  "cast_value R v ty =
     (if is_vnull v then Inr VNull
      else if ty \<in> set int_types
      then (case to_i64 v of Some i \<Rightarrow> Inr (VInt i) | None \<Rightarrow> Inl (CannotCast (as_string R v) ty))
      else if ty \<in> set double_types
      then (case to_f64 v of Some f \<Rightarrow> Inr (VDouble f) | None \<Rightarrow> Inl (CannotCast (as_string R v) ty))
      else if ty \<in> set bool_types then Inr (VBool (is_true R v))
      else if ty \<in> set text_types then Inr (VString (as_string R v))
      else Inr v)"

section \<open>Registration\<close>

text \<open>A table of functions under case-insensitive names: the last registration of a name, in
  any spelling, is the one found, and other names are not disturbed.\<close>

locale name_table =
  fixes key :: "'n \<Rightarrow> 'k" and put :: "'n \<Rightarrow> 'v \<Rightarrow> 's \<Rightarrow> 's" and look :: "'s \<Rightarrow> 'n \<Rightarrow> 'v option"
  assumes look_put_same: "key m = key n \<Longrightarrow> look (put n v s) m = Some v"
    and look_put_other: "key m \<noteq> key n \<Longrightarrow> look (put n v s) m = look s m"
begin

lemma look_fold:
  "look (fold (\<lambda>(n, v). put n v) entries s) m =
   (case map_of (rev (map (\<lambda>(n, v). (key n, v)) entries)) (key m) of Some v \<Rightarrow> Some v | None \<Rightarrow> look s m)"
proof (induction entries arbitrary: s)
  case (Cons e entries)
  obtain n v where e: "e = (n, v)"
    by force
  show ?case
    using Cons look_put_same [of m n v s] look_put_other [of m n v s]
    by (cases "key m = key n") (simp_all add: e map_add_def split: option.split)
qed simp

end

interpretation customs: name_table "rt_lower R" "\<lambda>n (f, k). register_custom R n f k" "get_custom R" for R
  by unfold_locales (auto simp: register_custom_def get_custom_def)

interpretation extensions: name_table "rt_lower R" "\<lambda>n f. register_dynamic R n f k" "\<lambda>rg n. get_dynamic R rg n k"
  for R k
  by unfold_locales (auto simp: register_dynamic_def get_dynamic_def)

interpretation natives: name_table "rt_lower R" "\<lambda>n f. register_native R n f Scalar"
  "\<lambda>rg n. rg_scalars rg (rt_lower R n)" for R
  by unfold_locales (auto simp: register_native_def)

section \<open>Properties\<close>

lemma trim_show_i64 [simp]: "trim (show_i64 i) = show_i64 i"
  by (simp add: show_i64_def)

text \<open>After any sequence of registrations of user-defined functions, looking a name up in
  any letter case finds the last one registered under that name, and an older function only
  where none of them has the name.\<close>

lemma custom_lookup_last_registration:
  "get_custom R (fold (\<lambda>(n, f, k). register_custom R n f k) entries rg) name =
   (case map_of (rev (map (\<lambda>(n, fk). (rt_lower R n, fk)) entries)) (rt_lower R name) of
      Some fk \<Rightarrow> Some fk
    | None \<Rightarrow> get_custom R rg name)"
  by (rule customs.look_fold)

text \<open>Casting an integer to text and back to an integer type gives the integer again, for
  all \<open>2^64\<close> integers and every spelling of the types.\<close>

lemma cast_int_text_roundtrip:
  assumes "t \<in> set text_types" "n \<in> set int_types"
  shows "and_then (cast_value R (VInt i) t) (\<lambda>v. cast_value R v n) = Inr (VInt i)"
proof -
  have "t \<notin> set int_types" "t \<notin> set double_types" "t \<notin> set bool_types"
    using assms(1) by (auto simp: text_types_def int_types_def double_types_def bool_types_def)
  then show ?thesis
    using assms by (simp add: cast_value_def to_i64_def parse_i64_show_i64)
qed

lemma sint_of_i64:
  assumes "- (2 ^ 63) \<le> k" "k < 2 ^ 63"
  shows "sint (word_of_int k :: i64) = k"
  using assms by (simp add: sint_sbintrunc' signed_take_bit_int_eq_self)

lemma truncated_rem:
  fixes a b :: int
  assumes "b \<noteq> 0"
  defines "m \<equiv> sgn a * (\<bar>a\<bar> mod \<bar>b\<bar>)"
  shows "\<bar>m\<bar> < \<bar>b\<bar>" "m = 0 \<or> sgn m = sgn a" "b dvd a - m"
proof -
  obtain k where k: "\<bar>a\<bar> mod \<bar>b\<bar> = k" "0 \<le> k" "k < \<bar>b\<bar>"
    using assms(1) by simp
  show "\<bar>m\<bar> < \<bar>b\<bar>"
    using k assms(1) unfolding m_def k(1) by (cases "a = 0") (simp_all add: abs_mult)
  show "m = 0 \<or> sgn m = sgn a"
    using k unfolding m_def k(1) by (cases "k = 0") (simp_all add: sgn_mult)
  have "a - m = sgn a * (\<bar>a\<bar> - \<bar>a\<bar> mod \<bar>b\<bar>)"
    by (simp add: m_def right_diff_distrib sgn_mult_abs)
  moreover have "\<bar>b\<bar> dvd \<bar>a\<bar> - \<bar>a\<bar> mod \<bar>b\<bar>"
    by (rule dvd_minus_mod)
  ultimately show "b dvd a - m"
    by (metis abs_dvd_iff dvd_mult)
qed

text \<open>The integer remainder is that of truncated division (the sign of the dividend, and
  smaller in magnitude than the divisor) for every pair with a non-zero divisor except the
  smallest integer by minus one, where the machine aborts.\<close>

lemma i64_rem_spec:
  assumes "y \<noteq> 0"
  shows "if sint x = - (2 ^ 63) \<and> sint y = - 1 then i64_rem x y = Inl Panic
    else \<exists>r. i64_rem x y = Inr r \<and> \<bar>sint r\<bar> < \<bar>sint y\<bar> \<and>
      (sint r = 0 \<or> sgn (sint r) = sgn (sint x)) \<and> sint y dvd sint x - sint r"
proof -
  let ?m = "sgn (sint x) * (\<bar>sint x\<bar> mod \<bar>sint y\<bar>)"
  have y: "sint y \<noteq> 0"
    using assms by (metis signed_0 signed_word_eqI)
  note m = truncated_rem [OF y, of "sint x"]
  have "\<bar>sint y\<bar> \<le> 2 ^ 63"
    using sint_ge [of y] sint_lt [of y] by simp
  with m(1) have "- (2 ^ 63) \<le> ?m" "?m < 2 ^ 63"
    by linarith+
  then have sint: "sint (word_of_int ?m :: i64) = ?m"
    by (rule sint_of_i64)
  show ?thesis
  proof (cases "sint x = - (2 ^ 63) \<and> sint y = - 1")
    case True
    then show ?thesis
      by (simp only: i64_rem_def if_True simp_thms)
  next
    case False
    then have "i64_rem x y = Inr (word_of_int ?m)"
      by (simp only: i64_rem_def if_False)
    with m sint False show ?thesis
      by (metis (no_types))
  qed
qed

end
