(* ===== verification/Like.thy ===== *)
theory Like
  imports Values
begin

text \<open>
  SQL LIKE (\<open>cfml-qoq/src/like.rs\<close>): the compilation of a pattern to one of four anchored
  ASCII shapes or to a regular expression, and the matcher. The regular-expression crate is
  the parameter \<open>rt_regex_is_match\<close>; \<open>regex_laws\<close> states what its documentation says of the
  patterns built here. A pattern is taken to compile: that \<open>Regex::new\<close> refuses an expression whose
  compiled form is over the crate's size limit, where the source's \<open>unwrap\<close> panics, is not modelled.
\<close>

section \<open>Compilation\<close>

datatype elem = Any | One | Lit uchar

datatype inner = Equals ustr | StartsWith ustr | EndsWith ustr | Contains ustr | Regex ustr

type_synonym like_compiled = inner

definition lower :: "runtime \<Rightarrow> uchar \<Rightarrow> uchar" where
  "lower R c = (case rt_char_lower R c of [] \<Rightarrow> c | x # _ \<Rightarrow> x)"

fun like_elems :: "runtime \<Rightarrow> uchar option \<Rightarrow> ustr \<Rightarrow> elem list" where
  "like_elems R esc [] = []"
| "like_elems R esc (c # cs) =
     (if Some (lower R c) = esc
      then (case cs of
              [] \<Rightarrow> [Lit (lower R c)]
            | d # cs' \<Rightarrow> Lit (lower R d) # like_elems R esc cs')
      else (if c = ch CHR ''%'' then Any else if c = ch CHR ''_'' then One else Lit (lower R c))
           # like_elems R esc cs)"

fun lit_run_ascii :: "elem list \<Rightarrow> ustr option" where
  "lit_run_ascii [] = Some []"
| "lit_run_ascii (Lit c # es) =
     (if is_ascii_char c then map_option (\<lambda>s. c # s) (lit_run_ascii es) else None)"
| "lit_run_ascii (_ # es) = None"

definition regex_item :: "runtime \<Rightarrow> elem \<Rightarrow> ustr" where
  "regex_item R e =
     (case e of Any \<Rightarrow> str ''.*'' | One \<Rightarrow> str ''.'' | Lit c \<Rightarrow> rt_regex_escape R [c])"

definition starts_pct :: "elem list \<Rightarrow> bool" where
  "starts_pct es \<longleftrightarrow> es \<noteq> [] \<and> hd es = Any"

definition ends_pct :: "elem list \<Rightarrow> bool" where
  "ends_pct es \<longleftrightarrow> es \<noteq> [] \<and> last es = Any"

definition build_regex :: "runtime \<Rightarrow> elem list \<Rightarrow> ustr" where
  "build_regex R es =
     (let n = length es; s = starts_pct es; e = ends_pct es
      in if s \<and> e \<and> n < 2 then []
         else
           let body = (if \<not> s \<and> \<not> e then es else if s \<and> \<not> e then tl es
                       else if \<not> s \<and> e then butlast es else butlast (tl es))
           in str ''(?is)'' @ (if \<not> s then str ''^'' else []) @ concat (map (regex_item R) body)
              @ (if \<not> e then str ''$'' else []))"

definition build_inner :: "runtime \<Rightarrow> elem list \<Rightarrow> inner" where
  "build_inner R es =
     (let n = length es; s = starts_pct es; e = ends_pct es;
          shape = (if \<not> s \<and> \<not> e then map_option Equals (lit_run_ascii es)
                   else if \<not> s \<and> e \<and> n \<ge> 1 then map_option StartsWith (lit_run_ascii (butlast es))
                   else if s \<and> \<not> e \<and> n \<ge> 1 then map_option EndsWith (lit_run_ascii (tl es))
                   else if s \<and> e \<and> n \<ge> 2 then map_option Contains (lit_run_ascii (butlast (tl es)))
                   else None)
      in case shape of Some i \<Rightarrow> i | None \<Rightarrow> Regex (build_regex R es))"

definition like_compile :: "runtime \<Rightarrow> ustr \<Rightarrow> uchar option \<Rightarrow> like_compiled" where
  "like_compile R pattern escape =
     build_inner R (like_elems R (map_option to_ascii_lowercase escape) pattern)"

section \<open>Matching\<close>

definition ascii_ci_contains :: "nat list \<Rightarrow> nat list \<Rightarrow> bool" where
  "ascii_ci_contains haystack needle =
     (if needle = [] then True
      else if length haystack < length needle then False
      else list_ex
        (\<lambda>i. eq_ignore_ascii_case_char (haystack ! i) (needle ! 0) \<and>
             list_all (\<lambda>j. eq_ignore_ascii_case_char (haystack ! (i + j)) (needle ! j))
               [1..<length needle])
        [0..<length haystack - length needle + 1])"

definition ascii_ci_starts_with :: "nat list \<Rightarrow> nat list \<Rightarrow> bool" where
  "ascii_ci_starts_with haystack needle \<longleftrightarrow>
     length needle \<le> length haystack \<and>
     list_all2 eq_ignore_ascii_case_char (take (length needle) haystack) needle"

definition ascii_ci_ends_with :: "nat list \<Rightarrow> nat list \<Rightarrow> bool" where
  "ascii_ci_ends_with haystack needle \<longleftrightarrow>
     length needle \<le> length haystack \<and>
     list_all2 eq_ignore_ascii_case_char (drop (length haystack - length needle) haystack) needle"

definition ascii_ci_equals :: "nat list \<Rightarrow> nat list \<Rightarrow> bool" where
  "ascii_ci_equals haystack needle \<longleftrightarrow>
     length haystack = length needle \<and> list_all2 eq_ignore_ascii_case_char haystack needle"

definition regex_for_literal :: "runtime \<Rightarrow> ustr \<Rightarrow> bool \<Rightarrow> bool \<Rightarrow> ustr" where
  "regex_for_literal R n anchor_start anchor_end =
     str ''(?is)'' @ (if anchor_start then str ''^'' else []) @ rt_regex_escape R n
       @ (if anchor_end then str ''$'' else [])"

definition like_matches :: "runtime \<Rightarrow> like_compiled \<Rightarrow> ustr \<Rightarrow> bool" where
  "like_matches R c text =
     (case c of
        Equals n \<Rightarrow> if is_ascii text then ascii_ci_equals (as_bytes text) (as_bytes n)
                    else rt_regex_is_match R (regex_for_literal R n True True) text
      | StartsWith n \<Rightarrow> if is_ascii text then ascii_ci_starts_with (as_bytes text) (as_bytes n)
                        else rt_regex_is_match R (regex_for_literal R n True False) text
      | EndsWith n \<Rightarrow> if is_ascii text then ascii_ci_ends_with (as_bytes text) (as_bytes n)
                      else rt_regex_is_match R (regex_for_literal R n False True) text
      | Contains n \<Rightarrow> if is_ascii text then ascii_ci_contains (as_bytes text) (as_bytes n)
                      else rt_regex_is_match R (regex_for_literal R n False False) text
      | Regex p \<Rightarrow> rt_regex_is_match R p text)"

definition like_match :: "runtime \<Rightarrow> ustr \<Rightarrow> ustr \<Rightarrow> uchar option \<Rightarrow> bool" where
  "like_match R text pattern escape = like_matches R (like_compile R pattern escape) text"

section \<open>The meaning of a pattern\<close>

text \<open>
  The reference: a pattern consumes the whole text, \<open>%\<close> any sequence, \<open>_\<close> any character, a
  literal a character equal to it under \<open>ci\<close>.
\<close>

fun like_ref :: "(uchar \<Rightarrow> uchar \<Rightarrow> bool) \<Rightarrow> elem list \<Rightarrow> ustr \<Rightarrow> bool" where
  "like_ref ci [] s = (s = [])"
| "like_ref ci (Any # es) [] = like_ref ci es []"
| "like_ref ci (Any # es) (c # s) = (like_ref ci es (c # s) \<or> like_ref ci (Any # es) s)"
| "like_ref ci (One # es) [] = False"
| "like_ref ci (One # es) (c # s) = like_ref ci es s"
| "like_ref ci (Lit x # es) [] = False"
| "like_ref ci (Lit x # es) (c # s) = (ci x c \<and> like_ref ci es s)"

text \<open>Regular expressions: concatenation of items, found anywhere unless anchored.\<close>

fun item_match :: "(uchar \<Rightarrow> uchar \<Rightarrow> bool) \<Rightarrow> elem \<Rightarrow> ustr \<Rightarrow> bool" where
  "item_match ci Any u = True"
| "item_match ci One u = (length u = 1)"
| "item_match ci (Lit x) u = (\<exists>c. u = [c] \<and> ci x c)"

fun items_match :: "(uchar \<Rightarrow> uchar \<Rightarrow> bool) \<Rightarrow> elem list \<Rightarrow> ustr \<Rightarrow> bool" where
  "items_match ci [] s = (s = [])"
| "items_match ci (i # is) s = (\<exists>u v. s = u @ v \<and> item_match ci i u \<and> items_match ci is v)"

definition regex_source :: "runtime \<Rightarrow> bool \<Rightarrow> elem list \<Rightarrow> bool \<Rightarrow> ustr" where
  "regex_source R s is e =
     str ''(?is)'' @ (if s then str ''^'' else []) @ concat (map (regex_item R) is)
       @ (if e then str ''$'' else [])"

definition regex_laws :: "runtime \<Rightarrow> (uchar \<Rightarrow> uchar \<Rightarrow> bool) \<Rightarrow> bool" where
  "regex_laws R ci \<longleftrightarrow>
     (\<forall>s t. rt_regex_escape R (s @ t) = rt_regex_escape R s @ rt_regex_escape R t) \<and>
     (\<forall>text. rt_regex_is_match R [] text) \<and>
     (\<forall>s is e text. rt_regex_is_match R (regex_source R s is e) text \<longleftrightarrow>
        (\<exists>pre mid post. text = pre @ mid @ post \<and> (s \<longrightarrow> pre = []) \<and> (e \<longrightarrow> post = []) \<and>
           items_match ci is mid)) \<and>
     (\<forall>x c. is_ascii_char x \<longrightarrow> is_ascii_char c \<longrightarrow> ci x c = eq_ignore_ascii_case_char x c)"

lemma like_ref_Any: "like_ref ci (Any # es) s \<longleftrightarrow> (\<exists>u v. s = u @ v \<and> like_ref ci es v)"
proof (induction s)
  case (Cons c s)
  then show ?case
    by (auto simp: Cons_eq_append_conv)
qed simp

lemma split_one:
  "(\<exists>u v. s = u @ v \<and> length u = 1 \<and> P v) \<longleftrightarrow> (\<exists>c r. s = c # r \<and> P r)" (is "?l \<longleftrightarrow> ?r")
proof
  assume ?l
  then obtain u v where "s = u @ v" "length u = 1" "P v"
    by blast
  then show ?r
    by (cases u) auto
next
  assume ?r
  then obtain c r where "s = [c] @ r" "P r"
    by auto
  then show ?l
    by (metis One_nat_def length_Cons list.size(3))
qed

lemma like_ref_items: "like_ref ci es s \<longleftrightarrow> items_match ci es s"
proof (induction es arbitrary: s)
  case (Cons e es)
  show ?case
  proof (cases e)
    case Any
    then show ?thesis
      using Cons like_ref_Any by simp
  next
    case One
    have "items_match ci (One # es) s \<longleftrightarrow> (\<exists>c r. s = c # r \<and> items_match ci es r)"
      by (simp only: items_match.simps item_match.simps split_one)
    then show ?thesis
      unfolding One by (cases s) (simp_all only: like_ref.simps Cons, auto)
  next
    case (Lit x)
    have "items_match ci (Lit x # es) s \<longleftrightarrow> (\<exists>c r. s = c # r \<and> ci x c \<and> items_match ci es r)"
      unfolding items_match.simps item_match.simps by (metis append_Cons append_Nil)
    then show ?thesis
      unfolding Lit by (cases s) (simp_all only: like_ref.simps Cons, auto)
  qed
qed simp

lemma like_ref_append:
  "like_ref ci (es @ fs) s \<longleftrightarrow> (\<exists>u v. s = u @ v \<and> like_ref ci es u \<and> like_ref ci fs v)"
  unfolding like_ref_items
proof (induction es arbitrary: s)
  case (Cons e es)
  have "items_match ci ((e # es) @ fs) s \<longleftrightarrow>
    (\<exists>u u' v. s = u @ u' @ v \<and> item_match ci e u \<and> items_match ci es u' \<and> items_match ci fs v)"
    unfolding append_Cons items_match.simps Cons by blast
  also have "\<dots> \<longleftrightarrow> (\<exists>w v. s = w @ v \<and> items_match ci (e # es) w \<and> items_match ci fs v)"
    unfolding items_match.simps by (metis append.assoc)
  finally show ?case .
qed simp

lemma like_ref_lits: "like_ref ci (map Lit n) s \<longleftrightarrow> list_all2 ci n s"
proof (induction n arbitrary: s)
  case (Cons x n)
  then show ?case
    by (cases s) auto
qed simp

lemma lit_run_ascii_Some: "lit_run_ascii es = Some n \<longleftrightarrow> es = map Lit n \<and> is_ascii n"
proof (induction es arbitrary: n rule: lit_run_ascii.induct)
  case (2 c es)
  then show ?case
    by (cases n) auto
qed (auto simp: Cons_eq_map_conv)

lemma like_ref_found:
  "like_ref ci ((if s then [] else [Any]) @ is @ (if e then [] else [Any])) text \<longleftrightarrow>
   (\<exists>pre mid post. text = pre @ mid @ post \<and> (s \<longrightarrow> pre = []) \<and> (e \<longrightarrow> post = []) \<and> items_match ci is mid)"
proof -
  have any: "like_ref ci [Any] u" for u
    by (simp add: like_ref_Any)
  show ?thesis
    unfolding like_ref_items [symmetric] like_ref_append using any
    by (cases s; cases e) auto
qed

section \<open>The fast paths\<close>

lemma eqic_sym: "eq_ignore_ascii_case_char a b = eq_ignore_ascii_case_char b a"
  by (auto simp: eq_ignore_ascii_case_char_def)

abbreviation eqic_list :: "nat list \<Rightarrow> nat list \<Rightarrow> bool" where
  "eqic_list \<equiv> list_all2 eq_ignore_ascii_case_char"

lemma starts_with_iff: "ascii_ci_starts_with h n \<longleftrightarrow> (\<exists>u v. h = u @ v \<and> eqic_list u n)"
proof
  assume "ascii_ci_starts_with h n"
  then show "\<exists>u v. h = u @ v \<and> eqic_list u n"
    unfolding ascii_ci_starts_with_def by (metis append_take_drop_id)
next
  assume "\<exists>u v. h = u @ v \<and> eqic_list u n"
  then obtain u v where "h = u @ v" "eqic_list u n" "length u = length n"
    using list_all2_lengthD by blast
  then show "ascii_ci_starts_with h n"
    by (simp add: ascii_ci_starts_with_def)
qed

lemma ends_with_iff: "ascii_ci_ends_with h n \<longleftrightarrow> (\<exists>u v. h = u @ v \<and> eqic_list v n)"
proof
  assume "ascii_ci_ends_with h n"
  then show "\<exists>u v. h = u @ v \<and> eqic_list v n"
    unfolding ascii_ci_ends_with_def by (metis append_take_drop_id)
next
  assume "\<exists>u v. h = u @ v \<and> eqic_list v n"
  then obtain u v where "h = u @ v" "eqic_list v n" "length v = length n"
    using list_all2_lengthD by blast
  then show "ascii_ci_ends_with h n"
    by (simp add: ascii_ci_ends_with_def)
qed

lemma contains_position:
  assumes "n \<noteq> []" "i + length n \<le> length h"
  shows "eq_ignore_ascii_case_char (h ! i) (n ! 0) \<and>
      list_all (\<lambda>j. eq_ignore_ascii_case_char (h ! (i + j)) (n ! j)) [1..<length n] \<longleftrightarrow>
    eqic_list (take (length n) (drop i h)) n"
proof -
  have "length (take (length n) (drop i h)) = length n"
    using assms(2) by simp
  then have all: "eqic_list (take (length n) (drop i h)) n \<longleftrightarrow>
    (\<forall>j<length n. eq_ignore_ascii_case_char (h ! (i + j)) (n ! j))"
    using assms(2) by (simp add: list_all2_conv_all_nth del: length_take length_drop)
  have "{..<length n} = insert 0 (set [1..<length n])"
    using assms(1) by (cases n) auto
  then have "(\<forall>j<length n. P j) \<longleftrightarrow> P 0 \<and> (\<forall>j \<in> set [1..<length n]. P j)" for P
    unfolding lessThan_iff [symmetric] Ball_def [symmetric] by simp
  from this [of "\<lambda>j. eq_ignore_ascii_case_char (h ! (i + j)) (n ! j)"] show ?thesis
    unfolding all by (simp add: list_all_iff)
qed

lemma contains_iff:
  "ascii_ci_contains h n \<longleftrightarrow> (\<exists>pre mid post. h = pre @ mid @ post \<and> eqic_list mid n)"
proof (cases "n = []")
  case True
  then show ?thesis
    by (auto simp: ascii_ci_contains_def)
next
  case False
  have idx: "\<not> length h < length n \<Longrightarrow> i < length h - length n + 1 \<longleftrightarrow> i + length n \<le> length h" for i
    by linarith
  have ex: "list_ex P [0..<k] \<longleftrightarrow> (\<exists>i. i < k \<and> P i)" for P k
    by (auto simp: list_ex_iff)
  have "ascii_ci_contains h n \<longleftrightarrow>
    (\<exists>i. i + length n \<le> length h \<and> eqic_list (take (length n) (drop i h)) n)"
  proof (cases "length h < length n")
    case True
    then show ?thesis
      using False by (simp add: ascii_ci_contains_def)
  next
    case le: False
    show ?thesis
      unfolding ascii_ci_contains_def if_not_P [OF False] if_not_P [OF le] ex
      by (intro ex_cong1 conj_cong idx [OF le] contains_position [OF False])
  qed
  also have "\<dots> \<longleftrightarrow> (\<exists>pre mid post. h = pre @ mid @ post \<and> eqic_list mid n)"
  proof
    assume "\<exists>i. i + length n \<le> length h \<and> eqic_list (take (length n) (drop i h)) n"
    then show "\<exists>pre mid post. h = pre @ mid @ post \<and> eqic_list mid n"
      by (metis append_take_drop_id)
  next
    assume "\<exists>pre mid post. h = pre @ mid @ post \<and> eqic_list mid n"
    then obtain pre mid post where "h = pre @ mid @ post" "eqic_list mid n" "length mid = length n"
      using list_all2_lengthD by blast
    then show "\<exists>i. i + length n \<le> length h \<and> eqic_list (take (length n) (drop i h)) n"
      by (intro exI [of _ "length pre"]) simp
  qed
  finally show ?thesis .
qed

section \<open>Correctness\<close>

text \<open>Every shape is the search of its literal or body, anchored where the pattern has no \<open>%\<close>.\<close>

definition like_parts :: "bool \<Rightarrow> elem list \<Rightarrow> bool \<Rightarrow> elem list" where
  "like_parts s body e = (if s then [] else [Any]) @ body @ (if e then [] else [Any])"

lemma build_inner_cases:
  assumes "build_inner R es = c"
  obtains (equals) n where "c = Equals n" "es = like_parts True (map Lit n) True" "is_ascii n"
    | (starts) n where "c = StartsWith n" "es = like_parts True (map Lit n) False" "is_ascii n"
    | (ends) n where "c = EndsWith n" "es = like_parts False (map Lit n) True" "is_ascii n"
    | (contains) n where "c = Contains n" "es = like_parts False (map Lit n) False" "is_ascii n"
    | (regex) s body e where "c = Regex (regex_source R s body e)" "es = like_parts s body e"
    | (all) "c = Regex []" "es = [Any]"
proof -
  have shape: "es = like_parts (\<not> starts_pct es) (if \<not> starts_pct es \<and> \<not> ends_pct es then es
        else if starts_pct es \<and> \<not> ends_pct es then tl es
        else if \<not> starts_pct es \<and> ends_pct es then butlast es else butlast (tl es)) (\<not> ends_pct es)
      \<or> (starts_pct es \<and> ends_pct es \<and> es = [Any])"
  proof (cases es)
    case (Cons x xs)
    then show ?thesis
      using append_butlast_last_id [of xs]
      by (cases "xs = []"; cases "x = Any"; cases "last xs = Any")
         (simp_all add: like_parts_def starts_pct_def ends_pct_def)
  qed (simp add: like_parts_def starts_pct_def ends_pct_def)
  have two: "starts_pct es \<Longrightarrow> ends_pct es \<Longrightarrow> es \<noteq> [Any] \<Longrightarrow> \<not> length es < 2"
    by (cases es) (auto simp: starts_pct_def)
  show thesis
  proof (cases "starts_pct es \<and> ends_pct es \<and> es = [Any]")
    case True
    then show ?thesis
      using assms all by (simp add: build_inner_def build_regex_def starts_pct_def ends_pct_def)
  next
    case False
    define s e where se: "s = (\<not> starts_pct es)" "e = (\<not> ends_pct es)"
    define body where "body = (if s \<and> e then es else if \<not> s \<and> e then tl es
        else if s \<and> \<not> e then butlast es else butlast (tl es))"
    have es: "es = like_parts s body e"
      using shape False by (auto simp: se body_def)
    have n1: "\<not> (s \<and> e) \<Longrightarrow> 1 \<le> length es"
      by (cases es) (auto simp: se starts_pct_def ends_pct_def)
    have c: "c = (case lit_run_ascii body of
        Some n \<Rightarrow> (if s \<and> e then Equals n else if s then StartsWith n else if e then EndsWith n else Contains n)
      | None \<Rightarrow> Regex (regex_source R s body e))"
      using assms False two n1
      by (cases s; cases e)
         (auto simp: build_inner_def build_regex_def regex_source_def body_def se Let_def not_less
           split: option.split)
    show ?thesis
    proof (cases "lit_run_ascii body")
      case None
      then show ?thesis
        using c es regex by simp
    next
      case (Some n)
      then have "body = map Lit n" "is_ascii n"
        by (simp_all add: lit_run_ascii_Some)
      then show ?thesis
        using c es Some equals starts ends contains by (cases s; cases e) auto
    qed
  qed
qed

lemma regex_lawsD:
  assumes "regex_laws R ci"
  shows "rt_regex_escape R (s @ t) = rt_regex_escape R s @ rt_regex_escape R t"
    "rt_regex_is_match R [] text"
    "rt_regex_is_match R (regex_source R a body b) text \<longleftrightarrow> like_ref ci (like_parts a body b) text"
    "is_ascii_char x \<Longrightarrow> is_ascii_char c \<Longrightarrow> ci x c = eq_ignore_ascii_case_char x c"
  using assms by (simp_all only: regex_laws_def like_parts_def like_ref_found simp_thms)

lemma regex_for_literal_source:
  assumes "regex_laws R ci"
  shows "regex_for_literal R n s e = regex_source R s (map Lit n) e"
proof -
  have "rt_regex_escape R [] = []"
    using regex_lawsD(1) [OF assms, of "[]" "[]"] by simp
  then have "concat (map (regex_item R) (map Lit n)) = rt_regex_escape R n"
  proof (induction n)
    case (Cons x n)
    then show ?case
      using regex_lawsD(1) [OF assms, of "[x]" n] by (simp add: regex_item_def [of R "Lit x"])
  qed simp
  then show ?thesis
    by (simp add: regex_for_literal_def regex_source_def del: map_map)
qed

lemma ci_ascii:
  assumes "regex_laws R ci" "is_ascii n" "is_ascii u"
  shows "list_all2 ci n u \<longleftrightarrow> eqic_list u n"
proof -
  have "list_all2 ci n u \<longleftrightarrow> list_all2 eq_ignore_ascii_case_char n u"
    using assms(2,3) regex_lawsD(4) [OF assms(1)]
    by (induction n arbitrary: u) (auto simp: list_all2_Cons1)
  also have "\<dots> \<longleftrightarrow> eqic_list u n"
    by (auto simp: list_all2_conv_all_nth eqic_sym)
  finally show ?thesis .
qed

lemma like_ref_literal:
  assumes "regex_laws R ci" "is_ascii n" "is_ascii s"
  shows "like_ref ci (like_parts a (map Lit n) b) s \<longleftrightarrow>
    (\<exists>pre mid post. s = pre @ mid @ post \<and> (a \<longrightarrow> pre = []) \<and> (b \<longrightarrow> post = []) \<and> eqic_list mid n)"
  unfolding like_parts_def like_ref_found like_ref_items [symmetric] like_ref_lits
proof (intro ex_cong1 conj_cong refl)
  fix pre mid post
  assume "s = pre @ mid @ post"
  then show "list_all2 ci n mid = eqic_list mid n"
    using assms(3) by (intro ci_ascii [OF assms(1,2)]) simp
qed

lemma like_matches_ref:
  assumes laws: "regex_laws R ci"
  shows "like_matches R (build_inner R es) s \<longleftrightarrow> like_ref ci es s"
proof -
  note defs = like_matches_def regex_for_literal_source [OF laws] regex_lawsD(2,3) [OF laws]
  from refl [of "build_inner R es"] show ?thesis
  proof (cases rule: build_inner_cases)
    case (equals n)
    then show ?thesis
      using list_all2_lengthD [of eq_ignore_ascii_case_char s n]
      by (cases "is_ascii s") (auto simp: defs ascii_ci_equals_def like_ref_literal [OF laws])
  next
    case (starts n)
    then show ?thesis
      by (cases "is_ascii s") (simp_all add: defs starts_with_iff like_ref_literal [OF laws])
  next
    case (ends n)
    then show ?thesis
      by (cases "is_ascii s") (simp_all add: defs ends_with_iff like_ref_literal [OF laws])
  next
    case (contains n)
    then show ?thesis
      by (cases "is_ascii s") (simp_all add: defs contains_iff like_ref_literal [OF laws])
  qed (simp_all add: defs like_ref_Any)
qed

section \<open>A regular-expression engine for the patterns built here\<close>

text \<open>Reads back the text of a pattern whose literals are all escaped with a backslash.\<close>

fun parse_items :: "ustr \<Rightarrow> elem list \<times> bool" where
  "parse_items (c # d # cs) =
     (if c = ch CHR 0x5C then (case parse_items cs of (is, e) \<Rightarrow> (Lit d # is, e))
      else if c = ch CHR ''.'' \<and> d = ch CHR ''*''
      then (case parse_items cs of (is, e) \<Rightarrow> (Any # is, e))
      else if c = ch CHR ''.'' then (case parse_items (d # cs) of (is, e) \<Rightarrow> (One # is, e))
      else ([], True))"
| "parse_items [c] = (if c = ch CHR ''.'' then ([One], False) else ([], True))"
| "parse_items [] = ([], False)"

definition simple_is_match :: "ustr \<Rightarrow> ustr \<Rightarrow> bool" where
  "simple_is_match p s =
     (if p = [] then True
      else let r = drop 5 p;
               a = (r \<noteq> [] \<and> hd r = ch CHR ''^'');
               (is, b) = parse_items (if a then tl r else r)
           in like_ref eq_ignore_ascii_case_char (like_parts a is b) s)"

definition regex_runtime :: runtime where
  "regex_runtime = ascii_runtime\<lparr>rt_regex_is_match := simple_is_match\<rparr>"

lemma regex_runtime_item:
  "regex_item regex_runtime Any = [46, 42]" "regex_item regex_runtime One = [46]"
  "regex_item regex_runtime (Lit c) = [92, c]"
  by (simp_all add: regex_item_def regex_runtime_def ascii_runtime_def)

definition source_tail :: "elem list \<Rightarrow> bool \<Rightarrow> ustr" where
  "source_tail is e = concat (map (regex_item regex_runtime) is) @ (if e then str ''$'' else [])"

lemma source_tail_simps:
  "source_tail [] e = (if e then [36] else [])"
  "source_tail (i # is) e = regex_item regex_runtime i @ source_tail is e"
  by (simp_all add: source_tail_def)

lemma source_tail_hd: "source_tail is e = c # u \<Longrightarrow> c = 36 \<or> c = 46 \<or> c = 92"
  by (cases "is"; cases "hd is") (auto simp: source_tail_simps regex_runtime_item split: if_splits)

lemma parse_items_source: "parse_items (source_tail is e) = (is, e)"
proof (induction "is")
  case (Cons i "is")
  show ?case
  proof (cases i)
    case One
    show ?thesis
    proof (cases "source_tail is e")
      case Nil
      then show ?thesis
        using Cons One by (simp add: source_tail_simps regex_runtime_item)
    next
      case (Cons c u)
      moreover have "c \<noteq> 42"
        using source_tail_hd [OF Cons] by auto
      ultimately show ?thesis
        using \<open>parse_items (source_tail is e) = (is, e)\<close> One
        by (simp add: source_tail_simps regex_runtime_item)
    qed
  qed (use Cons in \<open>simp_all add: source_tail_simps regex_runtime_item\<close>)
qed (simp add: source_tail_simps)

lemma simple_is_match_source:
  "simple_is_match (regex_source regex_runtime a is e) s \<longleftrightarrow>
   like_ref eq_ignore_ascii_case_char (like_parts a is e) s"
proof -
  have t: "regex_source regex_runtime a is e = str ''(?is)'' @ (if a then [94] else []) @ source_tail is e"
    by (simp add: regex_source_def source_tail_def)
  have "\<not> (source_tail is e \<noteq> [] \<and> hd (source_tail is e) = 94)"
    using source_tail_hd [of "is" e] by (cases "source_tail is e") auto
  then show ?thesis
    unfolding t using parse_items_source [of "is" e] by (auto simp: simple_is_match_def Let_def)
qed

lemma regex_runtime_simps:
  "rt_regex_is_match regex_runtime = simple_is_match"
  "rt_regex_escape regex_runtime s = concat (map (\<lambda>c. [92, c]) s)"
  "rt_char_lower regex_runtime c = [to_ascii_lowercase c]"
  by (simp_all add: regex_runtime_def ascii_runtime_def)

lemma regex_runtime_laws: "regex_laws regex_runtime eq_ignore_ascii_case_char"
  unfolding regex_laws_def like_ref_found [symmetric] like_parts_def [symmetric]
  by (simp add: regex_runtime_simps simple_is_match_source) (auto simp: simple_is_match_def)

section \<open>Properties\<close>

text \<open>C26: LIKE means what its pattern says, on every text: whichever of the anchored byte
  comparisons or the regular expression the compiler picks, and whether or not the text is
  ASCII, the answer is that of the reference matcher, given the documented meaning of the
  regular expressions used.\<close>

theorem like_match_correct:
  assumes "regex_laws R ci"
  shows "like_match R s pattern escape \<longleftrightarrow>
    like_ref ci (like_elems R (map_option to_ascii_lowercase escape) pattern) s"
  using like_matches_ref [OF assms] by (simp add: like_match_def like_compile_def)

theorem like_match_correct_witness:
  "regex_laws regex_runtime eq_ignore_ascii_case_char \<and>
   like_match regex_runtime (str ''Harry'') (str ''h_R%'') None"
proof -
  have "like_match regex_runtime (str ''Harry'') (str ''h_R%'') None \<longleftrightarrow>
    like_ref eq_ignore_ascii_case_char (like_elems regex_runtime None (str ''h_R%'')) (str ''Harry'')"
    using like_match_correct [OF regex_runtime_laws, of _ _ None] by simp
  then show ?thesis
    by (simp add: regex_runtime_laws lower_def regex_runtime_simps to_ascii_lowercase_def
        eq_ignore_ascii_case_char_def)
qed





end
