(* ===== verification/Ast.thy ===== *)
theory Ast
  imports Functions Like
begin

text \<open>
  The syntax tree of a query (\<open>cfml-qoq/src/ast.rs\<close>) and the two analyses the engine runs on it
  before executing (\<open>execution.rs\<close>): whether rows may be evaluated in parallel, and the list of
  the tables the statement names.

  The types of expressions and of SELECT cores are parameterised by the type \<open>'sel\<close> of the
  nested sub-selects. A statement ties the knot, and a function on statements is a primitive
  recursion that first replaces each nested sub-select by the function's result on it.
\<close>

section \<open>The tree\<close>

datatype binary_op =
    Eq | Neq | Lt | Lte | Gt | Gte | And | Or | Add | Sub | Mul | Div | Mod | Concat
  | BitAnd | BitOr | BitXor

datatype unary_op = Not_op | Neg | Plus

datatype param_ref = Positional nat | Named_param ustr

datatype 'sel expr =
    Star "ustr option"
  | Column "ustr option" ustr
  | ResolvedColumn "32 word" "32 word" ustr
  | Literal cfml_value
  | Binary "'sel expr" binary_op "'sel expr"
  | Unary unary_op "'sel expr"
  | Function ustr "'sel expr list" bool
  | Case "'sel expr option" "('sel expr \<times> 'sel expr) list" "'sel expr option"
  | Cast "'sel expr" ustr
  | IsNull "'sel expr" bool
  | InList "'sel expr" bool "'sel expr list"
  | InSubquery "'sel expr" bool 'sel
  | Between "'sel expr" bool "'sel expr" "'sel expr"
  | Like "'sel expr" bool "'sel expr" "'sel expr option" "like_compiled option"
  | ScalarSubquery 'sel
  | Param param_ref

datatype 'sel select_column = SelectColumn (sc_expr: "'sel expr") (sc_alias: "ustr option")

datatype 'sel table_ref =
    Named ustr "ustr option"
  | Derived 'sel ustr

datatype join_type = Inner | Left | Right | Full | Cross

datatype 'sel join_clause =
  JoinClause (jn_type: join_type) (jn_table: "'sel table_ref") (jn_on: "'sel expr option")

datatype sort_direction = Asc | Desc

datatype 'sel order_by_expr = OrderByExpr (ob_expr: "'sel expr") (ob_direction: sort_direction)

datatype limit_clause = LimitClause (lm_offset: nat) (lm_count: nat)

datatype 'sel select_core =
  SelectCore (co_distinct: bool) (co_top: "nat option") (co_columns: "'sel select_column list")
    (co_from: "'sel table_ref option") (co_joins: "'sel join_clause list")
    (co_where: "'sel expr option") (co_group_by: "'sel expr list") (co_having: "'sel expr option")

datatype 'sel union_arm = Union_arm (un_all: bool) (un_select: "'sel select_core")

datatype select_statement =
  SelectStatement (st_body: "select_statement select_core")
    (st_unions: "select_statement union_arm list")
    (st_order_by: "select_statement order_by_expr list") (st_limit: "limit_clause option")

section \<open>Purity\<close>

primrec expr_is_pure :: "runtime \<Rightarrow> registry \<Rightarrow> 'sel expr \<Rightarrow> bool" where
  "expr_is_pure R reg (Function name args d) =
     (get_custom R reg name = None \<and> rg_dynamics reg (rt_lower R name) = None \<and>
      list_all id (map (expr_is_pure R reg) args))"
| "expr_is_pure R reg (ScalarSubquery q) = False"
| "expr_is_pure R reg (InSubquery e n q) = False"
| "expr_is_pure R reg (Binary l op r) = (expr_is_pure R reg l \<and> expr_is_pure R reg r)"
| "expr_is_pure R reg (Unary op e) = expr_is_pure R reg e"
| "expr_is_pure R reg (Cast e ty) = expr_is_pure R reg e"
| "expr_is_pure R reg (IsNull e n) = expr_is_pure R reg e"
| "expr_is_pure R reg (Case operand whens els) =
     (pred_option id (map_option (expr_is_pure R reg) operand) \<and>
      list_all (\<lambda>(w, t). w \<and> t) (map (map_prod (expr_is_pure R reg) (expr_is_pure R reg)) whens) \<and>
      pred_option id (map_option (expr_is_pure R reg) els))"
| "expr_is_pure R reg (InList e n es) =
     (expr_is_pure R reg e \<and> list_all id (map (expr_is_pure R reg) es))"
| "expr_is_pure R reg (Between e n lo hi) =
     (expr_is_pure R reg e \<and> expr_is_pure R reg lo \<and> expr_is_pure R reg hi)"
| "expr_is_pure R reg (Like e n p esc c) =
     (expr_is_pure R reg e \<and> expr_is_pure R reg p \<and>
      pred_option id (map_option (expr_is_pure R reg) esc))"
| "expr_is_pure R reg (Star t) = True"
| "expr_is_pure R reg (Column t n) = True"
| "expr_is_pure R reg (ResolvedColumn ti ci n) = True"
| "expr_is_pure R reg (Literal v) = True"
| "expr_is_pure R reg (Param p) = True"

fun tableref_is_pure :: "'sel table_ref \<Rightarrow> bool" where
  "tableref_is_pure (Named n a) = True"
| "tableref_is_pure (Derived q a) = False"

definition core_is_pure :: "runtime \<Rightarrow> registry \<Rightarrow> 'sel select_core \<Rightarrow> bool" where
  "core_is_pure R reg c \<longleftrightarrow>
     pred_option tableref_is_pure (co_from c) \<and>
     list_all (\<lambda>j. tableref_is_pure (jn_table j) \<and> pred_option (expr_is_pure R reg) (jn_on j)) (co_joins c) \<and>
     pred_option (expr_is_pure R reg) (co_where c) \<and>
     list_all (expr_is_pure R reg) (co_group_by c) \<and>
     pred_option (expr_is_pure R reg) (co_having c) \<and>
     list_all (\<lambda>col. expr_is_pure R reg (sc_expr col)) (co_columns c)"

definition select_is_pure :: "runtime \<Rightarrow> registry \<Rightarrow> select_statement \<Rightarrow> bool" where
  "select_is_pure R reg s \<longleftrightarrow>
     core_is_pure R reg (st_body s) \<and>
     list_all (\<lambda>u. core_is_pure R reg (un_select u)) (st_unions s) \<and>
     list_all (\<lambda>ob. expr_is_pure R reg (ob_expr ob)) (st_order_by s)"

definition is_parallel_safe :: "runtime \<Rightarrow> registry \<Rightarrow> select_statement \<Rightarrow> bool" where
  "is_parallel_safe R reg s = select_is_pure R reg s"

section \<open>Base table names\<close>

text \<open>The walk threads the list of names found and the set of their lower-case spellings. In a
  tree that is walked, each nested sub-select stands for the walk over it.\<close>

type_synonym names = "ustr list \<times> ustr set"

type_synonym walk = "names \<Rightarrow> names"

primrec walk_expr :: "walk expr \<Rightarrow> walk" where
  "walk_expr (Binary l op r) = walk_expr r \<circ> walk_expr l"
| "walk_expr (Unary op e) = walk_expr e"
| "walk_expr (Function name args d) = fold id (map walk_expr args)"
| "walk_expr (Case operand whens els) =
     case_option id id (map_option walk_expr els)
     \<circ> fold (\<lambda>(w, t). t \<circ> w) (map (map_prod walk_expr walk_expr) whens)
     \<circ> case_option id id (map_option walk_expr operand)"
| "walk_expr (Cast e ty) = walk_expr e"
| "walk_expr (IsNull e n) = walk_expr e"
| "walk_expr (InList e n es) = fold id (map walk_expr es) \<circ> walk_expr e"
| "walk_expr (InSubquery e n q) = q \<circ> walk_expr e"
| "walk_expr (Between e n lo hi) = walk_expr hi \<circ> walk_expr lo \<circ> walk_expr e"
| "walk_expr (Like e n p esc c) =
     case_option id id (map_option walk_expr esc) \<circ> walk_expr p \<circ> walk_expr e"
| "walk_expr (ScalarSubquery q) = q"
| "walk_expr (Star t) = id"
| "walk_expr (Column t n) = id"
| "walk_expr (ResolvedColumn ti ci n) = id"
| "walk_expr (Literal v) = id"
| "walk_expr (Param p) = id"

fun walk_tableref :: "runtime \<Rightarrow> walk table_ref \<Rightarrow> walk" where
  "walk_tableref R (Named name a) (out, seen) =
     (if rt_lower R name \<in> seen then (out, seen) else (out @ [name], insert (rt_lower R name) seen))"
| "walk_tableref R (Derived q a) st = q st"

definition walk_join :: "runtime \<Rightarrow> walk join_clause \<Rightarrow> walk" where
  "walk_join R j = case_option id walk_expr (jn_on j) \<circ> walk_tableref R (jn_table j)"

definition walk_core :: "runtime \<Rightarrow> walk select_core \<Rightarrow> walk" where
  "walk_core R c =
     fold (\<lambda>col. walk_expr (sc_expr col)) (co_columns c)
     \<circ> case_option id walk_expr (co_having c)
     \<circ> fold walk_expr (co_group_by c)
     \<circ> case_option id walk_expr (co_where c)
     \<circ> fold (walk_join R) (co_joins c)
     \<circ> case_option id (walk_tableref R) (co_from c)"

primrec walk_select :: "runtime \<Rightarrow> select_statement \<Rightarrow> walk" where
  "walk_select R (SelectStatement body us ob lim) =
     fold (\<lambda>o1. walk_expr (ob_expr o1)) (map (map_order_by_expr (walk_select R)) ob)
     \<circ> fold (\<lambda>u. walk_core R (un_select u)) (map (map_union_arm (walk_select R)) us)
     \<circ> walk_core R (map_select_core (walk_select R) body)"

definition base_table_names :: "runtime \<Rightarrow> select_statement \<Rightarrow> ustr list" where
  "base_table_names R s = fst (walk_select R s ([], {}))"

section \<open>Lemmas on the walk\<close>

text \<open>What the list of base tables has to contain: a statement mentions a table when one of its
  cores names it in FROM or in a JOIN, or a sub-select nested anywhere in it mentions it.\<close>

fun ref_names :: "'sel table_ref \<Rightarrow> ustr set" where
  "ref_names (Named n a) = {n}"
| "ref_names (Derived q a) = {}"

definition core_names :: "'sel select_core \<Rightarrow> ustr set" where
  "core_names c =
     (case co_from c of None \<Rightarrow> {} | Some t \<Rightarrow> ref_names t) \<union> (\<Union>j \<in> set (co_joins c). ref_names (jn_table j))"

definition cores :: "select_statement \<Rightarrow> select_statement select_core set" where
  "cores s = insert (st_body s) (un_select ` set (st_unions s))"

definition subselects :: "select_statement \<Rightarrow> select_statement set" where
  "subselects s = (\<Union>c \<in> cores s. set_select_core c) \<union> (\<Union>ob \<in> set (st_order_by s). set_order_by_expr ob)"

inductive mentions :: "select_statement \<Rightarrow> ustr \<Rightarrow> bool" where
  direct: "c \<in> cores s \<Longrightarrow> n \<in> core_names c \<Longrightarrow> mentions s n"
| nested: "q \<in> subselects s \<Longrightarrow> mentions q n \<Longrightarrow> mentions s n"

text \<open>A walk that collects the names of \<open>A\<close>, each once up to case.\<close>

definition collects :: "runtime \<Rightarrow> ustr set \<Rightarrow> walk \<Rightarrow> bool" where
  "collects R A w \<longleftrightarrow>
     (\<forall>out. distinct (map (rt_lower R) out) \<longrightarrow>
        (\<exists>out'. w (out, rt_lower R ` set out) = (out', rt_lower R ` set out') \<and>
           distinct (map (rt_lower R) out') \<and> set out \<subseteq> set out' \<and> set out' \<subseteq> set out \<union> A \<and>
           rt_lower R ` set out' = rt_lower R ` (set out \<union> A)))"

named_theorems walking \<open>walks that collect\<close>

lemma collects_id [walking]: "collects R {} id"
  by (simp add: collects_def)

lemma collects_comp [walking]:
  assumes "collects R A v" "collects R B w"
  shows "collects R (A \<union> B) (w \<circ> v)"
  unfolding collects_def
proof (intro allI impI)
  fix out
  assume d: "distinct (map (rt_lower R) out)"
  obtain o1 where o1: "v (out, rt_lower R ` set out) = (o1, rt_lower R ` set o1)"
    "distinct (map (rt_lower R) o1)" "set out \<subseteq> set o1" "set o1 \<subseteq> set out \<union> A"
    "rt_lower R ` set o1 = rt_lower R ` (set out \<union> A)"
    using assms(1) d unfolding collects_def by blast
  obtain o2 where o2: "w (o1, rt_lower R ` set o1) = (o2, rt_lower R ` set o2)"
    "distinct (map (rt_lower R) o2)" "set o1 \<subseteq> set o2" "set o2 \<subseteq> set o1 \<union> B"
    "rt_lower R ` set o2 = rt_lower R ` (set o1 \<union> B)"
    using assms(2) o1(2) unfolding collects_def by blast
  show "\<exists>out'. (w \<circ> v) (out, rt_lower R ` set out) = (out', rt_lower R ` set out') \<and>
      distinct (map (rt_lower R) out') \<and> set out \<subseteq> set out' \<and> set out' \<subseteq> set out \<union> (A \<union> B) \<and>
      rt_lower R ` set out' = rt_lower R ` (set out \<union> (A \<union> B))"
    using o1 o2 by (intro exI [of _ o2]) (auto simp: image_Un)
qed

lemma collects_fold [walking]:
  "(\<And>x. x \<in> set xs \<Longrightarrow> collects R (A x) (f x)) \<Longrightarrow> collects R (\<Union>x \<in> set xs. A x) (fold f xs)"
proof (induction xs)
  case (Cons x xs)
  then show ?case
    using collects_comp [of R "A x" "f x" "\<Union>x \<in> set xs. A x" "fold f xs"] by (simp add: comp_def)
qed (simp add: collects_id [unfolded id_def] id_def)

lemma collects_option [walking]:
  "(\<And>x. x \<in> set_option ox \<Longrightarrow> collects R (A x) (f x)) \<Longrightarrow>
   collects R (\<Union>x \<in> set_option ox. A x) (case_option id f ox)"
  using collects_id by (cases ox) simp_all

lemma collects_cong: "collects R A w \<Longrightarrow> A = B \<Longrightarrow> collects R B w"
  by simp

lemma collects_expr:
  fixes e :: "'sel expr"
  assumes "\<forall>q \<in> set_expr e. collects R (A q) (f q)"
  shows "collects R (\<Union>q \<in> set_expr e. A q) (walk_expr (map_expr f e))"
proof -
  let ?W = "\<lambda>e. walk_expr (map_expr f e)" and ?A = "\<lambda>e :: 'sel expr. \<Union>q \<in> set_expr e. A q"
  show ?thesis
    using assms
  proof (induction e)
    case (Function n args d)
    have "collects R (\<Union>e \<in> set args. ?A e) (fold ?W args)"
      by (rule collects_fold, rule Function.IH) (use Function.prems in \<open>simp_all add: Ball_def, blast\<close>)
    then show ?case
      by (simp add: fold_map comp_def)
  next
    case (InList e n es)
    have "collects R (?A e \<union> (\<Union>e \<in> set es. ?A e)) (fold ?W es \<circ> ?W e)"
      by (rule collects_comp, rule InList.IH, use InList.prems in simp, rule collects_fold, rule InList.IH)
        (use InList.prems in \<open>simp_all add: Ball_def, blast\<close>)
    then show ?case
      by (simp add: fold_map comp_def UN_Un)
  next
    case (Case operand whens els)
    have o: "collects R (\<Union>e \<in> set_option operand. ?A e) (case_option id ?W operand)"
      using Case.prems by (cases operand) (simp_all add: Case.IH(1) collects_id)
    have e: "collects R (\<Union>e \<in> set_option els. ?A e) (case_option id ?W els)"
      using Case.prems by (cases els) (simp_all add: Case.IH(4) collects_id)
    have sub: "\<forall>q \<in> set_expr x. collects R (A q) (f q)" if "p \<in> set whens" "x = fst p \<or> x = snd p" for p x
    proof -
      have "set_expr x \<subseteq> set_expr (Case operand whens els)"
        using that by (auto simp: prod_set_defs)
      with Case.prems show ?thesis by blast
    qed
    have pair: "collects R (?A (fst p) \<union> ?A (snd p)) (?W (snd p) \<circ> ?W (fst p))" if "p \<in> set whens" for p
      using sub [OF that, of "fst p"] sub [OF that, of "snd p"] that
      by (intro collects_comp Case.IH(2) [of p "fst p"] Case.IH(3) [of p "snd p"]) (simp_all add: prod_set_defs)
    have w: "collects R (\<Union>p \<in> set whens. ?A (fst p) \<union> ?A (snd p)) (fold (\<lambda>p. ?W (snd p) \<circ> ?W (fst p)) whens)"
      using pair by (rule collects_fold)
    have "collects R (((\<Union>e \<in> set_option operand. ?A e) \<union> (\<Union>p \<in> set whens. ?A (fst p) \<union> ?A (snd p)))
        \<union> (\<Union>e \<in> set_option els. ?A e))
        (case_option id ?W els \<circ> (fold (\<lambda>p. ?W (snd p) \<circ> ?W (fst p)) whens \<circ> case_option id ?W operand))"
      by (intro collects_comp o w e)
    moreover have "((\<Union>e \<in> set_option operand. ?A e) \<union> (\<Union>p \<in> set whens. ?A (fst p) \<union> ?A (snd p)))
        \<union> (\<Union>e \<in> set_option els. ?A e) = ?A (Case operand whens els)"
      by (simp add: prod_set_defs UN_Un Un_assoc)
    moreover have "walk_expr (map_expr f (Case operand whens els)) =
        case_option id ?W els \<circ> (fold (\<lambda>p. ?W (snd p) \<circ> ?W (fst p)) whens \<circ> case_option id ?W operand)"
      by (cases operand; cases els) (simp_all add: fold_map comp_def case_prod_beta)
    ultimately show ?case by (simp only:)
  next
    case (Like e n p esc c)
    have "collects R ((?A e \<union> ?A p) \<union> (\<Union>e \<in> set_option esc. ?A e)) (case_option id ?W esc \<circ> (?W p \<circ> ?W e))"
      using Like.prems by (intro collects_comp collects_option Like.IH) simp_all
    then show ?case
      by (cases esc) (simp_all add: UN_Un Un_assoc comp_def)
  next
    case (Binary l op r)
    then show ?case using collects_comp [of R "?A l" "?W l" "?A r" "?W r"] by (simp add: UN_Un comp_def)
  next
    case (InSubquery e n q)
    then show ?case using collects_comp [of R "?A e" "?W e" "A q" "f q"] by (simp add: UN_Un Un_commute comp_def)
  next
    case (Between e n lo hi)
    then show ?case
      using collects_comp [of R "?A e \<union> ?A lo" "?W lo \<circ> ?W e" "?A hi" "?W hi"]
        collects_comp [of R "?A e" "?W e" "?A lo" "?W lo"] by (simp add: UN_Un comp_def Un_assoc)
  qed (simp_all add: collects_id)
qed

lemma collects_tableref:
  assumes "\<forall>q \<in> set_table_ref t. collects R (A q) (f q)"
  shows "collects R (ref_names t \<union> (\<Union>q \<in> set_table_ref t. A q)) (walk_tableref R (map_table_ref f t))"
proof (cases t)
  case (Named n a)
  then show ?thesis
    by (auto simp: collects_def insert_absorb)
next
  case (Derived q a)
  moreover have "walk_tableref R (Derived w a) = w" for w
    by (rule ext) simp
  ultimately show ?thesis using assms by simp
qed

lemma collects_join:
  assumes "\<forall>q \<in> set_join_clause j. collects R (A q) (f q)"
  shows "collects R (ref_names (jn_table j) \<union> (\<Union>q \<in> set_join_clause j. A q)) (walk_join R (map_join_clause f j))"
proof (cases j)
  case (JoinClause jt t on)
  have "collects R ((ref_names t \<union> (\<Union>q \<in> set_table_ref t. A q)) \<union> (\<Union>e \<in> set_option on. \<Union>q \<in> set_expr e. A q))
      (case_option id (\<lambda>e. walk_expr (map_expr f e)) on \<circ> walk_tableref R (map_table_ref f t))"
    using assms JoinClause
    by (intro collects_comp collects_tableref collects_option collects_expr) simp_all
  then show ?thesis
    by (cases on) (simp_all add: JoinClause walk_join_def UN_Un Un_assoc)
qed

lemma set_select_column_expr: "set_select_column x = set_expr (sc_expr x)"
  by (cases x) simp

lemma set_order_by_expr_expr: "set_order_by_expr x = set_expr (ob_expr x)"
  by (cases x) simp

lemma set_union_arm_core: "set_union_arm x = set_select_core (un_select x)"
  by (cases x) simp

lemma collects_core:
  assumes "\<forall>q \<in> set_select_core c. collects R (A q) (f q)"
  shows "collects R (core_names c \<union> (\<Union>q \<in> set_select_core c. A q)) (walk_core R (map_select_core f c))"
proof (cases c)
  case (SelectCore d top cols fr js w g h)
  let ?W = "\<lambda>e. walk_expr (map_expr f e)"
  let ?X = "\<lambda>S. \<Union>q \<in> S. A q"
  have A: "\<forall>x \<in> set cols. \<forall>q \<in> set_expr (sc_expr x). collects R (A q) (f q)"
    "\<forall>x \<in> set_option h. \<forall>q \<in> set_expr x. collects R (A q) (f q)"
    "\<forall>x \<in> set g. \<forall>q \<in> set_expr x. collects R (A q) (f q)"
    "\<forall>x \<in> set_option w. \<forall>q \<in> set_expr x. collects R (A q) (f q)"
    "\<forall>x \<in> set js. \<forall>q \<in> set_join_clause x. collects R (A q) (f q)"
    "\<forall>x \<in> set_option fr. \<forall>q \<in> set_table_ref x. collects R (A q) (f q)"
    using assms unfolding SelectCore select_core.set ball_Un ball_UN set_select_column_expr by blast+
  have cols: "collects R (\<Union>x \<in> set cols. ?X (set_expr (sc_expr x))) (fold (\<lambda>x. ?W (sc_expr x)) cols)"
    by (intro collects_fold collects_expr) (rule A [THEN bspec])
  have h: "collects R (\<Union>x \<in> set_option h. ?X (set_expr x)) (case_option id ?W h)"
    by (intro collects_option collects_expr) (rule A [THEN bspec])
  have g: "collects R (\<Union>x \<in> set g. ?X (set_expr x)) (fold ?W g)"
    by (intro collects_fold collects_expr) (rule A [THEN bspec])
  have w: "collects R (\<Union>x \<in> set_option w. ?X (set_expr x)) (case_option id ?W w)"
    by (intro collects_option collects_expr) (rule A [THEN bspec])
  have j: "collects R (\<Union>x \<in> set js. ref_names (jn_table x) \<union> ?X (set_join_clause x))
      (fold (\<lambda>x. walk_join R (map_join_clause f x)) js)"
    by (intro collects_fold collects_join) (rule A [THEN bspec])
  have t: "collects R (\<Union>x \<in> set_option fr. ref_names x \<union> ?X (set_table_ref x))
      (case_option id (\<lambda>x. walk_tableref R (map_table_ref f x)) fr)"
    by (intro collects_option collects_tableref) (rule A [THEN bspec])
  note all = collects_comp [OF collects_comp [OF collects_comp [OF collects_comp [OF collects_comp [OF t j] w] g] h] cols]
  have "walk_core R (map_select_core f c) =
      fold (\<lambda>x. ?W (sc_expr x)) cols \<circ> (case_option id ?W h \<circ> (fold ?W g \<circ> (case_option id ?W w \<circ>
        (fold (\<lambda>x. walk_join R (map_join_clause f x)) js \<circ>
         case_option id (\<lambda>x. walk_tableref R (map_table_ref f x)) fr))))"
    by (cases h; cases w; cases fr)
      (simp_all add: SelectCore walk_core_def fold_map comp_def select_column.map_sel)
  moreover have "((((((\<Union>x \<in> set_option fr. ref_names x \<union> ?X (set_table_ref x)) \<union>
       (\<Union>x \<in> set js. ref_names (jn_table x) \<union> ?X (set_join_clause x))) \<union> (\<Union>x \<in> set_option w. ?X (set_expr x)))
       \<union> (\<Union>x \<in> set g. ?X (set_expr x))) \<union> (\<Union>x \<in> set_option h. ?X (set_expr x)))
       \<union> (\<Union>x \<in> set cols. ?X (set_expr (sc_expr x)))) = core_names c \<union> ?X (set_select_core c)"
    unfolding SelectCore core_names_def select_core.set UN_Un UN_UN_flatten set_select_column_expr
    by (cases fr) (simp_all add: UN_Un_distrib Un_ac)
  ultimately show ?thesis using all by (simp only:)
qed

lemma mentions_Collect:
  "{n. mentions s n} = (\<Union>c \<in> cores s. core_names c) \<union> (\<Union>q \<in> subselects s. {n. mentions q n})"
  by (auto elim: mentions.cases intro: mentions.intros)

lemma collects_select: "collects R {n. mentions s n} (walk_select R s)"
proof (induction s)
  case (SelectStatement body us ob lim)
  let ?s = "SelectStatement body us ob lim" and ?A = "\<lambda>q. {n. mentions q n}" and ?f = "walk_select R"
  have b: "collects R (core_names body \<union> (\<Union>q \<in> set_select_core body. ?A q)) (walk_core R (map_select_core ?f body))"
    using SelectStatement(1) by (intro collects_core) blast
  have u: "collects R (\<Union>u \<in> set us. core_names (un_select u) \<union> (\<Union>q \<in> set_select_core (un_select u). ?A q))
      (fold (\<lambda>u. walk_core R (map_select_core ?f (un_select u))) us)"
    using SelectStatement(2) by (intro collects_fold collects_core) (simp add: set_union_arm_core)
  have o: "collects R (\<Union>x \<in> set ob. \<Union>q \<in> set_expr (ob_expr x). ?A q)
      (fold (\<lambda>x. walk_expr (map_expr ?f (ob_expr x))) ob)"
    using SelectStatement(3) by (intro collects_fold collects_expr) (simp add: set_order_by_expr_expr)
  note all = collects_comp [OF collects_comp [OF b u] o]
  moreover have "walk_select R ?s = fold (\<lambda>x. walk_expr (map_expr ?f (ob_expr x))) ob \<circ>
      (fold (\<lambda>u. walk_core R (map_select_core ?f (un_select u))) us \<circ> walk_core R (map_select_core ?f body))"
    by (simp add: fold_map comp_def order_by_expr.map_sel union_arm.map_sel)
  moreover have "((core_names body \<union> (\<Union>q \<in> set_select_core body. ?A q)) \<union>
      (\<Union>u \<in> set us. core_names (un_select u) \<union> (\<Union>q \<in> set_select_core (un_select u). ?A q))) \<union>
      (\<Union>x \<in> set ob. \<Union>q \<in> set_expr (ob_expr x). ?A q) = ?A ?s"
    unfolding mentions_Collect [of ?s] cores_def subselects_def set_order_by_expr_expr
    by (simp add: UN_Un_distrib Un_ac)
  ultimately show ?case by (simp only:)
qed

section \<open>Properties\<close>

text \<open>C28: The list of base tables is complete, exact and free of duplicates. A table mentioned
  anywhere in the statement, in a derived table or a sub-select at any depth included, is on the
  list in some spelling; every name on the list is mentioned; and no two entries differ in case
  only.\<close>

theorem base_table_names_exact:
  shows "distinct (map (rt_lower R) (base_table_names R s))
    \<and> set (base_table_names R s) \<subseteq> {n. mentions s n}
    \<and> rt_lower R ` set (base_table_names R s) = rt_lower R ` {n. mentions s n}"
proof -
  obtain out where "walk_select R s ([], {}) = (out, rt_lower R ` set out)"
    "distinct (map (rt_lower R) out)" "set out \<subseteq> {n. mentions s n}"
    "rt_lower R ` set out = rt_lower R ` {n. mentions s n}"
    using collects_select [of R s, unfolded collects_def, rule_format, of "[]"] by auto
  then show ?thesis by (simp add: base_table_names_def)
qed

end
