(* ===== verification/Operators.thy ===== *)
theory Operators
  imports Ast
begin

text \<open>
  The operators of SQL expressions on values (\<open>execution.rs\<close>, the boolean, operator and
  aggregate helpers): three-valued logic, comparison, arithmetic and the built-in aggregates.
\<close>

section \<open>Three-valued logic\<close>

definition tri :: "runtime \<Rightarrow> cfml_value \<Rightarrow> bool option" where
  "tri R v = (case v of VNull \<Rightarrow> None | VBool b \<Rightarrow> Some b | _ \<Rightarrow> Some (is_true R v))"

definition is_truthy :: "runtime \<Rightarrow> cfml_value \<Rightarrow> bool" where
  "is_truthy R v \<longleftrightarrow> tri R v = Some True"

definition and3 :: "bool option \<Rightarrow> bool option \<Rightarrow> cfml_value" where
  "and3 l r =
     (if l = Some False \<or> r = Some False then VBool False
      else if l = Some True \<and> r = Some True then VBool True
      else VNull)"

definition or3 :: "bool option \<Rightarrow> bool option \<Rightarrow> cfml_value" where
  "or3 l r =
     (if l = Some True \<or> r = Some True then VBool True
      else if l = Some False \<and> r = Some False then VBool False
      else VNull)"

definition membership_result :: "bool \<Rightarrow> bool \<Rightarrow> bool \<Rightarrow> cfml_value" where
  "membership_result found_true found_null negated =
     (case (if found_true then Some True else if found_null then None else Some False) of
        Some b \<Rightarrow> VBool (b \<noteq> negated)
      | None \<Rightarrow> VNull)"

section \<open>Comparison\<close>

datatype cmp_op = CmpEq | CmpNeq | CmpLt | CmpLte | CmpGt | CmpGte

fun cmp_holds :: "cmp_op \<Rightarrow> ordering \<Rightarrow> bool" where
  "cmp_holds CmpEq ord \<longleftrightarrow> ord = Equal"
| "cmp_holds CmpNeq ord \<longleftrightarrow> ord \<noteq> Equal"
| "cmp_holds CmpLt ord \<longleftrightarrow> ord = Less"
| "cmp_holds CmpLte ord \<longleftrightarrow> ord \<noteq> Greater"
| "cmp_holds CmpGt ord \<longleftrightarrow> ord = Greater"
| "cmp_holds CmpGte ord \<longleftrightarrow> ord \<noteq> Less"

definition cmp_to_bool_value :: "runtime \<Rightarrow> cfml_value \<Rightarrow> cmp_op \<Rightarrow> cfml_value \<Rightarrow> cfml_value" where
  "cmp_to_bool_value R l op r =
     (case compare_sql R l r of None \<Rightarrow> VNull | Some ord \<Rightarrow> VBool (cmp_holds op ord))"

section \<open>Arithmetic\<close>

definition checked_i64 :: "int \<Rightarrow> i64 option" where
  "checked_i64 i = (if - (2 ^ 63) \<le> i \<and> i < 2 ^ 63 then Some (word_of_int i) else None)"

definition integral_or_double :: "f64 \<Rightarrow> cfml_value" where
  "integral_or_double n =
     (if fract_is_zero n \<and> f_lt (f_abs n) int_limit then VInt (f_to_i64 n) else VDouble n)"

definition arith_add :: "runtime \<Rightarrow> cfml_value \<Rightarrow> cfml_value \<Rightarrow> cfml_value" where
  "arith_add R l r =
     (case (to_f64 l, to_f64 r) of
        (Some a, Some b) \<Rightarrow>
          (case (case (l, r) of (VInt x, VInt y) \<Rightarrow> checked_i64 (sint x + sint y) | _ \<Rightarrow> None) of
             Some v \<Rightarrow> VInt v
           | None \<Rightarrow> integral_or_double (f_add a b))
      | _ \<Rightarrow> VString (as_string R l @ as_string R r))"

text \<open>The integer paths of the other operators; \<open>None\<close> where the source falls through to
  \<open>f64\<close>.\<close>

definition arith_int :: "i64 \<Rightarrow> binary_op \<Rightarrow> i64 \<Rightarrow> cfml_result option" where
  "arith_int a op b =
     (case op of
        Sub \<Rightarrow> map_option (\<lambda>v. Inr (VInt v)) (checked_i64 (sint a - sint b))
      | Mul \<Rightarrow> map_option (\<lambda>v. Inr (VInt v)) (checked_i64 (sint a * sint b))
      | Mod \<Rightarrow> Some (if b = 0 then Inl ModuloByZero else map_sum id VInt (i64_rem a b))
      | _ \<Rightarrow> None)"

text \<open>The \<open>unreachable!\<close> of the source, for an operator that is not arithmetic, is a panic.\<close>

definition arith_f64 :: "f64 \<Rightarrow> binary_op \<Rightarrow> f64 \<Rightarrow> f64 outcome" where
  "arith_f64 a op b =
     (case op of
        Sub \<Rightarrow> Inr (f_sub a b)
      | Mul \<Rightarrow> Inr (f_mul a b)
      | Div \<Rightarrow> if f_eq b (f_zero False) then Inl DivisionByZero else Inr (f_div a b)
      | Mod \<Rightarrow> if f_eq b (f_zero False) then Inl ModuloByZero else Inr (f_rem a b)
      | _ \<Rightarrow> Inl Panic)"

definition as_number :: "runtime \<Rightarrow> cfml_value \<Rightarrow> f64 outcome" where
  "as_number R v = (case to_f64 v of Some n \<Rightarrow> Inr n | None \<Rightarrow> Inl (NotNumeric (as_string R v)))"

definition arith :: "runtime \<Rightarrow> cfml_value \<Rightarrow> binary_op \<Rightarrow> cfml_value \<Rightarrow> cfml_result" where
  "arith R l op r =
     (if is_vnull l \<or> is_vnull r then Inr VNull
      else if op = Add then Inr (arith_add R l r)
      else case (case (l, r) of (VInt a, VInt b) \<Rightarrow> arith_int a op b | _ \<Rightarrow> None) of
             Some res \<Rightarrow> res
           | None \<Rightarrow>
               and_then (as_number R l) (\<lambda>a. and_then (as_number R r) (\<lambda>b.
                 and_then (arith_f64 a op b) (\<lambda>res.
                   Inr (if op = Div then VDouble res else integral_or_double res)))))"

definition apply_unary :: "runtime \<Rightarrow> unary_op \<Rightarrow> cfml_value \<Rightarrow> cfml_result" where
  "apply_unary R op v =
     (case op of
        Not_op \<Rightarrow> Inr (case tri R v of Some b \<Rightarrow> VBool (\<not> b) | None \<Rightarrow> VNull)
      | Neg \<Rightarrow>
          (case v of
             VNull \<Rightarrow> Inr VNull
           | VInt i \<Rightarrow> Inr (VInt (- i))
           | _ \<Rightarrow> (case to_f64 v of Some n \<Rightarrow> Inr (VDouble (f_minus n)) | None \<Rightarrow> Inl CannotNegate))
      | Plus \<Rightarrow> Inr v)"

definition bit_op :: "binary_op \<Rightarrow> i64 \<Rightarrow> i64 \<Rightarrow> i64" where
  "bit_op op a b =
     (case op of BitAnd \<Rightarrow> and a b | BitOr \<Rightarrow> or a b | _ \<Rightarrow> xor a b)"

definition apply_bits :: "cfml_value \<Rightarrow> binary_op \<Rightarrow> cfml_value \<Rightarrow> cfml_result" where
  "apply_bits l op r =
     (if is_vnull l \<or> is_vnull r then Inr VNull
      else Inr (VInt (bit_op op (unwrap_or (to_i64 l) 0) (unwrap_or (to_i64 r) 0))))"

fun bin_to_cmp :: "binary_op \<Rightarrow> cmp_op option" where
  "bin_to_cmp Eq = Some CmpEq"
| "bin_to_cmp Neq = Some CmpNeq"
| "bin_to_cmp Lt = Some CmpLt"
| "bin_to_cmp Lte = Some CmpLte"
| "bin_to_cmp Gt = Some CmpGt"
| "bin_to_cmp Gte = Some CmpGte"
| "bin_to_cmp _ = None"

definition apply_binary :: "runtime \<Rightarrow> cfml_value \<Rightarrow> binary_op \<Rightarrow> cfml_value \<Rightarrow> cfml_result" where
  "apply_binary R l op r =
     (case bin_to_cmp op of
        Some c \<Rightarrow> Inr (cmp_to_bool_value R l c r)
      | None \<Rightarrow>
          (case op of
             And \<Rightarrow> Inr (and3 (tri R l) (tri R r))
           | Or \<Rightarrow> Inr (or3 (tri R l) (tri R r))
           | Concat \<Rightarrow>
               Inr (if is_vnull l \<or> is_vnull r then VNull else VString (as_string R l @ as_string R r))
           | BitAnd \<Rightarrow> apply_bits l op r
           | BitOr \<Rightarrow> apply_bits l op r
           | BitXor \<Rightarrow> apply_bits l op r
           | _ \<Rightarrow> arith R l op r))"

section \<open>Aggregates\<close>

definition builtin_aggregates :: "ustr list" where
  "builtin_aggregates =
     [str ''count'', str ''sum'', str ''avg'', str ''min'', str ''max'', str ''group_concat'',
      str ''string_agg'']"

definition is_builtin_aggregate :: "runtime \<Rightarrow> ustr \<Rightarrow> bool" where
  "is_builtin_aggregate R name \<longleftrightarrow> rt_lower R name \<in> set builtin_aggregates"

definition is_aggregate :: "runtime \<Rightarrow> registry \<Rightarrow> ustr \<Rightarrow> bool" where
  "is_aggregate R reg name \<longleftrightarrow> is_builtin_aggregate R name \<or> registry_is_aggregate R reg name"

text \<open>The loops over the column; \<open>sum_loop\<close> keeps the total, \<open>all_int\<close> and \<open>any\<close>.\<close>

fun sum_loop :: "f64 \<times> bool \<times> bool \<Rightarrow> cfml_value list \<Rightarrow> f64 \<times> bool \<times> bool" where
  "sum_loop st [] = st"
| "sum_loop (acc, all_int, any1) (v # vs) =
     sum_loop
       (if is_vnull v then (acc, all_int, any1)
        else case to_f64 v of
               Some n \<Rightarrow> (f_add acc n, all_int \<and> (case v of VInt _ \<Rightarrow> True | _ \<Rightarrow> False), True)
             | None \<Rightarrow> (acc, all_int, any1))
       vs"

definition aggregate_sum :: "cfml_value list \<Rightarrow> cfml_value" where
  "aggregate_sum col =
     (case sum_loop (f_zero False, True, False) col of
        (acc, all_int, any1) \<Rightarrow>
          if \<not> any1 then VNull
          else if all_int \<and> fract_is_zero acc \<and> f_lt (f_abs acc) int_limit then VInt (f_to_i64 acc)
          else VDouble acc)"

fun avg_loop :: "f64 \<times> int \<Rightarrow> cfml_value list \<Rightarrow> f64 \<times> int" where
  "avg_loop st [] = st"
| "avg_loop (acc, cnt) (v # vs) =
     avg_loop
       (case to_f64 v of
          Some n \<Rightarrow> if is_vnull v then (acc, cnt) else (f_add acc n, cnt + 1)
        | None \<Rightarrow> (acc, cnt))
       vs"

definition aggregate_avg :: "cfml_value list \<Rightarrow> cfml_value" where
  "aggregate_avg col =
     (case avg_loop (f_zero False, 0) col of
        (acc, cnt) \<Rightarrow> if cnt = 0 then VNull else VDouble (f_div acc (f_of_int cnt)))"

fun best_loop :: "runtime \<Rightarrow> bool \<Rightarrow> cfml_value option \<Rightarrow> cfml_value list \<Rightarrow> cfml_value option" where
  "best_loop R want_min best [] = best"
| "best_loop R want_min best (v # vs) =
     best_loop R want_min
       (if is_vnull v then best
        else Some (case best of
                     None \<Rightarrow> v
                   | Some cur \<Rightarrow>
                       (let ord = compare_total R v cur
                        in if (want_min \<and> ord = Less) \<or> (\<not> want_min \<and> ord = Greater) then v else cur)))
       vs"

definition aggregate_best :: "runtime \<Rightarrow> bool \<Rightarrow> cfml_value list \<Rightarrow> cfml_value" where
  "aggregate_best R want_min col = unwrap_or (best_loop R want_min None col) VNull"

definition aggregate_numeric :: "runtime \<Rightarrow> ustr \<Rightarrow> cfml_value list \<Rightarrow> cfml_value" where
  "aggregate_numeric R name col =
     (if name = str ''sum'' then aggregate_sum col
      else if name = str ''avg'' then aggregate_avg col
      else if name = str ''min'' \<or> name = str ''max'' then aggregate_best R (name = str ''min'') col
      else VNull)"

text \<open>\<open>dedup_values\<close>: \<open>retain\<close> with a set of the keys seen.\<close>

fun retain_new :: "('a \<Rightarrow> 'k) \<Rightarrow> 'k set \<Rightarrow> 'a list \<Rightarrow> 'a list" where
  "retain_new key seen [] = []"
| "retain_new key seen (v # vs) =
     (if key v \<in> seen then retain_new key seen vs else v # retain_new key (insert (key v) seen) vs)"

definition dedup_values :: "runtime \<Rightarrow> cfml_value list \<Rightarrow> cfml_value list" where
  "dedup_values R vs = retain_new (\<lambda>v. group_key R [v]) {} vs"

section \<open>Lemmas\<close>

lemma tri_VBool [simp]: "tri R (VBool b) = Some b" and tri_VNull [simp]: "tri R VNull = None"
  by (simp_all add: tri_def)

lemma tri_None [simp]: "tri R v = None \<longleftrightarrow> v = VNull"
  by (cases v) (simp_all add: tri_def)

lemma membership_simps [simp]:
  "membership_result True n neg = VBool (\<not> neg)"
  "membership_result False True neg = VNull"
  "membership_result False False neg = VBool neg"
  by (simp_all add: membership_result_def)

lemma checked_i64_Some: "checked_i64 i = Some w \<Longrightarrow> sint w = i"
  by (auto simp: checked_i64_def sint_sbintrunc' signed_take_bit_int_eq_self split: if_splits)

lemma retain_new_spec:
  "set (retain_new key seen vs) \<subseteq> set vs \<and> distinct (map key (retain_new key seen vs)) \<and>
   key ` set (retain_new key seen vs) = key ` set vs - seen"
  by (induction key seen vs rule: retain_new.induct) auto

text \<open>The first value of each key is the one kept.\<close>

lemma retain_new_filter:
  "retain_new key seen vs = map ((!) vs) (filter (\<lambda>i. key (vs ! i) \<notin> seen \<and> (\<forall>j < i. key (vs ! j) \<noteq> key (vs ! i))) [0..<length vs])"
proof (induction vs arbitrary: seen)
  case (Cons v vs)
  let ?c = "\<lambda>seen i. key (vs ! i) \<notin> seen \<and> (\<forall>j < i. key (vs ! j) \<noteq> key (vs ! i))"
  have "[0..<length (v # vs)] = 0 # map Suc [0..<length vs]"
    by (simp only: length_Cons map_Suc_upt) (simp add: upt_conv_Cons del: upt_Suc)
  moreover have "key ((v # vs) ! Suc i) \<notin> seen \<and> (\<forall>j < Suc i. key ((v # vs) ! j) \<noteq> key ((v # vs) ! Suc i))
      \<longleftrightarrow> ?c (insert (key v) seen) i" for i
    by (auto simp: less_Suc_eq_0_disj)
  moreover have "retain_new key (insert (key v) seen) vs = retain_new key seen vs" if "key v \<in> seen"
    using that by (simp add: insert_absorb)
  ultimately show ?case
    by (simp add: Cons.IH [of "insert (key v) seen"] filter_map comp_def del: nth_Cons_Suc upt_Suc)
qed simp

lemma sum_loop_ints:
  assumes "\<forall>v \<in> set col. v = VNull \<or> (\<exists>i. v = VInt i)"
    and "\<bar>s\<bar> + sum_list (map (\<lambda>v. case v of VInt i \<Rightarrow> \<bar>sint i\<bar> | _ \<Rightarrow> 0) col) < 2 ^ 53"
  shows "sum_loop (f_of_int s, True, a) col =
    (f_of_int (s + sum_list (map (\<lambda>v. case v of VInt i \<Rightarrow> sint i | _ \<Rightarrow> 0) col)), True,
     a \<or> (\<exists>v \<in> set col. v \<noteq> VNull))"
  using assms
proof (induction col arbitrary: s a)
  case (Cons v col)
  let ?rest = "sum_list (map (\<lambda>v. case v of VInt i \<Rightarrow> \<bar>sint i\<bar> | _ \<Rightarrow> 0) col)"
  have rest: "0 \<le> ?rest" by (rule sum_list_nonneg) (auto split: cfml_value.split)
  show ?case
  proof (cases "v = VNull")
    case True
    then show ?thesis using Cons by simp
  next
    case False
    then obtain i where v: "v = VInt i" using Cons.prems(1) by auto
    have bound: "\<bar>s + sint i\<bar> + ?rest < 2 ^ 53" "\<bar>s\<bar> \<le> 2 ^ 53" "\<bar>sint i\<bar> \<le> 2 ^ 53" "\<bar>s + sint i\<bar> \<le> 2 ^ 53"
      using Cons.prems(2) rest by (simp_all add: v)
    have "f_add (f_of_int s) (f_of_int (sint i)) = f_of_int (s + sint i)"
      using bound by (intro f_add_of_int) simp_all
    then show ?thesis
      using Cons.IH [of "s + sint i" True] Cons.prems(1) bound(1) by (simp add: v to_f64_def add.assoc)
  qed
qed simp

text \<open>The running best of MIN and MAX.\<close>

lemma best_loop_best:
  assumes "comparator_on C (directed w0 (compare_total R))" "set col \<subseteq> C" "\<forall>b \<in> set_option best. b \<in> C"
    and "best_loop R w0 best col = r"
  shows "(r = None \<longleftrightarrow> best = None \<and> (\<forall>v \<in> set col. v = VNull)) \<and>
    (\<forall>m \<in> set_option r. m \<in> set_option best \<union> {v \<in> set col. v \<noteq> VNull} \<and>
       (\<forall>v \<in> set_option best \<union> {v \<in> set col. v \<noteq> VNull}. directed w0 (compare_total R) m v \<noteq> Greater))"
  using assms(2-)
proof (induction col arbitrary: best)
  case Nil
  then show ?case using comparator_on.refl [OF assms(1)] by auto
next
  case (Cons v col)
  let ?best = "if v = VNull then best else Some (case best of None \<Rightarrow> v
      | Some cur \<Rightarrow> if directed w0 (compare_total R) v cur = Less then v else cur)"
  have loop: "best_loop R w0 ?best col = r"
    using Cons.prems(3) by (cases best; cases "v = VNull"; cases w0) (simp_all add: Let_def is_vnull_def directed_def)
  have C: "\<forall>b \<in> set_option ?best. b \<in> C"
    using Cons.prems(1,2) by (cases best) auto
  have IH: "(r = None \<longleftrightarrow> ?best = None \<and> (\<forall>v \<in> set col. v = VNull)) \<and>
    (\<forall>m \<in> set_option r. m \<in> set_option ?best \<union> {v \<in> set col. v \<noteq> VNull} \<and>
       (\<forall>v \<in> set_option ?best \<union> {v \<in> set col. v \<noteq> VNull}. directed w0 (compare_total R) m v \<noteq> Greater))"
    using Cons.prems(1) C loop by (intro Cons.IH) simp_all
  have lower: "\<exists>b \<in> set_option ?best. directed w0 (compare_total R) b w \<noteq> Greater"
    if "w \<in> set_option best \<union> ({v} - {VNull})" for w
  proof (cases best)
    case None
    then show ?thesis using that comparator_on.refl [OF assms(1), of v] Cons.prems(1) by auto
  next
    case (Some cur)
    have "cur \<in> C" "v \<in> C" using Some Cons.prems(1,2) by auto
    then show ?thesis
      using that Some comparator_on.refl [OF assms(1)] comparator_on.swap [OF assms(1), of v cur]
      by (cases "directed w0 (compare_total R) v cur") auto
  qed
  have "directed w0 (compare_total R) m w \<noteq> Greater"
    if m: "m \<in> set_option r" and w: "w \<in> set_option best \<union> {w \<in> set (v # col). w \<noteq> VNull}" for m w
  proof (cases "w \<in> set col \<and> w \<noteq> VNull")
    case True
    then show ?thesis using IH m by blast
  next
    case False
    then have w': "w \<in> set_option best \<union> ({v} - {VNull})" using w by auto
    then obtain b where b: "b \<in> set_option ?best" "directed w0 (compare_total R) b w \<noteq> Greater"
      using lower by blast
    have "m \<in> C" "w \<in> C" "b \<in> C" using m IH b(1) C Cons.prems(1,2) w' by auto
    moreover have "directed w0 (compare_total R) m b \<noteq> Greater" using m IH b(1) by blast
    ultimately show ?thesis using comparator_on.le_trans [OF assms(1), of m b w] b(2) by blast
  qed
  moreover have "set_option ?best \<subseteq> set_option best \<union> ({v} - {VNull})"
    by (cases best) auto
  moreover have "?best = None \<longleftrightarrow> best = None \<and> v = VNull"
    by simp
  ultimately show ?case using IH by auto
qed

section \<open>Properties\<close>

text \<open>The truth values of Kleene logic in their order: false, unknown, true.\<close>

fun truth_rank :: "bool option \<Rightarrow> nat" where
  "truth_rank (Some False) = 0"
| "truth_rank None = 1"
| "truth_rank (Some True) = 2"

text \<open>AND, OR and NOT are Kleene's: on the order false, unknown, true, AND is the minimum,
  OR the maximum, and NOT the reversal. A value counts as true, false or unknown (NULL) the same
  way for all three operators.\<close>

lemma kleene_logic:
  "\<exists>a o1 n. apply_binary R l And r = Inr a \<and> apply_binary R l Or r = Inr o1 \<and> apply_unary R Not_op l = Inr n
    \<and> truth_rank (tri R a) = min (truth_rank (tri R l)) (truth_rank (tri R r))
    \<and> truth_rank (tri R o1) = max (truth_rank (tri R l)) (truth_rank (tri R r))
    \<and> truth_rank (tri R n) = 2 - truth_rank (tri R l)"
  by (cases "tri R l" rule: truth_rank.cases; cases "tri R r" rule: truth_rank.cases)
     (simp_all add: apply_binary_def apply_unary_def and3_def or3_def)

lemma checked_i64_fits: "- (2 ^ 63) \<le> z \<Longrightarrow> z < 2 ^ 63 \<Longrightarrow> checked_i64 z = Some (word_of_int z) \<and> sint (word_of_int z :: i64) = z"
  using checked_i64_Some [of z "word_of_int z"] by (simp add: checked_i64_def)

lemma apply_binary_exact:
  assumes "(op, z, f) \<in> {(Add, sint x + sint y, f_add), (Sub, sint x - sint y, f_sub), (Mul, sint x * sint y, f_mul)}"
  shows "apply_binary R (VInt x) op (VInt y) = Inr (case checked_i64 z of
    Some w \<Rightarrow> VInt w | None \<Rightarrow> integral_or_double (f (f_of_int (sint x)) (f_of_int (sint y))))"
  using assms
  by (auto simp: apply_binary_def arith_def arith_add_def arith_int_def arith_f64_def as_number_def to_f64_def
      split: option.split)

lemma apply_binary_mod: "apply_binary R (VInt x) Mod (VInt y) = modulo (VInt x) (VInt y)"
  by (simp add: apply_binary_def arith_def arith_int_def modulo_def)

lemma call_mod:
  assumes "rt_lower R name = str ''mod''"
  shows "call_scalar R name [a, b] = Some (modulo a b)"
  using assms by (simp add: call_scalar_def call_text_def call_number_def Let_def)

text \<open>C35: Arithmetic on integers. Addition, subtraction and multiplication return the mathematical result
  as an integer whenever it fits in 64 bits, and otherwise the rounded result of the operation on
  doubles; they never wrap and never fail. The remainder, by the operator and by the function MOD
  alike, is an error for a zero divisor; for the smallest integer by minus one the machine
  operation panics; in every other case it is an integer with the sign of the dividend, smaller
  in magnitude than the divisor, and differs from the dividend by a multiple of the divisor.\<close>

theorem integer_arithmetic_correct:
  assumes "rt_lower R name = str ''mod''"
    and "(op, z, f) \<in> {(Add, sint x + sint y, f_add), (Sub, sint x - sint y, f_sub), (Mul, sint x * sint y, f_mul)}"
  shows "(if - (2 ^ 63) \<le> z \<and> z < 2 ^ 63
      then \<exists>w. apply_binary R (VInt x) op (VInt y) = Inr (VInt w) \<and> sint w = z
      else apply_binary R (VInt x) op (VInt y) =
        Inr (integral_or_double (f (f_of_int (sint x)) (f_of_int (sint y))))) \<and>
    call_scalar R name [VInt x, VInt y] = Some (apply_binary R (VInt x) Mod (VInt y)) \<and>
    (if y = 0 then apply_binary R (VInt x) Mod (VInt y) = Inl ModuloByZero
     else if sint x = - (2 ^ 63) \<and> sint y = - 1 then apply_binary R (VInt x) Mod (VInt y) = Inl Panic
     else \<exists>r. apply_binary R (VInt x) Mod (VInt y) = Inr (VInt r) \<and> \<bar>sint r\<bar> < \<bar>sint y\<bar> \<and>
       (sint r = 0 \<or> sgn (sint r) = sgn (sint x)) \<and> sint y dvd sint x - sint r)"
proof (intro conjI)
  show "call_scalar R name [VInt x, VInt y] = Some (apply_binary R (VInt x) Mod (VInt y))"
    by (simp only: call_mod [OF assms(1)] apply_binary_mod)
  show "if - (2 ^ 63) \<le> z \<and> z < 2 ^ 63
      then \<exists>w. apply_binary R (VInt x) op (VInt y) = Inr (VInt w) \<and> sint w = z
      else apply_binary R (VInt x) op (VInt y) =
        Inr (integral_or_double (f (f_of_int (sint x)) (f_of_int (sint y))))"
  proof (cases "- (2 ^ 63) \<le> z \<and> z < 2 ^ 63")
    case True
    with checked_i64_fits [of z] show ?thesis by (simp only: apply_binary_exact [OF assms(2)] option.case) auto
  next
    case False
    then have "checked_i64 z = None" by (simp only: checked_i64_def if_False)
    with False show ?thesis by (simp only: apply_binary_exact [OF assms(2)] option.case if_False)
  qed
  show "if y = 0 then apply_binary R (VInt x) Mod (VInt y) = Inl ModuloByZero
     else if sint x = - (2 ^ 63) \<and> sint y = - 1 then apply_binary R (VInt x) Mod (VInt y) = Inl Panic
     else \<exists>r. apply_binary R (VInt x) Mod (VInt y) = Inr (VInt r) \<and> \<bar>sint r\<bar> < \<bar>sint y\<bar> \<and>
       (sint r = 0 \<or> sgn (sint r) = sgn (sint x)) \<and> sint y dvd sint x - sint r"
  proof (cases "y = 0")
    case False
    then show ?thesis using i64_rem_spec [OF False, of x] unfolding apply_binary_mod modulo_def
      by (auto split: if_splits)
  qed (simp add: apply_binary_mod modulo_def)
qed

theorem integer_arithmetic_correct_witness:
  "call_scalar ascii_runtime (str ''MOD'') [VInt (- 7), VInt 3] = Some (apply_binary ascii_runtime (VInt (- 7)) Mod (VInt 3)) \<and>
   (\<exists>r. apply_binary ascii_runtime (VInt (- 7)) Mod (VInt 3) = Inr (VInt r) \<and> \<bar>sint r\<bar> < 3 \<and> 3 dvd - 7 - sint r) \<and>
   (\<exists>w. apply_binary ascii_runtime (VInt (- 7)) Mul (VInt 3) = Inr (VInt w) \<and> sint w = - 21)"
  using integer_arithmetic_correct [of ascii_runtime "str ''MOD''" Mul "sint (- 7 :: i64) * sint (3 :: i64)" f_mul "- 7" 3]
  by (auto simp: to_ascii_lowercase_def)

text \<open>C34: SUM is exact on integers. Over a column of integers and NULLs whose magnitudes add up
  to less than \<open>9 * 10^15\<close>, the floating-point accumulation loses nothing: the result is the
  integer sum of the non-NULL cells, and NULL when there are none.\<close>

theorem sum_of_integers_exact:
  assumes "\<forall>v \<in> set col. v = VNull \<or> (\<exists>i. v = VInt i)"
    and "sum_list (map (\<lambda>v. case v of VInt i \<Rightarrow> \<bar>sint i\<bar> | _ \<Rightarrow> 0) col) < 9 * 10 ^ 15"
  shows "aggregate_numeric R (str ''sum'') col =
    (if \<forall>v \<in> set col. v = VNull then VNull
     else VInt (word_of_int (sum_list (map (\<lambda>v. case v of VInt i \<Rightarrow> sint i | _ \<Rightarrow> 0) col))))"
proof -
  let ?s = "sum_list (map (\<lambda>v. case v of VInt i \<Rightarrow> sint i | _ \<Rightarrow> 0) col)"
  let ?m = "sum_list (map (\<lambda>v. case v of VInt i \<Rightarrow> \<bar>sint i\<bar> | _ \<Rightarrow> 0) col)"
  have "\<bar>?s\<bar> \<le> ?m"
    by (induction col) (auto split: cfml_value.split)
  then have s: "\<bar>?s\<bar> < 9 * 10 ^ 15" using assms(2) by simp
  have "sum_loop (f_of_int 0, True, False) col = (f_of_int (0 + ?s), True, False \<or> (\<exists>v \<in> set col. v \<noteq> VNull))"
    using assms by (intro sum_loop_ints) simp_all
  moreover have "f_lt (f_abs (f_of_int ?s)) int_limit" "fract_is_zero (f_of_int ?s)"
    "f_to_i64 (f_of_int ?s) = word_of_int ?s"
    using s by (simp_all add: f_abs_of_int int_limit_def f_lt_of_int f_to_i64_of_int)
  ultimately show ?thesis
    by (auto simp: aggregate_numeric_def aggregate_sum_def f_of_int_0)
qed

theorem sum_of_integers_exact_witness:
  "aggregate_numeric ascii_runtime (str ''sum'') [VInt 5, VNull, VInt (- 7)] = VInt (- 2)"
  using sum_of_integers_exact [of "[VInt 5, VNull, VInt (- 7)]" ascii_runtime] by simp

text \<open>C33: MIN and MAX. On a column of cells of one kind the result is NULL exactly when there is
  no non-NULL cell; otherwise it is one of the non-NULL cells, and none of them is smaller (for
  MIN) or greater (for MAX).\<close>

theorem min_max_correct:
  assumes "unicode_laws R" "one_kind (set col)" "r = aggregate_numeric R (str (if w then ''min'' else ''max'')) col"
  shows "(r = VNull \<longleftrightarrow> (\<forall>v \<in> set col. v = VNull)) \<and>
    (r \<noteq> VNull \<longrightarrow> r \<in> set col \<and>
       (\<forall>v \<in> set col. v \<noteq> VNull \<longrightarrow> compare_total R r v \<noteq> (if w then Greater else Less)))"
proof -
  have c: "comparator_on (set col) (directed w (compare_total R))"
    using one_kind_column [OF assms(1,2)] by (rule comparator_on_directed)
  have "r = unwrap_or (best_loop R w None col) VNull"
    unfolding assms(3) by (simp add: aggregate_numeric_def aggregate_best_def)
  moreover note best_loop_best [OF c subset_refl, of None, OF _ refl]
  ultimately show ?thesis
    by (cases "best_loop R w None col") (auto simp: unwrap_or_def directed_def split: if_splits)
qed

theorem min_max_correct_witness:
  "let r = aggregate_numeric ascii_runtime (str ''max'') [VInt 3, VNull, VInt 8]
   in r \<noteq> VNull \<and> compare_total ascii_runtime r (VInt 3) \<noteq> Less"
  using min_max_correct [of ascii_runtime "[VInt 3, VNull, VInt 8]" _ False, OF _ _ refl]
  by (simp add: one_kind_def int_cells_def Let_def)

text \<open>DISTINCT inside an aggregate keeps exactly the first value of every key, in order.\<close>

lemma dedup_values_first_occurrences:
  "dedup_values R vs =
     map ((!) vs) (filter (\<lambda>i. \<forall>j < i. group_key R [vs ! j] \<noteq> group_key R [vs ! i]) [0..<length vs])"
  by (simp add: dedup_values_def retain_new_filter)

end
