(* ===== verification/Table.thy ===== *)
theory Table
  imports Ast
begin

text \<open>
  Source tables and column resolution (\<open>cfml-qoq/src/table.rs\<close>) over the column-major data of
  a query value (\<open>CfmlQueryData\<close> of \<open>cfml-common/src/dynamic.rs\<close>). Rows are numbered from 1;
  row 0 is the missing row of an outer join and reads as NULL everywhere.
\<close>

section \<open>Query data\<close>

record query_data =
  q_columns :: "ustr list"
  q_data :: "cfml_value list list"

definition row_count :: "query_data \<Rightarrow> nat" where
  "row_count q = (case q_data q of [] \<Rightarrow> 0 | c # _ \<Rightarrow> length c)"

text \<open>The shape the type documents: one vector per column, all of the same length.\<close>

definition wf_query :: "query_data \<Rightarrow> bool" where
  "wf_query q \<longleftrightarrow>
     length (q_data q) = length (q_columns q) \<and> list_all (\<lambda>c. length c = row_count q) (q_data q)"

section \<open>Tables\<close>

record qoq_table =
  tb_name :: ustr
  tb_columns :: "ustr list"
  tb_data :: "cfml_value list list"
  tb_row_count :: nat

definition from_query_data :: "ustr \<Rightarrow> query_data \<Rightarrow> qoq_table" where
  "from_query_data name q =
     \<lparr> tb_name = name, tb_columns = q_columns q, tb_data = q_data q, tb_row_count = row_count q \<rparr>"

definition column_index :: "qoq_table \<Rightarrow> ustr \<Rightarrow> nat option" where
  "column_index t name = position (\<lambda>c. eq_ignore_ascii_case c name) (tb_columns t)"

definition table_get :: "qoq_table \<Rightarrow> nat \<Rightarrow> nat \<Rightarrow> cfml_value" where
  "table_get t row col =
     (if row = 0 then VNull
      else case Option.bind (get (tb_data t) col) (\<lambda>c. get c (row - 1)) of
             Some v \<Rightarrow> v
           | None \<Rightarrow> VNull)"

type_synonym table_set = "qoq_table list"

definition row_counts :: "table_set \<Rightarrow> nat list" where
  "row_counts ts = map tb_row_count ts"

text \<open>The two loops of \<open>resolve_column\<close>; \<open>ti\<close> is the index \<open>enumerate\<close> gives.\<close>

fun resolve_in_named :: "ustr \<Rightarrow> ustr \<Rightarrow> nat \<Rightarrow> table_set \<Rightarrow> (nat \<times> nat) option" where
  "resolve_in_named hint column ti [] = None"
| "resolve_in_named hint column ti (t # ts) =
     (if eq_ignore_ascii_case (tb_name t) hint then map_option (\<lambda>ci. (ti, ci)) (column_index t column)
      else resolve_in_named hint column (Suc ti) ts)"

fun resolve_in_any :: "ustr \<Rightarrow> nat \<Rightarrow> table_set \<Rightarrow> (nat \<times> nat) option" where
  "resolve_in_any column ti [] = None"
| "resolve_in_any column ti (t # ts) =
     (case column_index t column of
        Some ci \<Rightarrow> Some (ti, ci)
      | None \<Rightarrow> resolve_in_any column (Suc ti) ts)"

definition resolve_column :: "table_set \<Rightarrow> ustr option \<Rightarrow> ustr \<Rightarrow> (nat \<times> nat) option" where
  "resolve_column ts table_hint column =
     (case table_hint of
        Some hint \<Rightarrow> resolve_in_named hint column 0 ts
      | None \<Rightarrow> resolve_in_any column 0 ts)"

text \<open>\<open>TableSet::value\<close>: a missing entry of the intersection reads as row 0; a table index out
  of range is a panic.\<close>

definition table_value :: "table_set \<Rightarrow> nat list \<Rightarrow> nat \<Rightarrow> nat \<Rightarrow> cfml_result" where
  "table_value ts isec ti ci =
     (let row = unwrap_or (get isec ti) 0
      in if ti < length ts then Inr (table_get (ts ! ti) row ci) else Inl Panic)"

definition wf_table :: "qoq_table \<Rightarrow> bool" where
  "wf_table t \<longleftrightarrow>
     length (tb_data t) = length (tb_columns t) \<and> list_all (\<lambda>c. length c = tb_row_count t) (tb_data t)"

section \<open>Lemmas\<close>

lemma wf_from_query_data [simp]: "wf_table (from_query_data name q) \<longleftrightarrow> wf_query q"
  by (simp add: wf_table_def wf_query_def from_query_data_def)

lemma table_get_0 [simp]: "table_get t 0 ci = VNull"
  by (simp add: table_get_def)

lemma table_get_cell:
  "wf_table t \<Longrightarrow> 1 \<le> r \<Longrightarrow> r \<le> tb_row_count t \<Longrightarrow> ci < length (tb_columns t) \<Longrightarrow>
   table_get t r ci = tb_data t ! ci ! (r - 1)"
  by (auto simp: table_get_def wf_table_def list_all_length)

lemma column_index_Some:
  "column_index t n = Some ci \<Longrightarrow>
     ci < length (tb_columns t) \<and> eq_ignore_ascii_case (tb_columns t ! ci) n \<and>
     (\<forall>j < ci. \<not> eq_ignore_ascii_case (tb_columns t ! j) n)"
  unfolding column_index_def by (rule position_Some)

lemma column_index_None:
  "column_index t n = None \<longleftrightarrow> (\<forall>c \<in> set (tb_columns t). \<not> eq_ignore_ascii_case c n)"
  by (simp add: column_index_def position_None)

lemma resolve_in_named_Some:
  "resolve_in_named h n k ts = Some (ti, ci) \<longleftrightarrow>
   k \<le> ti \<and> ti - k < length ts \<and> eq_ignore_ascii_case (tb_name (ts ! (ti - k))) h \<and>
   (\<forall>j < ti - k. \<not> eq_ignore_ascii_case (tb_name (ts ! j)) h) \<and> column_index (ts ! (ti - k)) n = Some ci"
proof (induction ts arbitrary: k)
  case (Cons t ts)
  show ?case
  proof (cases "eq_ignore_ascii_case (tb_name t) h")
    case True
    then show ?thesis
      by (auto simp: nth_Cons Suc_diff_le split: nat.splits)
  next
    case False
    have "resolve_in_named h n k (t # ts) = Some (ti, ci) \<longleftrightarrow>
       Suc k \<le> ti \<and> ti - Suc k < length ts \<and> eq_ignore_ascii_case (tb_name (ts ! (ti - Suc k))) h \<and>
       (\<forall>j < ti - Suc k. \<not> eq_ignore_ascii_case (tb_name (ts ! j)) h) \<and>
       column_index (ts ! (ti - Suc k)) n = Some ci"
      using False by (simp add: Cons.IH)
    also have "\<dots> \<longleftrightarrow> k \<le> ti \<and> ti - k < length (t # ts) \<and>
       eq_ignore_ascii_case (tb_name ((t # ts) ! (ti - k))) h \<and>
       (\<forall>j < ti - k. \<not> eq_ignore_ascii_case (tb_name ((t # ts) ! j)) h) \<and>
       column_index ((t # ts) ! (ti - k)) n = Some ci"
    proof (cases "ti - k")
      case 0
      then show ?thesis using False by auto
    next
      case (Suc m)
      then have m: "ti - Suc k = m" "Suc k \<le> ti" by auto
      show ?thesis
        unfolding Suc m(1) using m(2) False by (auto simp: nth_Cons less_Suc_eq_0_disj split: nat.split)
    qed
    finally show ?thesis .
  qed
qed simp

lemma resolve_in_any_Some:
  "resolve_in_any n k ts = Some (ti, ci) \<longleftrightarrow>
   k \<le> ti \<and> ti - k < length ts \<and> (\<forall>j < ti - k. column_index (ts ! j) n = None) \<and>
   column_index (ts ! (ti - k)) n = Some ci"
proof (induction ts arbitrary: k)
  case (Cons t ts)
  show ?case
  proof (cases "column_index t n")
    case (Some c)
    then show ?thesis
      by (cases "ti - k") auto
  next
    case None
    show ?thesis
    proof (cases "ti - k")
      case 0
      then show ?thesis using None by (auto simp: Cons.IH)
    next
      case (Suc m)
      then have m: "ti - Suc k = m" "Suc k \<le> ti" by auto
      show ?thesis
        using None m(2) by (auto simp: Cons.IH Suc m(1) nth_Cons less_Suc_eq_0_disj split: nat.split)
    qed
  qed
qed simp

lemma resolve_column_bounds:
  assumes "resolve_column ts h n = Some (ti, ci)"
  shows "ti < length ts \<and> ci < length (tb_columns (ts ! ti))"
  using assms column_index_Some
  by (auto simp: resolve_column_def resolve_in_named_Some resolve_in_any_Some split: option.splits)

lemma table_value_resolved:
  "resolve_column ts h n = Some (ti, ci) \<Longrightarrow>
   table_value ts isec ti ci = Inr (table_get (ts ! ti) (unwrap_or (get isec ti) 0) ci)"
  using resolve_column_bounds by (simp add: table_value_def Let_def)

section \<open>Properties\<close>

text \<open>C27: Column resolution. A reference with a table name resolves in the first table of that
  name, and only there; a bare reference resolves in the first table that has the column. The
  column found is the first of its table with that name; names are compared up to ASCII case.\<close>

theorem resolve_column_correct:
  "resolve_column ts hint col = Some (ti, ci) \<longleftrightarrow>
     ti < length ts \<and> ci < length (tb_columns (ts ! ti)) \<and>
     eq_ignore_ascii_case (tb_columns (ts ! ti) ! ci) col \<and>
     (\<forall>j < ci. \<not> eq_ignore_ascii_case (tb_columns (ts ! ti) ! j) col) \<and>
     (case hint of
        Some h \<Rightarrow> eq_ignore_ascii_case (tb_name (ts ! ti)) h \<and>
                  (\<forall>j < ti. \<not> eq_ignore_ascii_case (tb_name (ts ! j)) h)
      | None \<Rightarrow> (\<forall>j < ti. \<forall>c \<in> set (tb_columns (ts ! j)). \<not> eq_ignore_ascii_case c col))"
  (is "?l \<longleftrightarrow> ?r")
proof -
  have ci: "column_index t col = Some ci \<longleftrightarrow> ci < length (tb_columns t) \<and>
      eq_ignore_ascii_case (tb_columns t ! ci) col \<and>
      (\<forall>j < ci. \<not> eq_ignore_ascii_case (tb_columns t ! j) col)" for t
    unfolding column_index_def
  proof
    assume r: "ci < length (tb_columns t) \<and> eq_ignore_ascii_case (tb_columns t ! ci) col \<and>
      (\<forall>j < ci. \<not> eq_ignore_ascii_case (tb_columns t ! j) col)"
    then obtain k where k: "position (\<lambda>c. eq_ignore_ascii_case c col) (tb_columns t) = Some k"
      using position_None [of "\<lambda>c. eq_ignore_ascii_case c col" "tb_columns t"] by (auto simp: not_None_eq [symmetric])
    then show "position (\<lambda>c. eq_ignore_ascii_case c col) (tb_columns t) = Some ci"
      using r position_Some [OF k] by (metis linorder_neqE_nat)
  qed (rule position_Some)
  show ?thesis
    by (cases hint)
      (auto simp: resolve_column_def resolve_in_named_Some resolve_in_any_Some ci column_index_None)
qed

theorem resolve_column_correct_witness:
  "resolve_column
     [\<lparr> tb_name = str ''t'', tb_columns = [str ''id''], tb_data = [[]], tb_row_count = 0 \<rparr>,
      \<lparr> tb_name = str ''u'', tb_columns = [str ''a'', str ''B''], tb_data = [[], []], tb_row_count = 0 \<rparr>]
     None (str ''b'') = Some (1, 1)"
  unfolding resolve_column_correct
  by (simp add: eq_ignore_ascii_case_def to_ascii_lowercase_def less_Suc_eq)

end
