(* ===== verification/Intersection.thy ===== *)
theory Intersection
  imports Table
begin

text \<open>
  Row combinations of joined tables (\<open>cfml-qoq/src/intersection.rs\<close>): the flat store and the
  nested-loop builder that folds each JOIN into it. An intersection holds one 1-based row number
  per table, 0 for the missing side of an outer join.
\<close>

section \<open>The flat store\<close>

record intersections =
  in_width :: nat
  in_flat :: "nat list"

definition inters_new :: "nat \<Rightarrow> intersections" where
  "inters_new width = \<lparr> in_width = width, in_flat = [] \<rparr>"

definition inters_len :: "intersections \<Rightarrow> nat" where
  "inters_len x = (if in_width x = 0 then 0 else length (in_flat x) div in_width x)"

definition inters_is_empty :: "intersections \<Rightarrow> bool" where
  "inters_is_empty x \<longleftrightarrow> in_flat x = []"

text \<open>\<open>&flat[i * w..(i + 1) * w]\<close>: slicing past the end is a panic.\<close>

definition inters_row :: "intersections \<Rightarrow> nat \<Rightarrow> nat list outcome" where
  "inters_row x i =
     (let w = in_width x
      in if (i + 1) * w \<le> length (in_flat x) then Inr (take w (drop (i * w) (in_flat x))) else Inl Panic)"

definition push_row :: "nat list \<Rightarrow> intersections \<Rightarrow> intersections" where
  "push_row row x = x\<lparr>in_flat := in_flat x @ row\<rparr>"

definition inters_iter :: "intersections \<Rightarrow> nat list list" where
  "inters_iter x = (if in_width x = 0 then [] else chunks_exact (in_width x) (in_flat x))"

definition saturating_mul :: "nat \<Rightarrow> nat \<Rightarrow> nat" where
  "saturating_mul a b = min (a * b) usize_max"

text \<open>The chunks handed to the workers, in order; a chunk is a store of the same width.\<close>

definition par_chunks_rows :: "nat \<Rightarrow> intersections \<Rightarrow> intersections list" where
  "par_chunks_rows rows_per_chunk x =
     (let w = max (in_width x) 1;
          cs = saturating_mul (max rows_per_chunk 1) w
      in map (\<lambda>s. \<lparr> in_width = in_width x, in_flat = s \<rparr>) (chunks cs (in_flat x)))"

section \<open>The builder\<close>

text \<open>
  \<open>eval_on\<close> is a closure with a state of its own (the engine keeps the first error there), so
  a call takes and returns that state. Each loop of the source is a \<open>fold\<close> over the same range;
  its state is the closure's, the flat vector being filled and the \<open>matched\<close> flag.
\<close>

type_synonym 's on_fn = "'s \<Rightarrow> nat list \<Rightarrow> bool \<times> 's"

definition try_pair :: "'s on_fn \<Rightarrow> nat list \<Rightarrow> 's \<times> nat list \<times> bool \<Rightarrow> 's \<times> nat list \<times> bool" where
  "try_pair ev scratch = (\<lambda>(s, flat, matched).
     (case ev s scratch of (ok, s') \<Rightarrow> if ok then (s', flat @ scratch, True) else (s', flat, matched)))"

definition inner_step :: "'s on_fn \<Rightarrow> nat \<Rightarrow> nat list \<Rightarrow> 's \<times> nat list \<Rightarrow> 's \<times> nat list" where
  "inner_step ev right_rows isec = (\<lambda>(s, flat).
     (case fold (\<lambda>r. try_pair ev (isec @ [r])) [1..<Suc right_rows] (s, flat, False) of
        (s', flat', _) \<Rightarrow> (s', flat')))"

definition left_step :: "'s on_fn \<Rightarrow> nat \<Rightarrow> nat list \<Rightarrow> 's \<times> nat list \<Rightarrow> 's \<times> nat list" where
  "left_step ev right_rows isec = (\<lambda>(s, flat).
     (case fold (\<lambda>r. try_pair ev (isec @ [r])) [1..<Suc right_rows] (s, flat, False) of
        (s', flat', matched) \<Rightarrow> (s', if matched then flat' else flat' @ isec @ [0])))"

definition right_step :: "'s on_fn \<Rightarrow> nat \<Rightarrow> nat list list \<Rightarrow> nat \<Rightarrow> 's \<times> nat list \<Rightarrow> 's \<times> nat list" where
  "right_step ev width isecs r = (\<lambda>(s, flat).
     (case fold (\<lambda>isec. try_pair ev (isec @ [r])) isecs (s, flat, False) of
        (s', flat', matched) \<Rightarrow> (s', if matched then flat' else flat' @ replicate width 0 @ [r])))"

definition full_try ::
  "'s on_fn \<Rightarrow> nat list \<Rightarrow> nat \<Rightarrow> 's \<times> nat list \<times> bool list \<times> bool \<Rightarrow> 's \<times> nat list \<times> bool list \<times> bool" where
  "full_try ev isec r = (\<lambda>(s, flat, right_matched, matched).
     (case ev s (isec @ [r]) of
        (ok, s') \<Rightarrow> if ok then (s', flat @ isec @ [r], right_matched[r := True], True)
                    else (s', flat, right_matched, matched)))"

definition full_step ::
  "'s on_fn \<Rightarrow> nat \<Rightarrow> nat list \<Rightarrow> 's \<times> nat list \<times> bool list \<Rightarrow> 's \<times> nat list \<times> bool list" where
  "full_step ev right_rows isec = (\<lambda>(s, flat, right_matched).
     (case fold (full_try ev isec) [1..<Suc right_rows] (s, flat, right_matched, False) of
        (s', flat', rm, matched) \<Rightarrow> (s', if matched then flat' else flat' @ isec @ [0], rm)))"

definition full_join :: "'s on_fn \<Rightarrow> nat \<Rightarrow> nat \<Rightarrow> nat list list \<Rightarrow> 's \<Rightarrow> 's \<times> nat list" where
  "full_join ev width right_rows isecs s =
     (case fold (full_step ev right_rows) isecs (s, [], replicate (right_rows + 1) False) of
        (s', flat, rm) \<Rightarrow>
          (s', fold (\<lambda>r flat. if rm ! r then flat else flat @ replicate width 0 @ [r]) [1..<Suc right_rows] flat))"

definition join_step ::
  "'s on_fn \<Rightarrow> join_type \<Rightarrow> nat \<Rightarrow> nat \<Rightarrow> nat list list \<Rightarrow> 's \<Rightarrow> 's \<times> nat list" where
  "join_step ev jt width right_rows isecs s =
     (case jt of
        Left \<Rightarrow> fold (left_step ev right_rows) isecs (s, [])
      | Right \<Rightarrow> fold (right_step ev width isecs) [1..<Suc right_rows] (s, [])
      | Full \<Rightarrow> full_join ev width right_rows isecs s
      | _ \<Rightarrow> fold (inner_step ev right_rows) isecs (s, []))"

datatype build_error = TooLarge nat | BuildPanic

fun build_joins ::
  "('s \<Rightarrow> nat \<Rightarrow> nat list \<Rightarrow> bool \<times> 's) \<Rightarrow> nat list \<Rightarrow> nat \<Rightarrow> nat \<Rightarrow> join_type list \<Rightarrow> intersections \<Rightarrow> 's
    \<Rightarrow> (build_error + intersections) \<times> 's" where
  "build_joins ev table_rows max_size k [] x s = (Inr x, s)"
| "build_joins ev table_rows max_size k (jt # jts) x s =
     (case get table_rows (k + 1) of
        None \<Rightarrow> (Inl BuildPanic, s)
      | Some right_rows \<Rightarrow>
          (let upper_bound = saturating_mul (inters_len x) right_rows
           in if max_size < upper_bound then (Inl (TooLarge upper_bound), s)
              else (case join_step (\<lambda>s. ev s k) jt (k + 1) right_rows (inters_iter x) s of
                      (s', flat) \<Rightarrow>
                        build_joins ev table_rows max_size (k + 1) jts \<lparr> in_width = k + 2, in_flat = flat \<rparr> s')))"

definition build_intersections ::
  "nat list \<Rightarrow> join_type list \<Rightarrow> nat \<Rightarrow> ('s \<Rightarrow> nat \<Rightarrow> nat list \<Rightarrow> bool \<times> 's) \<Rightarrow> 's
    \<Rightarrow> (build_error + intersections) \<times> 's" where
  "build_intersections table_rows join_types max_size ev s =
     (case table_rows of
        [] \<Rightarrow> (Inr (inters_new 0), s)
      | n # _ \<Rightarrow>
          build_joins ev table_rows max_size 0 join_types \<lparr> in_width = 1, in_flat = [1..<Suc n] \<rparr> s)"

section \<open>Lemmas on the store\<close>

text \<open>A store of width \<open>w\<close> that holds the rows \<open>rs\<close>.\<close>

definition inters_of :: "nat \<Rightarrow> nat list list \<Rightarrow> intersections" where
  "inters_of w rs = \<lparr> in_width = w, in_flat = concat rs \<rparr>"

definition has_width :: "nat \<Rightarrow> nat list list \<Rightarrow> bool" where
  "has_width w rs \<longleftrightarrow> 0 < w \<and> (\<forall>r \<in> set rs. length r = w)"

lemma length_concat_width: "has_width w rs \<Longrightarrow> length (concat rs) = length rs * w"
  by (induction rs) (auto simp: has_width_def)

lemma has_width_simps [simp]:
  "has_width w [] \<longleftrightarrow> 0 < w"
  "has_width w (r # rs) \<longleftrightarrow> length r = w \<and> has_width w rs"
  "has_width w (rs @ ss) \<longleftrightarrow> has_width w rs \<and> has_width w ss"
  by (auto simp: has_width_def)

lemma has_width_concat [simp]: "has_width w (concat rss) \<longleftrightarrow> 0 < w \<and> (\<forall>rs \<in> set rss. has_width w rs)"
  by (auto simp: has_width_def)

lemma has_width_pos: "has_width w rs \<Longrightarrow> 0 < w"
  by (simp add: has_width_def)

lemma concat_width_Nil: "has_width w rs \<Longrightarrow> concat rs = [] \<longleftrightarrow> rs = []"
  using has_width_pos by (cases rs) auto

lemma take_concat_width: "has_width w rs \<Longrightarrow> take (n * w) (concat rs) = concat (take n rs)"
proof (induction n arbitrary: rs)
  case (Suc n)
  show ?case
  proof (cases rs)
    case (Cons r rs')
    with Suc.prems have "length r = w" "has_width w rs'" by (auto simp: has_width_def)
    then show ?thesis using Cons Suc.IH [of rs'] by simp
  qed simp
qed simp

lemma drop_concat_width: "has_width w rs \<Longrightarrow> drop (n * w) (concat rs) = concat (drop n rs)"
proof (induction n arbitrary: rs)
  case (Suc n)
  show ?case
  proof (cases rs)
    case (Cons r rs')
    with Suc.prems have "length r = w" "has_width w rs'" by (auto simp: has_width_def)
    then show ?thesis using Cons Suc.IH [of rs'] by simp
  qed simp
qed simp

lemma inters_of_simps [simp]:
  assumes "has_width w rs"
  shows "in_width (inters_of w rs) = w"
    and "inters_iter (inters_of w rs) = rs"
    and "inters_len (inters_of w rs) = length rs"
    and "inters_is_empty (inters_of w rs) \<longleftrightarrow> rs = []"
proof -
  have w: "0 < w" "\<forall>r \<in> set rs. length r = w" using assms by (simp_all add: has_width_def)
  show "in_width (inters_of w rs) = w" "inters_iter (inters_of w rs) = rs"
    using w by (simp_all add: inters_of_def inters_iter_def chunks_exact_concat)
  show "inters_len (inters_of w rs) = length rs"
    using w length_concat_width [OF assms] by (simp add: inters_of_def inters_len_def)
  show "inters_is_empty (inters_of w rs) \<longleftrightarrow> rs = []"
    using concat_width_Nil [OF assms] by (simp only: inters_of_def inters_is_empty_def intersections.simps)
qed

lemma inters_row_of:
  assumes "has_width w rs" "i < length rs"
  shows "inters_row (inters_of w rs) i = Inr (rs ! i)"
proof -
  have "(i + 1) * w \<le> length rs * w"
    using assms(2) by (intro mult_le_mono1) simp
  then have "(i + 1) * w \<le> length (concat rs)"
    using length_concat_width [OF assms(1)] by (simp only:)
  moreover have "take w (drop (i * w) (concat rs)) = rs ! i"
  proof -
    have "concat (drop i rs) = rs ! i @ concat (drop (Suc i) rs)"
      using assms(2) by (simp flip: Cons_nth_drop_Suc)
    moreover have "length (rs ! i) = w"
      using assms by (simp add: has_width_def)
    ultimately show ?thesis
      by (simp add: drop_concat_width [OF assms(1)])
  qed
  ultimately show ?thesis
    by (simp only: inters_row_def inters_of_def Let_def intersections.simps if_True)
qed

lemma push_row_of: "push_row r (inters_of w rs) = inters_of w (rs @ [r])"
  by (simp add: push_row_def inters_of_def)

lemma inters_new_of: "inters_new w = inters_of w []"
  by (simp add: inters_new_def inters_of_def)

text \<open>Every store whose flat vector is a whole number of rows is of this form.\<close>

lemma concat_chunks_exact: "w dvd length xs \<Longrightarrow> 0 < w \<Longrightarrow> concat (chunks_exact w xs) = xs"
proof (induction w xs rule: chunks_exact.induct)
  case (1 w xs)
  show ?case
  proof (cases "length xs < w")
    case True
    then have "xs = []" using 1 by (metis dvd_imp_le leD length_greater_0_conv)
    then show ?thesis by simp
  next
    case False
    then have "w dvd length (drop w xs)" using 1 by (simp add: dvd_minus_self)
    then show ?thesis using 1 False by (simp add: chunks_exact.simps [of w xs])
  qed
qed

lemma chunks_exact_lengths: "r \<in> set (chunks_exact w xs) \<Longrightarrow> length r = w"
proof (induction w xs rule: chunks_exact.induct)
  case (1 w xs)
  then show ?case
    by (subst (asm) (2) chunks_exact.simps) (auto split: if_splits)
qed

lemma chunks_concat_width:
  assumes "has_width w rs" "0 < n"
  shows "chunks (n * w) (concat rs) = map concat (chunks n rs)"
  using assms
proof (induction n rs rule: chunks.induct)
  case (1 n rs)
  have "0 < w" using 1 by (simp add: has_width_def)
  have "concat rs = [] \<longleftrightarrow> rs = []" using 1(2) by (rule concat_width_Nil)
  moreover have "has_width w (drop n rs)" using 1(2) by (auto simp: has_width_def dest: in_set_dropD)
  ultimately show ?case
    using 1 \<open>0 < w\<close> take_concat_width [OF 1(2), of n] drop_concat_width [OF 1(2), of n]
    by (simp add: chunks.simps [of "n * w"] chunks.simps [of n rs])
qed

text \<open>The chunks of a store are the chunks of its rows, unless the size of a chunk overflows.\<close>

lemma par_chunks_rows_of:
  assumes "has_width w rs" "max n 1 * w \<le> usize_max"
  shows "par_chunks_rows n (inters_of w rs) = map (inters_of w) (chunks (max n 1) rs)"
proof -
  have "max w 1 = w" using assms(1) by (simp add: has_width_def)
  then show ?thesis
    using assms chunks_concat_width [OF assms(1), of "max n 1"]
    by (simp add: par_chunks_rows_def saturating_mul_def inters_of_def Let_def)
qed

declare upt_Suc [simp del]

section \<open>What a join means\<close>

text \<open>The join of the rows \<open>ls\<close>, of width \<open>w\<close>, with \<open>n\<close> rows on the right.\<close>

definition hits :: "(nat list \<Rightarrow> bool) \<Rightarrow> nat \<Rightarrow> nat list \<Rightarrow> nat list list" where
  "hits P n l = filter P (map (\<lambda>r. l @ [r]) [1..<Suc n])"

definition hits_right :: "(nat list \<Rightarrow> bool) \<Rightarrow> nat list list \<Rightarrow> nat \<Rightarrow> nat list list" where
  "hits_right P ls r = filter P (map (\<lambda>l. l @ [r]) ls)"

definition or_default :: "'a list \<Rightarrow> 'a \<Rightarrow> 'a list" where
  "or_default xs d = (if xs = [] then [d] else xs)"

definition left_rows :: "(nat list \<Rightarrow> bool) \<Rightarrow> nat \<Rightarrow> nat list list \<Rightarrow> nat list list" where
  "left_rows P n ls = concat (map (\<lambda>l. or_default (hits P n l) (l @ [0])) ls)"

fun join_rows :: "(nat list \<Rightarrow> bool) \<Rightarrow> join_type \<Rightarrow> nat \<Rightarrow> nat \<Rightarrow> nat list list \<Rightarrow> nat list list" where
  "join_rows P Inner w n ls = concat (map (hits P n) ls)"
| "join_rows P Cross w n ls = concat (map (hits P n) ls)"
| "join_rows P Left w n ls = left_rows P n ls"
| "join_rows P Right w n ls =
     concat (map (\<lambda>r. or_default (hits_right P ls r) (replicate w 0 @ [r])) [1..<Suc n])"
| "join_rows P Full w n ls =
     left_rows P n ls
     @ map (\<lambda>r. replicate w 0 @ [r]) (filter (\<lambda>r. hits_right P ls r = []) [1..<Suc n])"

text \<open>The rows of a chain of joins, or the size at which it is refused.\<close>

fun chain_rows ::
  "(nat \<Rightarrow> nat list \<Rightarrow> bool) \<Rightarrow> nat list \<Rightarrow> nat \<Rightarrow> nat \<Rightarrow> join_type list \<Rightarrow> nat list list \<Rightarrow> build_error + nat list list"
where
  "chain_rows P counts max_size k [] ls = Inr ls"
| "chain_rows P counts max_size k (jt # jts) ls =
     (let n = counts ! (k + 1); size = min (length ls * n) usize_max
      in if max_size < size then Inl (TooLarge size)
         else chain_rows P counts max_size (k + 1) jts (join_rows (P k) jt (k + 1) n ls))"

lemma width_hits: "length l = w \<Longrightarrow> has_width (Suc w) (hits P n l)"
  by (auto simp: hits_def has_width_def)

lemma width_hits_right: "has_width w ls \<Longrightarrow> has_width (Suc w) (hits_right P ls r)"
  by (auto simp: hits_right_def has_width_def)

lemma width_or_default: "has_width w xs \<Longrightarrow> length d = w \<Longrightarrow> has_width w (or_default xs d)"
  by (auto simp: or_default_def has_width_def)

lemma width_join_rows:
  assumes "has_width w ls"
  shows "has_width (Suc w) (join_rows P jt w n ls)"
proof -
  have l: "length l = w" if "l \<in> set ls" for l using assms that by (simp add: has_width_def)
  then have "has_width (Suc w) (left_rows P n ls)"
    by (auto simp: left_rows_def intro!: width_or_default width_hits)
  moreover have "has_width (Suc w) (map (\<lambda>r. replicate w 0 @ [r]) rs)" for rs
    by (auto simp: has_width_def)
  ultimately show ?thesis
    using l assms by (cases jt) (auto intro!: width_or_default width_hits width_hits_right)
qed

text \<open>Row numbers in range: at most the number of rows of each table, 0 for a missing row.\<close>

definition within :: "nat list \<Rightarrow> nat list \<Rightarrow> bool" where
  "within counts l \<longleftrightarrow> length l \<le> length counts \<and> (\<forall>i < length l. l ! i \<le> counts ! i)"

lemma within_snoc:
  "within counts (l @ [r]) \<longleftrightarrow> within counts l \<and> length l < length counts \<and> r \<le> counts ! length l"
  by (auto simp: within_def nth_append less_Suc_eq)

lemma within_zeros: "w \<le> length counts \<Longrightarrow> within counts (replicate w 0)"
  by (simp add: within_def)

lemma within_join_rows:
  assumes "\<forall>l \<in> set ls. length l = w \<and> within counts l" "w < length counts" "n = counts ! w"
    and "x \<in> set (join_rows P jt w n ls)"
  shows "within counts x"
proof -
  have pair: "within counts (l @ [r])" if "l \<in> set ls" "r \<le> n" for l r
    using assms(1-3) that by (simp add: within_snoc)
  have zeros: "within counts (replicate w 0 @ [r])" if "r \<le> n" for r
    using assms(2,3) that by (simp add: within_snoc within_zeros)
  have "\<exists>l \<in> insert (replicate w 0) (set ls). \<exists>r \<le> n. x = l @ [r]"
    using assms(4)
    by (cases jt) (auto simp: hits_def hits_right_def left_rows_def or_default_def split: if_splits)
  then show ?thesis using pair zeros by blast
qed

text \<open>
  The contract of \<open>eval_on\<close>: its state is either \<open>ok\<close> or not; it answers \<open>P k c\<close> for the
  candidates \<open>c\<close> that \<open>G k\<close> accepts, keeping an \<open>ok\<close> state, and on any other candidate it
  leaves \<open>ok\<close> for ever. The engine's closure has this with the first error as the state.
\<close>

locale join_closure =
  fixes ev :: "'s \<Rightarrow> nat \<Rightarrow> nat list \<Rightarrow> bool \<times> 's" and ok :: "'s \<Rightarrow> bool"
    and P :: "nat \<Rightarrow> nat list \<Rightarrow> bool" and G :: "nat \<Rightarrow> nat list \<Rightarrow> bool"
  assumes step_ok: "ok s \<Longrightarrow> ok (snd (ev s k c)) \<longleftrightarrow> G k c"
    and stuck: "\<not> ok s \<Longrightarrow> \<not> ok (snd (ev s k c))"
    and answer: "ok s \<Longrightarrow> G k c \<Longrightarrow> fst (ev s k c) = P k c"
begin

lemma ok_step: "ok (snd (ev s k c)) \<longleftrightarrow> ok s \<and> G k c"
  using step_ok stuck by blast

text \<open>A loop that tries the candidates \<open>cs\<close>.\<close>

lemma try_fold:
  "(\<exists>s' flat' m'. fold (try_pair (\<lambda>s. ev s k)) cs (s, flat, m) = (s', flat', m') \<and>
      (ok s' \<longleftrightarrow> ok s \<and> (\<forall>c \<in> set cs. G k c)) \<and>
      (ok s' \<longrightarrow> flat' = flat @ concat (filter (P k) cs) \<and> (m' \<longleftrightarrow> m \<or> filter (P k) cs \<noteq> [])))"
proof (induction cs arbitrary: s flat m)
  case (Cons c cs)
  obtain a s1 where e: "ev s k c = (a, s1)" by fastforce
  have s1: "ok s1 \<longleftrightarrow> ok s \<and> G k c" and a: "ok s1 \<Longrightarrow> a = P k c"
    using ok_step [of s k c] answer [of s k c] e by auto
  show ?case
    using Cons.IH [of s1 "if a then flat @ c else flat" "a \<or> m"] s1 a e
    by (cases a) (auto simp: try_pair_def)
qed simp

text \<open>A stage of the builder that appends the rows \<open>rs\<close> when the condition \<open>a\<close> holds.\<close>

definition emits :: "bool \<Rightarrow> nat list list \<Rightarrow> ('s \<times> nat list \<Rightarrow> 's \<times> nat list) \<Rightarrow> bool" where
  "emits a rs f \<longleftrightarrow>
     (\<forall>s flat. (ok (fst (f (s, flat))) \<longleftrightarrow> ok s \<and> a) \<and>
        (ok (fst (f (s, flat))) \<longrightarrow> snd (f (s, flat)) = flat @ concat rs))"

lemma emits_fold:
  "(\<And>x. x \<in> set xs \<Longrightarrow> emits (a x) (rs x) (f x)) \<Longrightarrow>
   emits (\<forall>x \<in> set xs. a x) (concat (map rs xs)) (fold f xs)"
proof (induction xs)
  case (Cons x xs)
  then have 1: "emits (a x) (rs x) (f x)" and 2: "emits (\<forall>x \<in> set xs. a x) (concat (map rs xs)) (fold f xs)"
    by auto
  show ?case
    unfolding emits_def
  proof (intro allI)
    fix s flat
    obtain s1 flat1 where e: "f x (s, flat) = (s1, flat1)" by fastforce
    have "ok s1 \<longleftrightarrow> ok s \<and> a x" "ok s1 \<Longrightarrow> flat1 = flat @ concat (rs x)"
      using 1 [unfolded emits_def, rule_format, of s flat] e by auto
    then show "(ok (fst (fold f (x # xs) (s, flat))) \<longleftrightarrow> ok s \<and> (\<forall>x \<in> set (x # xs). a x)) \<and>
        (ok (fst (fold f (x # xs) (s, flat))) \<longrightarrow>
          snd (fold f (x # xs) (s, flat)) = flat @ concat (concat (map rs (x # xs))))"
      using 2 [unfolded emits_def, rule_format, of s1 flat1] e by auto
  qed
qed (simp add: emits_def)

lemma fold_rows: "fold (\<lambda>r. f (isec @ [r])) rs = fold f (map (\<lambda>r. isec @ [r]) rs)"
  by (simp add: fold_map comp_def)

lemma fold_isecs: "fold (\<lambda>l. f (l @ [r])) ls = fold f (map (\<lambda>l. l @ [r]) ls)"
  by (simp add: fold_map comp_def)

abbreviation good_row :: "nat \<Rightarrow> nat \<Rightarrow> nat list \<Rightarrow> bool" where
  "good_row k n l \<equiv> \<forall>r \<in> set [1..<Suc n]. G k (l @ [r])"

lemma emits_inner: "emits (good_row k n l) (hits (P k) n l) (inner_step (\<lambda>s. ev s k) n l)"
  unfolding emits_def
proof (intro allI)
  fix s flat
  show "(ok (fst (inner_step (\<lambda>s. ev s k) n l (s, flat))) \<longleftrightarrow> ok s \<and> good_row k n l) \<and>
    (ok (fst (inner_step (\<lambda>s. ev s k) n l (s, flat))) \<longrightarrow>
      snd (inner_step (\<lambda>s. ev s k) n l (s, flat)) = flat @ concat (hits (P k) n l))"
    using try_fold [of k "map (\<lambda>r. l @ [r]) [1..<Suc n]" s flat False]
    by (auto simp only: inner_step_def fold_rows hits_def split_conv fst_conv snd_conv set_map ball_simps)
qed

lemma emits_left:
  "emits (good_row k n l) (or_default (hits (P k) n l) (l @ [0])) (left_step (\<lambda>s. ev s k) n l)"
  unfolding emits_def
proof (intro allI)
  fix s flat
  show "(ok (fst (left_step (\<lambda>s. ev s k) n l (s, flat))) \<longleftrightarrow> ok s \<and> good_row k n l) \<and>
    (ok (fst (left_step (\<lambda>s. ev s k) n l (s, flat))) \<longrightarrow>
      snd (left_step (\<lambda>s. ev s k) n l (s, flat)) = flat @ concat (or_default (hits (P k) n l) (l @ [0])))"
    using try_fold [of k "map (\<lambda>r. l @ [r]) [1..<Suc n]" s flat False]
    by (auto simp: left_step_def fold_rows hits_def or_default_def)
qed

lemma emits_right:
  "emits (\<forall>l \<in> set ls. G k (l @ [r])) (or_default (hits_right (P k) ls r) (replicate w 0 @ [r]))
     (right_step (\<lambda>s. ev s k) w ls r)"
  unfolding emits_def
proof (intro allI)
  fix s flat
  show "(ok (fst (right_step (\<lambda>s. ev s k) w ls r (s, flat))) \<longleftrightarrow> ok s \<and> (\<forall>l \<in> set ls. G k (l @ [r]))) \<and>
    (ok (fst (right_step (\<lambda>s. ev s k) w ls r (s, flat))) \<longrightarrow>
      snd (right_step (\<lambda>s. ev s k) w ls r (s, flat)) =
        flat @ concat (or_default (hits_right (P k) ls r) (replicate w 0 @ [r])))"
    using try_fold [of k "map (\<lambda>l. l @ [r]) ls" s flat False]
    by (auto simp: right_step_def fold_isecs hits_right_def or_default_def)
qed

text \<open>The FULL join also marks the rows of the right side that found a partner.\<close>

lemma full_try_fold:
  assumes "\<forall>r \<in> set rs. r < length rm"
  shows "\<exists>s' flat' rm' m'.
      fold (full_try (\<lambda>s. ev s k) l) rs (s, flat, rm, m) = (s', flat', rm', m') \<and>
      length rm' = length rm \<and>
      (ok s' \<longleftrightarrow> ok s \<and> (\<forall>r \<in> set rs. G k (l @ [r]))) \<and>
      (ok s' \<longrightarrow> flat' = flat @ concat (filter (P k) (map (\<lambda>r. l @ [r]) rs)) \<and>
         (m' \<longleftrightarrow> m \<or> filter (P k) (map (\<lambda>r. l @ [r]) rs) \<noteq> []) \<and>
         (\<forall>i < length rm. rm' ! i \<longleftrightarrow> rm ! i \<or> (i \<in> set rs \<and> P k (l @ [i]))))"
  using assms
proof (induction rs arbitrary: s flat rm m)
  case (Cons r rs)
  obtain a s1 where e: "ev s k (l @ [r]) = (a, s1)" by fastforce
  have s1: "ok s1 \<longleftrightarrow> ok s \<and> G k (l @ [r])" and a: "ok s1 \<Longrightarrow> a = P k (l @ [r])"
    using ok_step [of s k "l @ [r]"] answer [of s k "l @ [r]"] e by auto
  let ?rm = "if a then rm[r := True] else rm"
  have "\<forall>i \<in> set rs. i < length ?rm" using Cons.prems by simp
  from Cons.IH [OF this, of s1 "if a then flat @ l @ [r] else flat" "a \<or> m"]
  obtain s' flat' rm' m' where f: "fold (full_try (\<lambda>s. ev s k) l) rs
        (s1, if a then flat @ l @ [r] else flat, ?rm, a \<or> m) = (s', flat', rm', m')"
    and len: "length rm' = length ?rm"
    and ok': "ok s' \<longleftrightarrow> ok s1 \<and> (\<forall>r \<in> set rs. G k (l @ [r]))"
    and res: "ok s' \<Longrightarrow> flat' = (if a then flat @ l @ [r] else flat) @
           concat (filter (P k) (map (\<lambda>r. l @ [r]) rs)) \<and>
         (m' \<longleftrightarrow> (a \<or> m) \<or> filter (P k) (map (\<lambda>r. l @ [r]) rs) \<noteq> []) \<and>
         (\<forall>i < length ?rm. rm' ! i \<longleftrightarrow> ?rm ! i \<or> (i \<in> set rs \<and> P k (l @ [i])))"
    by blast
  have mark: "?rm ! i \<longleftrightarrow> rm ! i \<or> (a \<and> i = r)" if "i < length rm" for i
    using that Cons.prems by (auto simp: nth_list_update)
  have "fold (full_try (\<lambda>s. ev s k) l) (r # rs) (s, flat, rm, m) = (s', flat', rm', m')"
    using f e by (cases a) (simp_all add: full_try_def)
  moreover have "\<forall>i < length rm. rm' ! i \<longleftrightarrow> rm ! i \<or> (i \<in> set (r # rs) \<and> P k (l @ [i]))" if "ok s'"
  proof (intro allI impI)
    fix i
    assume "i < length rm"
    then show "rm' ! i \<longleftrightarrow> rm ! i \<or> (i \<in> set (r # rs) \<and> P k (l @ [i]))"
      using res [OF that] a ok' that mark [of i] by auto
  qed
  moreover have "flat' = flat @ concat (filter (P k) (map (\<lambda>r. l @ [r]) (r # rs)))"
    "m' \<longleftrightarrow> m \<or> filter (P k) (map (\<lambda>r. l @ [r]) (r # rs)) \<noteq> []" if "ok s'"
    using conjunct1 [OF res [OF that]] conjunct1 [OF conjunct2 [OF res [OF that]]] a ok' that by auto
  ultimately show ?case
    using len ok' s1 by auto
qed auto

lemma full_step_fold:
  assumes "n < length rm"
  shows "\<exists>s' flat' rm'.
      fold (full_step (\<lambda>s. ev s k) n) ls (s, flat, rm) = (s', flat', rm') \<and> length rm' = length rm \<and>
      (ok s' \<longleftrightarrow> ok s \<and> (\<forall>l \<in> set ls. good_row k n l)) \<and>
      (ok s' \<longrightarrow> flat' = flat @ concat (left_rows (P k) n ls) \<and>
         (\<forall>i \<in> set [1..<Suc n]. rm' ! i \<longleftrightarrow> rm ! i \<or> hits_right (P k) ls i \<noteq> []))"
  using assms
proof (induction ls arbitrary: s flat rm)
  case (Cons l ls)
  have "\<forall>r \<in> set [1..<Suc n]. r < length rm" using Cons.prems by auto
  from full_try_fold [OF this, of k l s flat False, folded hits_def]
  obtain s1 flat1 rm1 m1 where f: "fold (full_try (\<lambda>s. ev s k) l) [1..<Suc n] (s, flat, rm, False) = (s1, flat1, rm1, m1)"
    and len: "length rm1 = length rm"
    and ok1: "ok s1 \<longleftrightarrow> ok s \<and> good_row k n l"
    and r1: "ok s1 \<longrightarrow> flat1 = flat @ concat (hits (P k) n l) \<and> (m1 \<longleftrightarrow> False \<or> hits (P k) n l \<noteq> []) \<and>
         (\<forall>i < length rm. rm1 ! i \<longleftrightarrow> rm ! i \<or> (i \<in> set [1..<Suc n] \<and> P k (l @ [i])))"
    by blast
  let ?flat = "if m1 then flat1 else flat1 @ l @ [0]"
  have e: "full_step (\<lambda>s. ev s k) n l (s, flat, rm) = (s1, ?flat, rm1)"
    unfolding full_step_def split_conv f by simp
  have "n < length rm1" using len Cons.prems by simp
  from Cons.IH [OF this, of s1 ?flat] obtain s' flat' rm' where
    g: "fold (full_step (\<lambda>s. ev s k) n) ls (s1, ?flat, rm1) = (s', flat', rm')" "length rm' = length rm1"
    and ok': "ok s' \<longleftrightarrow> ok s1 \<and> (\<forall>l \<in> set ls. good_row k n l)"
    and r': "ok s' \<longrightarrow> flat' = ?flat @ concat (left_rows (P k) n ls) \<and>
         (\<forall>i \<in> set [1..<Suc n]. rm' ! i \<longleftrightarrow> rm1 ! i \<or> hits_right (P k) ls i \<noteq> [])"
    by blast
  have "rm' ! i \<longleftrightarrow> rm ! i \<or> hits_right (P k) (l # ls) i \<noteq> []" if "ok s'" "i \<in> set [1..<Suc n]" for i
  proof -
    have "i < length rm" using that(2) Cons.prems by simp
    then show ?thesis using r' r1 ok' that by (simp add: hits_right_def)
  qed
  moreover have "flat' = flat @ concat (left_rows (P k) n (l # ls))" if "ok s'"
    using r' r1 ok' that by (simp add: left_rows_def or_default_def)
  moreover have "fold (full_step (\<lambda>s. ev s k) n) (l # ls) (s, flat, rm) = (s', flat', rm')"
    using e g(1) by simp
  moreover have "ok s' \<longleftrightarrow> ok s \<and> (\<forall>l \<in> set (l # ls). good_row k n l)"
    using ok' ok1 by (simp only: set_simps ball_simps) blast
  ultimately show ?case
    using g(2) len by (intro exI [of _ s'] exI [of _ flat'] exI [of _ rm'] conjI impI ballI) simp_all
qed (simp add: left_rows_def hits_right_def)

lemma fold_append_unless:
  "fold (\<lambda>r flat. if q r then flat else flat @ h r) rs flat = flat @ concat (map h (filter (\<lambda>r. \<not> q r) rs))"
  by (induction rs arbitrary: flat) auto

lemma full_join_rows:
  assumes "full_join (\<lambda>s. ev s k) w n ls s = (s', flat)"
  shows "(ok s' \<longleftrightarrow> ok s \<and> (\<forall>l \<in> set ls. good_row k n l)) \<and>
    (ok s' \<longrightarrow> flat = concat (join_rows (P k) Full w n ls))"
proof -
  have n: "n < length (replicate (n + 1) False)" by simp
  obtain s1 flat1 rm where f:
    "fold (full_step (\<lambda>s. ev s k) n) ls (s, [], replicate (n + 1) False) = (s1, flat1, rm)"
    and ok1: "ok s1 \<longleftrightarrow> ok s \<and> (\<forall>l \<in> set ls. good_row k n l)"
    and r: "ok s1 \<longrightarrow> flat1 = [] @ concat (left_rows (P k) n ls) \<and>
      (\<forall>i \<in> set [1..<Suc n]. rm ! i \<longleftrightarrow> replicate (n + 1) False ! i \<or> hits_right (P k) ls i \<noteq> [])"
    using full_step_fold [OF n, of k ls s "[]"] by blast
  have "\<not> replicate (n + 1) False ! i" if "i \<in> set [1..<Suc n]" for i
    using that by (subst nth_replicate) auto
  then have r1: "ok s1 \<Longrightarrow> flat1 = concat (left_rows (P k) n ls)"
    "ok s1 \<Longrightarrow> \<forall>i \<in> set [1..<Suc n]. rm ! i \<longleftrightarrow> hits_right (P k) ls i \<noteq> []"
    using r by (simp_all only: append_Nil) blast
  have e: "s' = s1" "flat = flat1 @ concat (map (\<lambda>r. replicate w 0 @ [r]) (filter (\<lambda>r. \<not> rm ! r) [1..<Suc n]))"
    using assms f by (simp_all add: full_join_def fold_append_unless)
  have "filter (\<lambda>r. \<not> rm ! r) [1..<Suc n] = filter (\<lambda>r. hits_right (P k) ls r = []) [1..<Suc n]" if "ok s1"
    using r1(2) [OF that] by (intro filter_cong) auto
  then show ?thesis using ok1 r1(1) e by simp
qed

text \<open>One join.\<close>

lemma join_step_rows:
  assumes "join_step (\<lambda>s. ev s k) jt w n ls s = (s', flat)"
  shows "(ok s' \<longleftrightarrow> ok s \<and> (\<forall>l \<in> set ls. good_row k n l)) \<and>
    (ok s' \<longrightarrow> flat = concat (join_rows (P k) jt w n ls))"
proof -
  have inner: "emits (\<forall>l \<in> set ls. good_row k n l) (concat (map (hits (P k) n) ls)) (fold (inner_step (\<lambda>s. ev s k) n) ls)"
    by (rule emits_fold) (rule emits_inner)
  have left: "emits (\<forall>l \<in> set ls. good_row k n l) (left_rows (P k) n ls) (fold (left_step (\<lambda>s. ev s k) n) ls)"
    unfolding left_rows_def by (rule emits_fold) (rule emits_left)
  have right: "emits (\<forall>r \<in> set [1..<Suc n]. \<forall>l \<in> set ls. G k (l @ [r]))
      (concat (map (\<lambda>r. or_default (hits_right (P k) ls r) (replicate w 0 @ [r])) [1..<Suc n]))
      (fold (right_step (\<lambda>s. ev s k) w ls) [1..<Suc n])"
    by (rule emits_fold) (rule emits_right)
  show ?thesis
  proof (cases jt)
    case Right
    then show ?thesis
      using assms right [unfolded emits_def, rule_format, of s "[]"]
      by (simp add: join_step_def) blast
  next
    case Full
    then show ?thesis using assms full_join_rows by (simp add: join_step_def)
  qed (use assms inner [unfolded emits_def, rule_format, of s "[]"] left [unfolded emits_def, rule_format, of s "[]"]
      in \<open>simp_all add: join_step_def\<close>)
qed

lemma chain_ok: "build_joins ev counts m k jts x s = (res, s') \<Longrightarrow> ok s' \<Longrightarrow> ok s"
proof (induction jts arbitrary: k x s)
  case (Cons jt jts)
  show ?case
  proof (cases "get counts (k + 1)")
    case (Some n)
    show ?thesis
    proof (cases "m < saturating_mul (inters_len x) n")
      case False
      obtain s1 flat where j: "join_step (\<lambda>s. ev s k) jt (k + 1) n (inters_iter x) s = (s1, flat)" by fastforce
      then have "build_joins ev counts m (k + 1) jts \<lparr> in_width = k + 2, in_flat = flat \<rparr> s1 = (res, s')"
        using Cons.prems(1) Some False by (simp add: Let_def)
      then have "ok s1" using Cons.IH Cons.prems(2) by blast
      then show ?thesis using join_step_rows [OF j] by blast
    qed (use Cons.prems Some in \<open>simp add: Let_def\<close>)
  qed (use Cons.prems in simp)
qed simp

text \<open>The whole chain: when no call failed, the rows are those of \<^const>\<open>chain_rows\<close>.\<close>

lemma build_joins_rows:
  assumes "build_joins ev counts m k jts (inters_of (k + 1) ls) s = (res, s')"
    and "has_width (k + 1) ls" "k + length jts < length counts" "ok s'"
  shows "res = map_sum id (inters_of (k + 1 + length jts)) (chain_rows P counts m k jts ls)"
  using assms
proof (induction jts arbitrary: k ls s)
  case (Cons jt jts)
  let ?n = "counts ! (k + 1)" and ?size = "min (length ls * (counts ! (k + 1))) usize_max"
  have get: "get counts (k + 1) = Some ?n" using Cons.prems(3) by simp
  have step: "build_joins ev counts m k (jt # jts) (inters_of (k + 1) ls) s =
      (if m < ?size then (Inl (TooLarge ?size), s)
       else (case join_step (\<lambda>s. ev s k) jt (k + 1) ?n ls s of
               (s', flat) \<Rightarrow> build_joins ev counts m (k + 1) jts \<lparr> in_width = k + 2, in_flat = flat \<rparr> s'))"
    using get by (simp only: build_joins.simps option.simps saturating_mul_def Let_def
        inters_of_simps [OF Cons.prems(2)])
  show ?case
  proof (cases "m < ?size")
    case True
    then show ?thesis
      using Cons.prems(1) step by (simp add: Let_def)
  next
    case False
    obtain s1 flat where j: "join_step (\<lambda>s. ev s k) jt (k + 1) ?n ls s = (s1, flat)" by fastforce
    have "build_joins ev counts m (k + 1) jts \<lparr> in_width = k + 2, in_flat = flat \<rparr> s1 = (res, s')"
      using Cons.prems(1) step j by (simp only: False if_False split_conv)
    moreover have "ok s1"
      using calculation Cons.prems(4) chain_ok by blast
    ultimately have "build_joins ev counts m (k + 1) jts
        (inters_of (k + 1 + 1) (join_rows (P k) jt (k + 1) ?n ls)) s1 = (res, s')"
      using join_step_rows [OF j] by (simp add: inters_of_def)
    moreover have "chain_rows P counts m k (jt # jts) ls =
        chain_rows P counts m (k + 1) jts (join_rows (P k) jt (k + 1) ?n ls)"
      by (simp only: chain_rows.simps Let_def False if_False)
    ultimately show ?thesis
      using Cons.IH [of "k + 1" "join_rows (P k) jt (k + 1) ?n ls" s1] Cons.prems(3,4)
        width_join_rows [OF Cons.prems(2), of "P k" jt ?n]
      by simp
  qed
qed simp

text \<open>No call fails when every combination of row numbers in range is accepted.\<close>

lemma chain_good:
  assumes "ok s" "has_width (k + 1) ls" "\<forall>l \<in> set ls. within counts l" "k + length jts < length counts"
    and good: "\<And>j c. length c = j + 2 \<Longrightarrow> within counts c \<Longrightarrow> G j c"
  shows "ok (snd (build_joins ev counts m k jts (inters_of (k + 1) ls) s))"
  using assms(1-4)
proof (induction jts arbitrary: k ls s)
  case (Cons jt jts)
  let ?n = "counts ! (k + 1)"
  have k: "k + 1 < length counts" using Cons.prems(4) by simp
  obtain s1 flat where j: "join_step (\<lambda>s. ev s k) jt (k + 1) ?n ls s = (s1, flat)" by fastforce
  have "G k (l @ [r])" if "l \<in> set ls" "r \<in> set [1..<Suc ?n]" for l r
  proof (rule good)
    have l: "length l = k + 1" using Cons.prems(2) that(1) by (simp add: has_width_def)
    then show "length (l @ [r]) = k + 2" by simp
    show "within counts (l @ [r])"
      using l k that Cons.prems(3) by (simp add: within_snoc)
  qed
  then have s1: "ok s1" and flat: "flat = concat (join_rows (P k) jt (k + 1) ?n ls)"
    using join_step_rows [OF j] Cons.prems(1) by blast+
  have "\<forall>l \<in> set (join_rows (P k) jt (k + 1) ?n ls). within counts l"
    using within_join_rows [of ls "k + 1" counts ?n _ "P k" jt] Cons.prems(2,3) k
    by (simp add: has_width_def)
  then have "ok (snd (build_joins ev counts m (k + 1) jts
      (inters_of (k + 1 + 1) (join_rows (P k) jt (k + 1) ?n ls)) s1))"
    using Cons.prems(4) s1 width_join_rows [OF Cons.prems(2), of "P k" jt ?n] by (intro Cons.IH) simp_all
  then show ?case
    using k j flat Cons.prems(1,2) by (simp add: inters_of_simps [OF Cons.prems(2), simplified] Let_def)
      (simp add: inters_of_def)
qed simp

end

end
