(* ===== verification/Eval.thy ===== *)
theory Eval
  imports Operators Intersection
begin

text \<open>
  Expression evaluation (\<open>execution.rs\<close>, \<open>Engine::eval\<close> and what it calls). One evaluator serves
  both contexts: a single row combination, or a whole group of rows of a grouped query.

  In a tree that is evaluated, each nested sub-select stands for the outcome of running it; no
  sub-select refers to the rows of the enclosing query, so that outcome is the same for every
  row. The sub-evaluations an operation may need are handed to it as outcomes (or, for
  aggregates, as functions of the context), and the ones it does not need are ignored.

  The callback into the VM that runs a registered CFML function, \<open>en_invoke\<close>, is a function of
  its arguments here, and so is a function of an extension. The source takes an \<open>FnMut\<close>, which may
  keep state between its calls. Where the result could depend on the order of such calls, a
  property is stated for expressions without them (\<open>expr_is_pure\<close>); elsewhere it is a property of
  callbacks whose answer depends on their arguments only.
\<close>

section \<open>The engine\<close>

record env =
  en_rt :: runtime
  en_sources :: "(ustr \<times> query_data) list"
  en_positional :: "cfml_value list"
  en_named :: "(ustr \<times> cfml_value) list"
  en_registry :: registry
  en_invoke :: "cfml_value \<Rightarrow> cfml_value list \<Rightarrow> cfml_result"
  en_parallel :: bool
  en_workers :: nat

type_synonym sub = "query_data outcome"

datatype row_ctx = Row "nat list" | Group intersections

type_synonym evaluator = "row_ctx \<Rightarrow> cfml_result"

text \<open>\<open>PureInvoker\<close> and \<open>pure_engine\<close>.\<close>

definition pure_invoke :: "cfml_value \<Rightarrow> cfml_value list \<Rightarrow> cfml_result" where
  "pure_invoke f args = Inl CustomOnParallelPath"

definition pure_engine :: "env \<Rightarrow> env" where
  "pure_engine E = E\<lparr>en_invoke := pure_invoke, en_parallel := False\<rparr>"

definition lookup_named :: "env \<Rightarrow> ustr \<Rightarrow> cfml_value option" where
  "lookup_named E name = map_option snd (find (\<lambda>(k, v). eq_ignore_ascii_case k name) (en_named E))"

section \<open>Leaves\<close>

definition eval_resolved_column :: "table_set \<Rightarrow> 32 word \<Rightarrow> 32 word \<Rightarrow> evaluator" where
  "eval_resolved_column T ti ci ctx =
     (case ctx of
        Row isec \<Rightarrow> table_value T isec (unat ti) (unat ci)
      | Group part \<Rightarrow>
          if inters_is_empty part then Inr VNull
          else and_then (inters_row part 0) (\<lambda>isec. table_value T isec (unat ti) (unat ci)))"

definition column_value :: "table_set \<Rightarrow> ustr option \<Rightarrow> ustr \<Rightarrow> nat list \<Rightarrow> cfml_result" where
  "column_value T table name isec =
     (case resolve_column T table name of
        Some (ti, ci) \<Rightarrow> table_value T isec ti ci
      | None \<Rightarrow> Inl (ColumnNotFound table name))"

definition eval_column :: "table_set \<Rightarrow> ustr option \<Rightarrow> ustr \<Rightarrow> evaluator" where
  "eval_column T table name ctx =
     (case ctx of
        Row isec \<Rightarrow> column_value T table name isec
      | Group part \<Rightarrow>
          if inters_is_empty part then Inr VNull
          else and_then (inters_row part 0) (column_value T table name))"

definition eval_param :: "env \<Rightarrow> param_ref \<Rightarrow> cfml_result" where
  "eval_param E p =
     (case p of
        Positional i \<Rightarrow>
          (case get (en_positional E) i of Some v \<Rightarrow> Inr v | None \<Rightarrow> Inl (PositionalParam (i + 1)))
      | Named_param n \<Rightarrow>
          (case lookup_named E n of Some v \<Rightarrow> Inr v | None \<Rightarrow> Inl (MissingNamedParam n)))"

section \<open>Operators with control flow\<close>

definition eval_binary :: "runtime \<Rightarrow> cfml_result \<Rightarrow> binary_op \<Rightarrow> cfml_result \<Rightarrow> cfml_result" where
  "eval_binary R left op right =
     (case op of
        And \<Rightarrow>
          and_then left (\<lambda>l. if tri R l = Some False then Inr (VBool False)
                             else and_then right (\<lambda>r. Inr (and3 (tri R l) (tri R r))))
      | Or \<Rightarrow>
          and_then left (\<lambda>l. if tri R l = Some True then Inr (VBool True)
                             else and_then right (\<lambda>r. Inr (or3 (tri R l) (tri R r))))
      | _ \<Rightarrow> and_then left (\<lambda>l. and_then right (\<lambda>r. apply_binary R l op r)))"

fun case_loop :: "runtime \<Rightarrow> cfml_value option \<Rightarrow> (cfml_result \<times> cfml_result) list \<Rightarrow> cfml_result option \<Rightarrow> cfml_result" where
  "case_loop R operand_val [] else_expr = (case else_expr of Some e \<Rightarrow> e | None \<Rightarrow> Inr VNull)"
| "case_loop R operand_val ((w, t) # whens) else_expr =
     and_then w (\<lambda>wv.
       if (case operand_val of Some ov \<Rightarrow> sql_equal R ov wv = Some True | None \<Rightarrow> is_truthy R wv) then t
       else case_loop R operand_val whens else_expr)"

definition eval_case ::
  "runtime \<Rightarrow> cfml_result option \<Rightarrow> (cfml_result \<times> cfml_result) list \<Rightarrow> cfml_result option \<Rightarrow> cfml_result" where
  "eval_case R operand whens else_expr =
     (case operand of
        Some o1 \<Rightarrow> and_then o1 (\<lambda>ov. case_loop R (Some ov) whens else_expr)
      | None \<Rightarrow> case_loop R None whens else_expr)"

text \<open>The membership scan: \<open>None\<close> when a member is found, else whether a comparison was unknown.\<close>

fun scan_values :: "runtime \<Rightarrow> cfml_value \<Rightarrow> bool \<Rightarrow> cfml_value list \<Rightarrow> bool option" where
  "scan_values R target found_null [] = Some found_null"
| "scan_values R target found_null (v # vs) =
     (case sql_equal R target v of
        Some True \<Rightarrow> None
      | Some False \<Rightarrow> scan_values R target found_null vs
      | None \<Rightarrow> scan_values R target True vs)"

fun in_list_loop :: "runtime \<Rightarrow> cfml_value \<Rightarrow> bool \<Rightarrow> bool \<Rightarrow> cfml_result list \<Rightarrow> cfml_result" where
  "in_list_loop R target negated found_null [] = Inr (membership_result False found_null negated)"
| "in_list_loop R target negated found_null (item # items) =
     and_then item (\<lambda>v.
       case scan_values R target found_null (case v of VArray elems \<Rightarrow> elems | _ \<Rightarrow> [v]) of
         None \<Rightarrow> Inr (VBool (\<not> negated))
       | Some found_null' \<Rightarrow> in_list_loop R target negated found_null' items)"

definition eval_in_list :: "runtime \<Rightarrow> cfml_result \<Rightarrow> bool \<Rightarrow> cfml_result list \<Rightarrow> cfml_result" where
  "eval_in_list R expr negated items =
     and_then expr (\<lambda>target.
       if is_vnull target then Inr VNull else in_list_loop R target negated False items)"

definition first_column :: "query_data \<Rightarrow> cfml_value list" where
  "first_column q = (case q_data q of [] \<Rightarrow> [] | c # _ \<Rightarrow> c)"

definition eval_in_subquery :: "runtime \<Rightarrow> cfml_result \<Rightarrow> bool \<Rightarrow> sub \<Rightarrow> cfml_result" where
  "eval_in_subquery R expr negated select =
     and_then expr (\<lambda>target.
       if is_vnull target then Inr VNull
       else and_then select (\<lambda>q.
         case scan_values R target False (first_column q) of
           None \<Rightarrow> Inr (VBool (\<not> negated))
         | Some found_null \<Rightarrow> Inr (membership_result False found_null negated)))"

definition eval_scalar_subquery :: "sub \<Rightarrow> cfml_result" where
  "eval_scalar_subquery select =
     and_then select (\<lambda>q. Inr (case first_column q of v # _ \<Rightarrow> v | [] \<Rightarrow> VNull))"

definition eval_between :: "runtime \<Rightarrow> cfml_result \<Rightarrow> bool \<Rightarrow> cfml_result \<Rightarrow> cfml_result \<Rightarrow> cfml_result" where
  "eval_between R expr negated low high =
     and_then expr (\<lambda>v. and_then low (\<lambda>lo. and_then high (\<lambda>hi.
       case (compare_sql R v lo, compare_sql R v hi) of
         (Some c_lo, Some c_hi) \<Rightarrow> Inr (VBool ((c_lo \<noteq> Less \<and> c_hi \<noteq> Greater) \<noteq> negated))
       | _ \<Rightarrow> Inr VNull)))"

definition first_char :: "ustr \<Rightarrow> uchar option" where
  "first_char s = (case s of [] \<Rightarrow> None | c # _ \<Rightarrow> Some c)"

definition eval_like ::
  "runtime \<Rightarrow> cfml_result \<Rightarrow> bool \<Rightarrow> cfml_result \<Rightarrow> cfml_result option \<Rightarrow> like_compiled option \<Rightarrow> cfml_result" where
  "eval_like R expr negated pattern escape compiled =
     and_then expr (\<lambda>v.
       if is_vnull v then Inr VNull
       else case compiled of
              Some c \<Rightarrow> Inr (VBool (like_matches R c (as_string R v) \<noteq> negated))
            | None \<Rightarrow>
                and_then pattern (\<lambda>p.
                  if is_vnull p then Inr VNull
                  else and_then (case escape of
                                   Some e \<Rightarrow> and_then e (\<lambda>ev. Inr (first_char (as_string R ev)))
                                 | None \<Rightarrow> Inr None)
                         (\<lambda>esc. Inr (VBool (like_match R (as_string R v) (as_string R p) esc \<noteq> negated)))))"

section \<open>Function calls\<close>

definition call_scalar_fn :: "env \<Rightarrow> ustr \<Rightarrow> cfml_value list \<Rightarrow> cfml_result" where
  "call_scalar_fn E name args =
     (let R = en_rt E; reg = en_registry E
      in case call_scalar R name args of
           Some r \<Rightarrow> r
         | None \<Rightarrow>
             (case get_native R reg name of
                Some (Scalar, f) \<Rightarrow> f args
              | _ \<Rightarrow>
                  (case get_dynamic R reg name Scalar of
                     Some f \<Rightarrow> f args
                   | None \<Rightarrow>
                       (case get_custom R reg name of
                          Some (cfval, Scalar) \<Rightarrow> en_invoke E cfval args
                        | _ \<Rightarrow> Inl (UnknownFunction name)))))"

definition collect_arg :: "evaluator \<Rightarrow> intersections \<Rightarrow> cfml_value list outcome" where
  "collect_arg arg part = mapM (\<lambda>isec. arg (Row isec)) (inters_iter part)"

text \<open>GROUP_CONCAT and STRING_AGG.\<close>

definition concat_values :: "runtime \<Rightarrow> ustr \<Rightarrow> cfml_value list \<Rightarrow> cfml_value" where
  "concat_values R sep col =
     (let parts = map (as_string R) (filter (\<lambda>v. \<not> is_vnull v) col)
      in if parts = [] then VNull else VString (join sep parts))"

definition concat_separator :: "runtime \<Rightarrow> evaluator list \<Rightarrow> intersections \<Rightarrow> ustr outcome" where
  "concat_separator R args part =
     (if inters_is_empty part then Inr (str '','')
      else case get args 1 of
             Some e \<Rightarrow> and_then (inters_row part 0) (\<lambda>isec. and_then (e (Row isec)) (\<lambda>v. Inr (as_string R v)))
           | None \<Rightarrow> Inr (str '',''))"

definition count_call :: "runtime \<Rightarrow> bool \<Rightarrow> evaluator list \<Rightarrow> bool \<Rightarrow> intersections \<Rightarrow> cfml_result" where
  "count_call R is_star args dist part =
     (if is_star then Inr (VInt (word_of_nat (inters_len part)))
      else case args of
             [] \<Rightarrow> Inl Panic
           | arg # _ \<Rightarrow>
               and_then (collect_arg arg part) (\<lambda>col.
                 let vals = filter (\<lambda>v. \<not> is_vnull v) col;
                     vals' = (if dist then dedup_values R vals else vals)
                 in Inr (VInt (word_of_nat (length vals')))))"

definition builtin_call :: "runtime \<Rightarrow> ustr \<Rightarrow> evaluator list \<Rightarrow> bool \<Rightarrow> intersections \<Rightarrow> cfml_result" where
  "builtin_call R lname args dist part =
     (case args of
        [] \<Rightarrow> Inl (AggregateNeedsArgument lname)
      | arg0 # _ \<Rightarrow>
          and_then (collect_arg arg0 part) (\<lambda>vals.
            let col = (if dist then dedup_values R (filter (\<lambda>v. \<not> is_vnull v) vals) else vals)
            in if lname = str ''group_concat'' \<or> lname = str ''string_agg''
               then and_then (concat_separator R args part) (\<lambda>sep. Inr (concat_values R sep col))
               else Inr (aggregate_numeric R lname col)))"

definition registered_aggregate :: "env \<Rightarrow> ustr \<Rightarrow> ustr \<Rightarrow> cfml_value list \<Rightarrow> cfml_result" where
  "registered_aggregate E name lname arrays =
     (let R = en_rt E; reg = en_registry E
      in case get_native R reg lname of
           Some (Aggregate, f) \<Rightarrow> f arrays
         | _ \<Rightarrow>
             (case get_dynamic R reg lname Aggregate of
                Some f \<Rightarrow> f arrays
              | None \<Rightarrow>
                  (case get_custom R reg lname of
                     Some (cfval, Aggregate) \<Rightarrow> en_invoke E cfval arrays
                   | _ \<Rightarrow> Inl (UnknownAggregate name))))"

definition as_partition :: "row_ctx \<Rightarrow> intersections" where
  "as_partition ctx =
     (case ctx of Group p \<Rightarrow> p | Row r \<Rightarrow> \<lparr> in_width = length r, in_flat = r \<rparr>)"

definition eval_aggregate_call :: "env \<Rightarrow> ustr \<Rightarrow> bool \<Rightarrow> evaluator list \<Rightarrow> bool \<Rightarrow> evaluator" where
  "eval_aggregate_call E name is_star args dist ctx =
     (let R = en_rt E; part = as_partition ctx; lname = rt_lower R name
      in if lname = str ''count'' then count_call R is_star args dist part
         else if is_builtin_aggregate R lname then builtin_call R lname args dist part
         else and_then (mapM (\<lambda>a. and_then (collect_arg a part) (\<lambda>col. Inr (VArray col))) args)
                (registered_aggregate E name lname))"

definition starts_with_star :: "'sel expr list \<Rightarrow> bool" where
  "starts_with_star args = (case args of [] \<Rightarrow> True | Star _ # _ \<Rightarrow> True | _ \<Rightarrow> False)"

section \<open>The evaluator\<close>

primrec eval :: "env \<Rightarrow> table_set \<Rightarrow> sub expr \<Rightarrow> evaluator" where
  "eval E T (Literal v) ctx = Inr v"
| "eval E T (Star t) ctx = Inl StarOutsideSelect"
| "eval E T (Column table name) ctx = eval_column T table name ctx"
| "eval E T (ResolvedColumn ti ci name) ctx = eval_resolved_column T ti ci ctx"
| "eval E T (Param p) ctx = eval_param E p"
| "eval E T (Function name args dist) ctx =
     (if is_aggregate (en_rt E) (en_registry E) name
      then eval_aggregate_call E name (starts_with_star args) (map (eval E T) args) dist ctx
      else and_then (mapM (\<lambda>ev. ev ctx) (map (eval E T) args)) (call_scalar_fn E name))"
| "eval E T (Cast e ty) ctx = and_then (eval E T e ctx) (\<lambda>v. cast_value (en_rt E) v ty)"
| "eval E T (Unary op e) ctx = and_then (eval E T e ctx) (apply_unary (en_rt E) op)"
| "eval E T (Binary l op r) ctx = eval_binary (en_rt E) (eval E T l ctx) op (eval E T r ctx)"
| "eval E T (Case operand whens els) ctx =
     eval_case (en_rt E) (map_option (\<lambda>ev. ev ctx) (map_option (eval E T) operand))
       (map (map_prod (\<lambda>ev. ev ctx) (\<lambda>ev. ev ctx)) (map (map_prod (eval E T) (eval E T)) whens))
       (map_option (\<lambda>ev. ev ctx) (map_option (eval E T) els))"
| "eval E T (IsNull e negated) ctx =
     and_then (eval E T e ctx) (\<lambda>v. Inr (VBool (is_vnull v \<noteq> negated)))"
| "eval E T (InList e negated items) ctx =
     eval_in_list (en_rt E) (eval E T e ctx) negated (map (\<lambda>ev. ev ctx) (map (eval E T) items))"
| "eval E T (InSubquery e negated q) ctx = eval_in_subquery (en_rt E) (eval E T e ctx) negated q"
| "eval E T (Between e negated lo hi) ctx =
     eval_between (en_rt E) (eval E T e ctx) negated (eval E T lo ctx) (eval E T hi ctx)"
| "eval E T (Like e negated p esc c) ctx =
     eval_like (en_rt E) (eval E T e ctx) negated (eval E T p ctx)
       (map_option (\<lambda>ev. ev ctx) (map_option (eval E T) esc)) c"
| "eval E T (ScalarSubquery q) ctx = eval_scalar_subquery q"

section \<open>Lemmas\<close>

lemma pure_engine_simps [simp]:
  "en_rt (pure_engine E) = en_rt E" "en_registry (pure_engine E) = en_registry E"
  "en_positional (pure_engine E) = en_positional E" "en_named (pure_engine E) = en_named E"
  "en_sources (pure_engine E) = en_sources E" "en_workers (pure_engine E) = en_workers E"
  "\<not> en_parallel (pure_engine E)" "en_invoke (pure_engine E) = pure_invoke"
  by (simp_all add: pure_engine_def)

lemma eval_param_pure [simp]: "eval_param (pure_engine E) p = eval_param E p"
  by (cases p) (simp_all add: eval_param_def lookup_named_def)

lemma call_scalar_fn_pure:
  "get_custom (en_rt E) (en_registry E) name = None \<Longrightarrow>
   call_scalar_fn (pure_engine E) name = call_scalar_fn E name"
  by (rule ext) (simp add: call_scalar_fn_def Let_def split: option.split prod.split fn_kind.split)

lemma eval_aggregate_call_pure:
  assumes "unicode_laws (en_rt E)" "get_custom (en_rt E) (en_registry E) name = None"
  shows "eval_aggregate_call (pure_engine E) name = eval_aggregate_call E name"
proof -
  have "get_custom (en_rt E) (en_registry E) (rt_lower (en_rt E) name) = None"
    using assms by (simp add: get_custom_def unicode_lower_idem)
  then have "registered_aggregate (pure_engine E) name (rt_lower (en_rt E) name) =
      registered_aggregate E name (rt_lower (en_rt E) name)"
    by (intro ext) (simp add: registered_aggregate_def Let_def split: option.split prod.split fn_kind.split)
  then show ?thesis
    by (intro ext) (simp add: eval_aggregate_call_def Let_def)
qed

text \<open>A pure expression never reaches the invoker, so the engine of the workers gives the same.\<close>

lemma eval_pure:
  assumes "unicode_laws (en_rt E)" "expr_is_pure (en_rt E) (en_registry E) e"
  shows "eval (pure_engine E) T e = eval E T e"
  using assms(2)
proof (induction e)
  case (Function n args d)
  then have m: "map (eval (pure_engine E) T) args = map (eval E T) args"
    by (simp add: list_all_iff)
  have "get_custom (en_rt E) (en_registry E) n = None"
    using Function.prems by simp
  note calls = call_scalar_fn_pure [OF this] eval_aggregate_call_pure [OF assms(1) this]
  show ?case
    by (intro ext) (simp only: eval.simps pure_engine_simps m calls)
next
  case (InList e n es)
  then have m: "map (eval (pure_engine E) T) es = map (eval E T) es" "eval (pure_engine E) T e = eval E T e"
    by (simp_all add: list_all_iff)
  show ?case
    by (intro ext) (simp only: eval.simps pure_engine_simps m)
next
  case (Case operand whens els)
  have "map_option (eval (pure_engine E) T) operand = map_option (eval E T) operand"
    using Case by (cases operand) simp_all
  moreover have "map_option (eval (pure_engine E) T) els = map_option (eval E T) els"
    using Case by (cases els) simp_all
  moreover have "map (map_prod (eval (pure_engine E) T) (eval (pure_engine E) T)) whens =
      map (map_prod (eval E T) (eval E T)) whens"
    using Case.prems Case.IH(2,3) by (intro map_cong) (force simp: list_all_iff prod_set_defs)+
  ultimately show ?case
    by (intro ext) (simp only: eval.simps pure_engine_simps)
next
  case (Like e n p esc c)
  then have m: "eval (pure_engine E) T e = eval E T e" "eval (pure_engine E) T p = eval E T p"
    by simp_all
  have "map_option (eval (pure_engine E) T) esc = map_option (eval E T) esc"
    using Like by (cases esc) simp_all
  note m = m this
  show ?case
    by (intro ext) (simp only: eval.simps pure_engine_simps m)
qed (auto intro!: ext)

end
