(* ===== verification/Compiled.thy ===== *)
theory Compiled
  imports Eval
begin

text \<open>
  The compiled form of the WHERE clause (\<open>cfml-qoq/src/compiled.rs\<close>) and its evaluator
  (\<open>Engine::eval_compiled\<close> in \<open>execution.rs\<close>), with the proof that compiling does not change what
  an expression means.
\<close>

section \<open>The compiled form\<close>

datatype 'sel compiled_expr =
    CNull
  | LitBool bool
  | LitInt i64
  | LitDouble f64
  | LitString ustr
  | CColumn "32 word" "32 word"
  | CAnd "'sel compiled_expr list"
  | COr "'sel compiled_expr list"
  | CNot "'sel compiled_expr"
  | CIsNull "'sel compiled_expr" bool
  | ColCmpLit "32 word" "32 word" cmp_op cfml_value
  | Cmp "'sel compiled_expr" cmp_op "'sel compiled_expr"
  | ColInLits "32 word" "32 word" bool "cfml_value list"
  | LikeConst "'sel compiled_expr" bool like_compiled
  | Generic "'sel expr"

fun reverse_cmp :: "cmp_op \<Rightarrow> cmp_op" where
  "reverse_cmp CmpEq = CmpEq"
| "reverse_cmp CmpNeq = CmpNeq"
| "reverse_cmp CmpLt = CmpGt"
| "reverse_cmp CmpGt = CmpLt"
| "reverse_cmp CmpLte = CmpGte"
| "reverse_cmp CmpGte = CmpLte"

fun all_literals :: "'sel expr list \<Rightarrow> cfml_value list option" where
  "all_literals [] = Some []"
| "all_literals (Literal v # es) = map_option (Cons v) (all_literals es)"
| "all_literals (_ # es) = None"

definition compile_literal :: "cfml_value \<Rightarrow> 'sel compiled_expr" where
  "compile_literal v =
     (case v of
        VNull \<Rightarrow> CNull
      | VBool b \<Rightarrow> LitBool b
      | VInt i \<Rightarrow> LitInt i
      | VDouble d \<Rightarrow> LitDouble d
      | VString s \<Rightarrow> LitString s
      | _ \<Rightarrow> Generic (Literal v))"

definition compile_in_list :: "'sel expr \<Rightarrow> bool \<Rightarrow> 'sel expr list \<Rightarrow> 'sel compiled_expr" where
  "compile_in_list lhs negated items =
     (case lhs of
        ResolvedColumn ti ci _ \<Rightarrow>
          (case all_literals items of
             Some lits \<Rightarrow> ColInLits ti ci negated lits
           | None \<Rightarrow> Generic (InList lhs negated items))
      | _ \<Rightarrow> Generic (InList lhs negated items))"

text \<open>\<open>push_and\<close> and \<open>push_or\<close> return the parts they push, in order.\<close>

function compile :: "'sel expr \<Rightarrow> 'sel compiled_expr"
  and compile_binary :: "'sel expr \<Rightarrow> binary_op \<Rightarrow> 'sel expr \<Rightarrow> 'sel compiled_expr"
  and push_and :: "'sel expr \<Rightarrow> 'sel compiled_expr list"
  and push_or :: "'sel expr \<Rightarrow> 'sel compiled_expr list"
where
  "compile e =
     (case e of
        Literal v \<Rightarrow> compile_literal v
      | ResolvedColumn ti ci _ \<Rightarrow> CColumn ti ci
      | IsNull i negated \<Rightarrow> CIsNull (compile i) negated
      | Unary op i \<Rightarrow> if op = Not_op then CNot (compile i) else Generic e
      | Binary left op right \<Rightarrow> compile_binary left op right
      | InList lhs negated items \<Rightarrow> compile_in_list lhs negated items
      | Like lhs negated p esc c \<Rightarrow>
          (case c of Some m \<Rightarrow> LikeConst (compile lhs) negated m | None \<Rightarrow> Generic e)
      | _ \<Rightarrow> Generic e)"
| "compile_binary left op right =
     (if op = And then CAnd (push_and left @ push_and right)
      else if op = Or then COr (push_or left @ push_or right)
      else case bin_to_cmp op of
             Some c \<Rightarrow>
               (case (left, right) of
                  (ResolvedColumn ti ci _, Literal v) \<Rightarrow> ColCmpLit ti ci c v
                | (Literal v, ResolvedColumn ti ci _) \<Rightarrow> ColCmpLit ti ci (reverse_cmp c) v
                | _ \<Rightarrow> Cmp (compile left) c (compile right))
           | None \<Rightarrow> Generic (Binary left op right))"
| "push_and e =
     (case e of
        Binary left op right \<Rightarrow> if op = And then push_and left @ push_and right else [compile e]
      | _ \<Rightarrow> [compile e])"
| "push_or e =
     (case e of
        Binary left op right \<Rightarrow> if op = Or then push_or left @ push_or right else [compile e]
      | _ \<Rightarrow> [compile e])"
  by pat_completeness auto
termination
  by (relation "measure (\<lambda>x. case x of
        Inl (Inl e) \<Rightarrow> 3 * size e
      | Inl (Inr (l, op, r)) \<Rightarrow> 3 * (size l + size r) + 2
      | Inr (Inl e) \<Rightarrow> 3 * size e + 1
      | Inr (Inr e) \<Rightarrow> 3 * size e + 1)") auto

declare compile.simps [simp del] compile_binary.simps [simp del] push_and.simps [simp del] push_or.simps [simp del]

section \<open>Its evaluator\<close>

fun and_loop :: "runtime \<Rightarrow> bool \<Rightarrow> cfml_result list \<Rightarrow> cfml_result" where
  "and_loop R any_unknown [] = Inr (if any_unknown then VNull else VBool True)"
| "and_loop R any_unknown (p # ps) =
     and_then p (\<lambda>v.
       case tri R v of
         Some b \<Rightarrow> if b then and_loop R any_unknown ps else Inr (VBool False)
       | None \<Rightarrow> and_loop R True ps)"

fun or_loop :: "runtime \<Rightarrow> bool \<Rightarrow> cfml_result list \<Rightarrow> cfml_result" where
  "or_loop R any_unknown [] = Inr (if any_unknown then VNull else VBool False)"
| "or_loop R any_unknown (p # ps) =
     and_then p (\<lambda>v.
       case tri R v of
         Some b \<Rightarrow> if b then Inr (VBool True) else or_loop R any_unknown ps
       | None \<Rightarrow> or_loop R True ps)"

primrec eval_compiled :: "env \<Rightarrow> table_set \<Rightarrow> sub compiled_expr \<Rightarrow> evaluator" where
  "eval_compiled E T CNull ctx = Inr VNull"
| "eval_compiled E T (LitBool b) ctx = Inr (VBool b)"
| "eval_compiled E T (LitInt i) ctx = Inr (VInt i)"
| "eval_compiled E T (LitDouble d) ctx = Inr (VDouble d)"
| "eval_compiled E T (LitString s) ctx = Inr (VString s)"
| "eval_compiled E T (CColumn ti ci) ctx = eval_resolved_column T ti ci ctx"
| "eval_compiled E T (CAnd parts) ctx =
     and_loop (en_rt E) False (map (\<lambda>ev. ev ctx) (map (eval_compiled E T) parts))"
| "eval_compiled E T (COr parts) ctx =
     or_loop (en_rt E) False (map (\<lambda>ev. ev ctx) (map (eval_compiled E T) parts))"
| "eval_compiled E T (CNot i) ctx =
     and_then (eval_compiled E T i ctx) (\<lambda>v.
       Inr (case tri (en_rt E) v of Some b \<Rightarrow> VBool (\<not> b) | None \<Rightarrow> VNull))"
| "eval_compiled E T (CIsNull i negated) ctx =
     and_then (eval_compiled E T i ctx) (\<lambda>v. Inr (VBool (is_vnull v \<noteq> negated)))"
| "eval_compiled E T (ColCmpLit ti ci op rhs) ctx =
     and_then (eval_resolved_column T ti ci ctx) (\<lambda>v. Inr (cmp_to_bool_value (en_rt E) v op rhs))"
| "eval_compiled E T (Cmp l op r) ctx =
     and_then (eval_compiled E T l ctx) (\<lambda>lv. and_then (eval_compiled E T r ctx) (\<lambda>rv.
       Inr (cmp_to_bool_value (en_rt E) lv op rv)))"
| "eval_compiled E T (ColInLits ti ci negated lits) ctx =
     and_then (eval_resolved_column T ti ci ctx) (\<lambda>v.
       if is_vnull v then Inr VNull
       else case scan_values (en_rt E) v False lits of
              None \<Rightarrow> Inr (VBool (\<not> negated))
            | Some found_null \<Rightarrow> Inr (membership_result False found_null negated))"
| "eval_compiled E T (LikeConst l negated c) ctx =
     and_then (eval_compiled E T l ctx) (\<lambda>v.
       if is_vnull v then Inr VNull
       else Inr (VBool (like_matches (en_rt E) c (as_string (en_rt E) v) \<noteq> negated)))"
| "eval_compiled E T (Generic e) ctx = eval E T e ctx"

section \<open>Lemmas\<close>

text \<open>The literals of SQL text are scalars; only a bound parameter can be an array.\<close>

definition is_array :: "cfml_value \<Rightarrow> bool" where
  "is_array v = (case v of VArray _ \<Rightarrow> True | _ \<Rightarrow> False)"

primrec scalar_literals :: "'sel expr \<Rightarrow> bool" where
  "scalar_literals (Literal v) = (\<not> is_array v)"
| "scalar_literals (Star t) = True"
| "scalar_literals (Column t n) = True"
| "scalar_literals (ResolvedColumn ti ci n) = True"
| "scalar_literals (Param p) = True"
| "scalar_literals (Function n args d) = list_all id (map scalar_literals args)"
| "scalar_literals (Cast e ty) = scalar_literals e"
| "scalar_literals (Unary op e) = scalar_literals e"
| "scalar_literals (Binary l op r) = (scalar_literals l \<and> scalar_literals r)"
| "scalar_literals (Case operand whens els) =
     (pred_option id (map_option scalar_literals operand) \<and>
      list_all (\<lambda>(w, t). w \<and> t) (map (map_prod scalar_literals scalar_literals) whens) \<and>
      pred_option id (map_option scalar_literals els))"
| "scalar_literals (IsNull e n) = scalar_literals e"
| "scalar_literals (InList e n es) = (scalar_literals e \<and> list_all id (map scalar_literals es))"
| "scalar_literals (InSubquery e n q) = scalar_literals e"
| "scalar_literals (Between e n lo hi) = (scalar_literals e \<and> scalar_literals lo \<and> scalar_literals hi)"
| "scalar_literals (Like e n p esc c) =
     (scalar_literals e \<and> scalar_literals p \<and> pred_option id (map_option scalar_literals esc))"
| "scalar_literals (ScalarSubquery q) = True"

lemma cmp_holds_reverse [simp]: "cmp_holds (reverse_cmp c) (reverse ord) = cmp_holds c ord"
  by (cases c; cases ord) auto

lemma cmp_to_bool_swap: "cmp_to_bool_value R b (reverse_cmp c) a = cmp_to_bool_value R a c b"
  by (simp add: cmp_to_bool_value_def compare_sql_reverse [of R b a] split: option.split)

lemma eval_binary_cmp:
  "bin_to_cmp op = Some c \<Longrightarrow>
   eval_binary R l op r = and_then l (\<lambda>lv. and_then r (\<lambda>rv. Inr (cmp_to_bool_value R lv c rv)))"
  by (cases op; cases l; cases r) (simp_all add: eval_binary_def apply_binary_def)

text \<open>A loop over one part normalises its truth value, which no enclosing AND or OR can see.\<close>

lemma and_loop_append:
  "and_loop R u (xs @ ys) =
     and_then (and_loop R u xs) (\<lambda>v.
       if tri R v = Some False then Inr (VBool False) else and_loop R (v = VNull) ys)"
proof (induction R u xs rule: and_loop.induct)
  case (2 R u p ps)
  then show ?case
    by (cases p) (auto split: option.split)
qed simp

lemma or_loop_append:
  "or_loop R u (xs @ ys) =
     and_then (or_loop R u xs) (\<lambda>v.
       if tri R v = Some True then Inr (VBool True) else or_loop R (v = VNull) ys)"
proof (induction R u xs rule: or_loop.induct)
  case (2 R u p ps)
  then show ?case
    by (cases p) (auto split: option.split)
qed simp

lemma and_loop_unknown:
  "and_loop R True xs =
     and_then (and_loop R False xs) (\<lambda>v. Inr (if tri R v = Some False then VBool False else VNull))"
proof (induction xs)
  case (Cons p ps)
  then show ?case
    by (cases p; cases "and_loop R False ps") (auto split: option.split)
qed simp

lemma or_loop_unknown:
  "or_loop R True xs =
     and_then (or_loop R False xs) (\<lambda>v. Inr (if tri R v = Some True then VBool True else VNull))"
proof (induction xs)
  case (Cons p ps)
  then show ?case
    by (cases p; cases "or_loop R False ps") (auto split: option.split)
qed simp

lemma eval_and_loops:
  assumes "and_loop R False xs = and_loop R False [l]" "and_loop R False ys = and_loop R False [r]"
  shows "and_loop R False (xs @ ys) = eval_binary R l And r"
proof -
  have "and_loop R False (xs @ ys) =
      and_then (and_loop R False [l]) (\<lambda>v.
        if tri R v = Some False then Inr (VBool False) else and_loop R (v = VNull) ys)"
    by (simp only: and_loop_append assms(1))
  also have "\<dots> = eval_binary R l And r"
    using and_loop_unknown [of R ys] assms(2)
    by (cases l; cases r) (auto simp: eval_binary_def and3_def split: option.split if_splits)
  finally show ?thesis .
qed

lemma eval_or_loops:
  assumes "or_loop R False xs = or_loop R False [l]" "or_loop R False ys = or_loop R False [r]"
  shows "or_loop R False (xs @ ys) = eval_binary R l Or r"
proof -
  have "or_loop R False (xs @ ys) =
      and_then (or_loop R False [l]) (\<lambda>v.
        if tri R v = Some True then Inr (VBool True) else or_loop R (v = VNull) ys)"
    by (simp only: or_loop_append assms(1))
  also have "\<dots> = eval_binary R l Or r"
    using or_loop_unknown [of R ys] assms(2)
    by (cases l; cases r) (auto simp: eval_binary_def or3_def split: option.split if_splits)
  finally show ?thesis .
qed

lemma all_literals_map: "all_literals es = Some lits \<longleftrightarrow> es = map Literal lits"
  by (induction es arbitrary: lits rule: all_literals.induct) (auto simp: Cons_eq_map_conv)

lemma in_list_loop_literals:
  "list_all (\<lambda>v. \<not> is_array v) lits \<Longrightarrow>
   in_list_loop R target negated u (map Inr lits) =
     (case scan_values R target u lits of
        None \<Rightarrow> Inr (VBool (\<not> negated))
      | Some u' \<Rightarrow> Inr (membership_result False u' negated))"
proof (induction lits arbitrary: u)
  case (Cons v lits)
  have "(case v of VArray elems \<Rightarrow> elems | _ \<Rightarrow> [v]) = [v]"
    using Cons.prems by (cases v) (simp_all add: is_array_def)
  then show ?case
    using Cons by (cases "sql_equal R target v") (simp_all split: bool.split)
qed simp

lemma eval_compile_in_list:
  assumes "list_all scalar_literals items"
  shows "eval_compiled E T (compile_in_list lhs negated items) ctx = eval E T (InList lhs negated items) ctx"
proof (cases "\<exists>ti ci n lits. lhs = ResolvedColumn ti ci n \<and> all_literals items = Some lits")
  case True
  then obtain ti ci n lits where l: "lhs = ResolvedColumn ti ci n" "all_literals items = Some lits"
    by blast
  then have items: "items = map Literal lits" by (simp add: all_literals_map)
  then have "list_all (\<lambda>v. \<not> is_array v) lits"
    using assms by (simp add: list_all_length)
  moreover have "map (\<lambda>ev. ev ctx) (map (eval E T) items) = map Inr lits"
    by (simp add: items)
  ultimately show ?thesis
    using l by (cases "eval_resolved_column T ti ci ctx")
      (simp_all add: compile_in_list_def eval_in_list_def in_list_loop_literals del: map_map)
next
  case False
  then have "compile_in_list lhs negated items = Generic (InList lhs negated items)"
    by (auto simp: compile_in_list_def split: expr.split option.split)
  then show ?thesis by simp
qed

lemma eval_compile_cmp:
  assumes "eval_compiled E T (compile left) ctx = eval E T left ctx"
    "eval_compiled E T (compile right) ctx = eval E T right ctx" "bin_to_cmp op = Some c"
  shows "eval_compiled E T (compile_binary left op right) ctx = eval E T (Binary left op right) ctx"
proof -
  have op: "op \<noteq> And" "op \<noteq> Or" using assms(3) by auto
  consider (col_lit) ti ci n v where "left = ResolvedColumn ti ci n" "right = Literal v"
    | (lit_col) ti ci n v where "left = Literal v" "right = ResolvedColumn ti ci n"
    | (other) "compile_binary left op right = Cmp (compile left) c (compile right)"
    using op assms(3) by (cases left; cases right) (simp_all add: compile_binary.simps)
  then show ?thesis
  proof cases
    case col_lit
    then show ?thesis
      using op assms(3) by (simp add: compile_binary.simps eval_binary_cmp [OF assms(3)])
  next
    case lit_col
    then show ?thesis
      using op assms(3) by (simp add: compile_binary.simps eval_binary_cmp [OF assms(3)] cmp_to_bool_swap)
  next
    case other
    then show ?thesis
      using assms(1,2) by (simp add: eval_binary_cmp [OF assms(3)])
  qed
qed

lemma eval_compile_literal: "eval_compiled E T (compile_literal v) ctx = Inr v"
  by (simp add: compile_literal_def split: cfml_value.split)

lemma compile_simps [simp]:
  "compile (Literal v) = compile_literal v"
  "compile (ResolvedColumn ti ci n) = CColumn ti ci"
  "compile (IsNull e negated) = CIsNull (compile e) negated"
  "compile (Unary uop e) = (if uop = Not_op then CNot (compile e) else Generic (Unary uop e))"
  "compile (Binary left op right) = compile_binary left op right"
  "compile (InList lhs negated items) = compile_in_list lhs negated items"
  "compile (Like lhs negated p esc (Some m)) = LikeConst (compile lhs) negated m"
  "compile (Like lhs negated p esc None) = Generic (Like lhs negated p esc None)"
  "compile (Star t) = Generic (Star t)"
  "compile (Column t n) = Generic (Column t n)"
  "compile (Param pr) = Generic (Param pr)"
  "compile (Function f args d) = Generic (Function f args d)"
  "compile (Case operand whens els) = Generic (Case operand whens els)"
  "compile (Cast e ty) = Generic (Cast e ty)"
  "compile (InSubquery e negated q) = Generic (InSubquery e negated q)"
  "compile (Between e negated lo hi) = Generic (Between e negated lo hi)"
  "compile (ScalarSubquery q) = Generic (ScalarSubquery q)"
  by (subst compile.simps; simp)+

lemma push_other:
  "\<forall>l r. e \<noteq> Binary l And r \<Longrightarrow> push_and e = [compile e]"
  "\<forall>l r. e \<noteq> Binary l Or r \<Longrightarrow> push_or e = [compile e]"
  by (subst push_and.simps, cases e, simp_all, blast?)
    (subst push_or.simps, cases e, simp_all, blast?)

lemma push_same [simp]:
  "push_and (Binary l And r) = push_and l @ push_and r"
  "push_or (Binary l Or r) = push_or l @ push_or r"
  by (subst push_and.simps, simp) (subst push_or.simps, simp)

text \<open>Induction on the expression suffices: the lists of parts are compiled sub-expressions.\<close>

lemma compile_correct_parts:
  fixes e :: "sub expr"
  assumes "scalar_literals e"
  shows "eval_compiled E T (compile e) ctx = eval E T e ctx \<and>
    and_loop (en_rt E) False (map (\<lambda>p. eval_compiled E T p ctx) (push_and e)) =
      and_loop (en_rt E) False [eval E T e ctx] \<and>
    or_loop (en_rt E) False (map (\<lambda>p. eval_compiled E T p ctx) (push_or e)) =
      or_loop (en_rt E) False [eval E T e ctx]"
  using assms
proof (induction e)
  case (Binary l op r)
  then have l: "eval_compiled E T (compile l) ctx = eval E T l ctx"
      "and_loop (en_rt E) False (map (\<lambda>p. eval_compiled E T p ctx) (push_and l)) = and_loop (en_rt E) False [eval E T l ctx]"
      "or_loop (en_rt E) False (map (\<lambda>p. eval_compiled E T p ctx) (push_or l)) = or_loop (en_rt E) False [eval E T l ctx]"
    and r: "eval_compiled E T (compile r) ctx = eval E T r ctx"
      "and_loop (en_rt E) False (map (\<lambda>p. eval_compiled E T p ctx) (push_and r)) = and_loop (en_rt E) False [eval E T r ctx]"
      "or_loop (en_rt E) False (map (\<lambda>p. eval_compiled E T p ctx) (push_or r)) = or_loop (en_rt E) False [eval E T r ctx]"
    by simp_all
  note ands = eval_and_loops [OF l(2) r(2)] and ors = eval_or_loops [OF l(3) r(3)]
  have norm: "and_loop (en_rt E) False [eval_binary (en_rt E) x And y] = eval_binary (en_rt E) x And y"
    "or_loop (en_rt E) False [eval_binary (en_rt E) x Or y] = eval_binary (en_rt E) x Or y" for x y
    by (cases x; cases y; auto simp: eval_binary_def and3_def or3_def split: option.split)+
  have "eval_compiled E T (compile_binary l op r) ctx = eval E T (Binary l op r) ctx"
  proof (cases "bin_to_cmp op")
    case None
    then show ?thesis
      using ands ors by (simp add: compile_binary.simps comp_def)
  qed (rule eval_compile_cmp [OF l(1) r(1)])
  then show ?case
    using ands ors norm push_other [of "Binary l op r"]
    by (cases "op = And"; cases "op = Or") (simp_all del: and_loop.simps or_loop.simps)
next
  case (InList lhs negated items)
  then show ?case
    using eval_compile_in_list [of items E T lhs negated ctx] push_other [of "InList lhs negated items"]
    by (simp add: list_all_length)
next
  case (Like lhs negated p esc c)
  then have "eval_compiled E T (compile lhs) ctx = eval E T lhs ctx" by simp
  then have "eval_compiled E T (compile (Like lhs negated p esc c)) ctx = eval E T (Like lhs negated p esc c) ctx"
    by (cases c; cases "eval E T lhs ctx") (simp_all add: eval_like_def)
  then show ?case
    using push_other [of "Like lhs negated p esc c"] by simp
next
  case (Unary op e)
  then have "eval_compiled E T (compile e) ctx = eval E T e ctx" by simp
  then have "eval_compiled E T (compile (Unary op e)) ctx = eval E T (Unary op e) ctx"
    by (cases "eval E T e ctx") (simp_all add: apply_unary_def)
  then show ?case
    using push_other [of "Unary op e"] by simp
next
  case (Literal v)
  then show ?case using push_other [of "Literal v :: sub expr"] by (simp add: eval_compile_literal)
qed (simp_all add: push_other)

section \<open>Properties\<close>

text \<open>C10: Compiling the WHERE clause does not change its meaning. For every expression whose
  literals are scalars, the compiled form (with its flattened AND and OR chains, the comparison
  of a column with a literal in either order, the literal IN-list and the precompiled LIKE)
  evaluates to exactly the value or the error that the expression itself does, on every row or
  group.\<close>

theorem compile_preserves_eval:
  assumes "scalar_literals e"
  shows "eval_compiled E T (compile e) ctx = eval E T e ctx"
  using compile_correct_parts [OF assms] by blast

theorem compile_preserves_eval_witness:
  "let e = Binary (Binary (Literal (VInt 20)) Lt (ResolvedColumn 0 0 (str ''age''))) And
             (InList (ResolvedColumn 0 0 (str ''age'')) False [Literal (VInt 30), Literal VNull])
   in compile e =
        CAnd [ColCmpLit 0 0 CmpGt (VInt 20), ColInLits 0 0 False [VInt 30, VNull]] \<and>
      (\<forall>E T ctx. eval_compiled E T (compile e) ctx = eval E T e ctx)"
  unfolding Let_def
proof (intro conjI allI compile_preserves_eval)
qed (simp_all add: is_array_def push_other compile_binary.simps compile_in_list_def)

end
