(* ===== verification/Bind.thy ===== *)
theory Bind
  imports Compiled
begin

text \<open>
  What happens to a SELECT core before its rows are evaluated (\<open>execution.rs\<close>): column
  references are bound to table and column slots, constant LIKE patterns are compiled, \<open>*\<close> is
  expanded, and the names of the output columns are derived.
\<close>

section \<open>Binding\<close>

definition bind_like :: "runtime \<Rightarrow> 'sel expr \<Rightarrow> 'sel expr option \<Rightarrow> like_compiled option" where
  "bind_like R pattern escape =
     (case pattern of
        Literal pv \<Rightarrow>
          if is_vnull pv then None
          else (case escape of
                  None \<Rightarrow> Some (like_compile R (as_string R pv) None)
                | Some (Literal ev) \<Rightarrow> Some (like_compile R (as_string R pv) (first_char (as_string R ev)))
                | Some _ \<Rightarrow> None)
      | _ \<Rightarrow> None)"

primrec bind_expr :: "runtime \<Rightarrow> table_set \<Rightarrow> 'sel expr \<Rightarrow> 'sel expr" where
  "bind_expr R T (Column table name) =
     (case resolve_column T table name of
        Some (ti, ci) \<Rightarrow> ResolvedColumn (word_of_nat ti) (word_of_nat ci) name
      | None \<Rightarrow> Column table name)"
| "bind_expr R T (ResolvedColumn ti ci name) = ResolvedColumn ti ci name"
| "bind_expr R T (Binary l op r) = Binary (bind_expr R T l) op (bind_expr R T r)"
| "bind_expr R T (Unary op e) = Unary op (bind_expr R T e)"
| "bind_expr R T (Cast e ty) = Cast (bind_expr R T e) ty"
| "bind_expr R T (IsNull e negated) = IsNull (bind_expr R T e) negated"
| "bind_expr R T (Function name args d) = Function name (map (bind_expr R T) args) d"
| "bind_expr R T (Case operand whens els) =
     Case (map_option (bind_expr R T) operand) (map (map_prod (bind_expr R T) (bind_expr R T)) whens)
       (map_option (bind_expr R T) els)"
| "bind_expr R T (InList e negated items) = InList (bind_expr R T e) negated (map (bind_expr R T) items)"
| "bind_expr R T (Between e negated lo hi) =
     Between (bind_expr R T e) negated (bind_expr R T lo) (bind_expr R T hi)"
| "bind_expr R T (Like e negated p esc c) =
     Like (bind_expr R T e) negated (bind_expr R T p) (map_option (bind_expr R T) esc)
       (case c of
          Some m \<Rightarrow> Some m
        | None \<Rightarrow> bind_like R (bind_expr R T p) (map_option (bind_expr R T) esc))"
| "bind_expr R T (InSubquery e negated q) = InSubquery (bind_expr R T e) negated q"
| "bind_expr R T (ScalarSubquery q) = ScalarSubquery q"
| "bind_expr R T (Star t) = Star t"
| "bind_expr R T (Literal v) = Literal v"
| "bind_expr R T (Param p) = Param p"

definition bind_join :: "runtime \<Rightarrow> table_set \<Rightarrow> 'sel join_clause \<Rightarrow> 'sel join_clause" where
  "bind_join R T j = JoinClause (jn_type j) (jn_table j) (map_option (bind_expr R T) (jn_on j))"

definition bind_column :: "runtime \<Rightarrow> table_set \<Rightarrow> 'sel select_column \<Rightarrow> 'sel select_column" where
  "bind_column R T sc = SelectColumn (bind_expr R T (sc_expr sc)) (sc_alias sc)"

definition bind_order :: "runtime \<Rightarrow> table_set \<Rightarrow> 'sel order_by_expr \<Rightarrow> 'sel order_by_expr" where
  "bind_order R T ob = OrderByExpr (bind_expr R T (ob_expr ob)) (ob_direction ob)"

text \<open>The SELECT list of the core itself is not touched: the expanded one is bound instead.\<close>

definition bind_core ::
  "runtime \<Rightarrow> table_set \<Rightarrow> 'sel select_core \<times> 'sel select_column list \<times> 'sel order_by_expr list
    \<Rightarrow> 'sel select_core \<times> 'sel select_column list \<times> 'sel order_by_expr list" where
  "bind_core R T = (\<lambda>(core, expanded_cols, order_by).
     (SelectCore (co_distinct core) (co_top core) (co_columns core) (co_from core)
        (map (bind_join R T) (co_joins core))
        (map_option (bind_expr R T) (co_where core))
        (map (bind_expr R T) (co_group_by core))
        (map_option (bind_expr R T) (co_having core)),
      map (bind_column R T) expanded_cols,
      map (bind_order R T) order_by))"

section \<open>The SELECT list\<close>

definition star_columns :: "qoq_table \<Rightarrow> 'sel select_column list" where
  "star_columns t = map (\<lambda>col. SelectColumn (Column (Some (tb_name t)) col) (Some col)) (tb_columns t)"

fun expand_columns :: "'sel select_column list \<Rightarrow> table_set \<Rightarrow> 'sel select_column list outcome" where
  "expand_columns [] T = Inr []"
| "expand_columns (sc # scs) T =
     and_then
       (case sc_expr sc of
          Star None \<Rightarrow> Inr (concat (map star_columns T))
        | Star (Some tn) \<Rightarrow>
            (case find (\<lambda>t. eq_ignore_ascii_case (tb_name t) tn) T of
               Some t \<Rightarrow> Inr (star_columns t)
             | None \<Rightarrow> Inl (UnknownStarTable tn))
        | _ \<Rightarrow> Inr [sc])
       (\<lambda>here. and_then (expand_columns scs T) (\<lambda>rest. Inr (here @ rest)))"

definition base_name :: "nat \<Rightarrow> 'sel select_column \<Rightarrow> ustr" where
  "base_name i sc =
     (case sc_alias sc of
        Some a \<Rightarrow> a
      | None \<Rightarrow>
          (case sc_expr sc of
             Column _ name \<Rightarrow> name
           | ResolvedColumn _ _ name \<Rightarrow> name
           | Function name _ _ \<Rightarrow> name
           | _ \<Rightarrow> str ''column_'' @ show_nat i))"

text \<open>The \<open>while\<close> loop that looks for a free name, with fuel for its iterations. There are
  \<open>length seen\<close> names in use, so one more attempt than that is enough.\<close>

fun free_name :: "runtime \<Rightarrow> ustr list \<Rightarrow> ustr \<Rightarrow> nat \<Rightarrow> ustr \<Rightarrow> nat \<Rightarrow> ustr outcome" where
  "free_name R seen base n name 0 = Inl Diverges"
| "free_name R seen base n name (Suc fuel) =
     (if rt_lower R name \<notin> set seen then Inr name
      else free_name R seen base (n + 1) (base @ str ''_'' @ show_nat (n + 1)) fuel)"

fun derive_loop :: "runtime \<Rightarrow> nat \<Rightarrow> ustr list \<Rightarrow> 'sel select_column list \<Rightarrow> ustr list outcome" where
  "derive_loop R i seen [] = Inr []"
| "derive_loop R i seen (sc # scs) =
     and_then (free_name R seen (base_name i sc) 1 (base_name i sc) (length seen + 2)) (\<lambda>name.
       and_then (derive_loop R (i + 1) (rt_lower R name # seen) scs) (\<lambda>names. Inr (name # names)))"

definition derive_column_names :: "runtime \<Rightarrow> 'sel select_column list \<Rightarrow> ustr list outcome" where
  "derive_column_names R columns = derive_loop R 0 [] columns"

section \<open>Lemmas\<close>

text \<open>The slots are 32 bits wide.\<close>

definition small_tables :: "table_set \<Rightarrow> bool" where
  "small_tables T \<longleftrightarrow> length T \<le> 2 ^ 32 \<and> (\<forall>t \<in> set T. length (tb_columns t) \<le> 2 ^ 32)"

lemma resolve_column_slot:
  assumes "small_tables T" "resolve_column T h n = Some (ti, ci)"
  shows "unat (word_of_nat ti :: 32 word) = ti" "unat (word_of_nat ci :: 32 word) = ci"
proof -
  have "ti < length T" "ci < length (tb_columns (T ! ti))"
    using resolve_column_bounds [OF assms(2)] by auto
  then have "ti < 2 ^ 32" "ci < 2 ^ 32"
    using assms(1) unfolding small_tables_def by (meson nth_mem order_less_le_trans)+
  then show "unat (word_of_nat ti :: 32 word) = ti" "unat (word_of_nat ci :: 32 word) = ci"
    by (simp_all add: unsigned_of_nat take_bit_nat_eq_self)
qed

lemma eval_bind_column:
  assumes "small_tables T"
  shows "eval E T (bind_expr R T (Column table name)) ctx = eval_column T table name ctx"
proof (cases "resolve_column T table name")
  case (Some p)
  obtain ti ci where p: "p = (ti, ci)" by fastforce
  show ?thesis
    using Some resolve_column_slot [OF assms Some [unfolded p]]
    by (cases ctx) (simp_all add: p eval_column_def eval_resolved_column_def column_value_def [abs_def])
qed simp

lemma eval_bind_like:
  "eval_like (en_rt E) v negated (eval E T p ctx) (map_option (\<lambda>e. eval E T e ctx) esc) (bind_like (en_rt E) p esc) =
   eval_like (en_rt E) v negated (eval E T p ctx) (map_option (\<lambda>e. eval E T e ctx) esc) None"
proof (cases "bind_like (en_rt E) p esc")
  case (Some m)
  then obtain pv where p: "p = Literal pv" "\<not> is_vnull pv"
    by (cases p) (auto simp: bind_like_def split: if_splits)
  from Some p consider "esc = None" "m = like_compile (en_rt E) (as_string (en_rt E) pv) None"
    | ev where "esc = Some (Literal ev)"
        "m = like_compile (en_rt E) (as_string (en_rt E) pv) (first_char (as_string (en_rt E) ev))"
    by (auto simp: bind_like_def split: option.splits expr.splits)
  then show ?thesis
    using Some p by cases (cases v; simp add: eval_like_def like_match_def)+
qed simp

lemma starts_with_star_bind [simp]: "starts_with_star (map (bind_expr R T) args) = starts_with_star args"
proof (cases args)
  case (Cons a as)
  have "(\<exists>t. bind_expr R T a = Star t) \<longleftrightarrow> (\<exists>t. a = Star t)"
    by (cases a) (auto split: option.split)
  then show ?thesis
    by (cases a; cases "bind_expr R T a") (auto simp: Cons starts_with_star_def)
qed (simp add: starts_with_star_def)

lemma eval_bind:
  assumes "small_tables T"
  shows "eval E T (bind_expr (en_rt E) T e) = eval E T e"
proof (induction e)
  case (Column t n)
  then show ?case using eval_bind_column [OF assms] by (intro ext) simp
next
  case (Function n args d)
  then have m: "map (eval E T) (map (bind_expr (en_rt E) T) args) = map (eval E T) args"
    by simp
  show ?case
    by (intro ext) (simp only: bind_expr.simps eval.simps m starts_with_star_bind)
next
  case (InList e n es)
  then have m: "map (eval E T) (map (bind_expr (en_rt E) T) es) = map (eval E T) es"
    by simp
  show ?case
    by (intro ext) (simp only: bind_expr.simps eval.simps m InList(1))
next
  case (Case operand whens els)
  have "map_option (eval E T) (map_option (bind_expr (en_rt E) T) operand) = map_option (eval E T) operand"
    using Case(1) by (cases operand) simp_all
  moreover have "map_option (eval E T) (map_option (bind_expr (en_rt E) T) els) = map_option (eval E T) els"
    using Case(4) by (cases els) simp_all
  moreover have "map (map_prod (eval E T) (eval E T)) (map (map_prod (bind_expr (en_rt E) T) (bind_expr (en_rt E) T)) whens) =
      map (map_prod (eval E T) (eval E T)) whens"
    using Case(2,3) by (auto simp: prod_set_defs map_prod_def split: prod.splits)
  ultimately show ?case
    by (intro ext) (simp only: bind_expr.simps eval.simps)
next
  case (Like e n p esc c)
  have esc: "map_option (eval E T) (map_option (bind_expr (en_rt E) T) esc) = map_option (eval E T) esc"
    using Like(3) by (cases esc) simp_all
  have app: "map_option (\<lambda>e. eval E T e ctx) (map_option (bind_expr (en_rt E) T) esc) =
      map_option (\<lambda>ev. ev ctx) (map_option (eval E T) esc)" for ctx
    using arg_cong [OF esc, of "map_option (\<lambda>ev. ev ctx)"] by (simp add: option.map_comp comp_def)
  show ?case
  proof (cases c)
    case None
    show ?thesis
      unfolding None bind_expr.simps eval.simps option.simps
      using eval_bind_like [of E _ n T "bind_expr (en_rt E) T p" _ "map_option (bind_expr (en_rt E) T) esc"]
      by (intro ext) (simp only: Like(1,2) app esc)
  next
    case (Some m)
    show ?thesis
      unfolding Some bind_expr.simps eval.simps option.simps
      by (intro ext) (simp only: Like(1,2) esc)
  qed
qed (auto intro!: ext)

text \<open>The attempts \<open>base_2\<close>, \<open>base_3\<close>, \dots have different lower-case forms, so one of the first
  \<open>length seen + 1\<close> of them is free.\<close>

definition attempt :: "ustr \<Rightarrow> nat \<Rightarrow> ustr" where
  "attempt base n = base @ str ''_'' @ show_nat n"

definition taken :: "runtime \<Rightarrow> ustr list \<Rightarrow> ustr \<Rightarrow> nat \<Rightarrow> nat set" where
  "taken R seen base n = {m. n \<le> m \<and> rt_lower R (attempt base m) \<in> set seen}"

lemma attempt_inj: "unicode_laws R \<Longrightarrow> inj (\<lambda>m. rt_lower R (attempt base m))"
  by (rule injI) (simp add: attempt_def unicode_lower_number [simplified])

lemma taken_bound:
  assumes "unicode_laws R"
  shows "finite (taken R seen base n) \<and> card (taken R seen base n) \<le> length seen"
proof -
  have sub: "(\<lambda>m. rt_lower R (attempt base m)) ` taken R seen base n \<subseteq> set seen"
    by (auto simp: taken_def)
  have inj: "inj_on (\<lambda>m. rt_lower R (attempt base m)) (taken R seen base n)"
    using attempt_inj [OF assms] by (rule inj_on_subset) simp
  have "card (taken R seen base n) \<le> card (set seen)"
    using card_inj_on_le [OF inj sub] by simp
  then show ?thesis
    using inj_on_finite [OF inj sub] card_length [of seen] by auto
qed

lemma free_name_attempts:
  assumes "unicode_laws R" "card (taken R seen base n) < fuel"
  shows "\<exists>name. free_name R seen base n (attempt base n) fuel = Inr name"
  using assms(2)
proof (induction fuel arbitrary: n)
  case (Suc fuel)
  show ?case
  proof (cases "rt_lower R (attempt base n) \<in> set seen")
    case True
    then have "taken R seen base n = insert n (taken R seen base (n + 1))"
      by (auto simp: taken_def le_Suc_eq Suc_le_eq order_le_less)
    moreover have "n \<notin> taken R seen base (n + 1)" by (simp add: taken_def)
    ultimately have "card (taken R seen base (n + 1)) < fuel"
      using Suc.prems taken_bound [OF assms(1), of seen base "n + 1"] by simp
    from Suc.IH [OF this] True show ?thesis by (simp add: attempt_def)
  qed simp
qed simp

lemma free_name_total:
  assumes "unicode_laws R"
  shows "\<exists>name. free_name R seen base 1 base (length seen + 2) = Inr name"
proof (cases "rt_lower R base \<in> set seen")
  case True
  have "card (taken R seen base 2) < length seen + 1"
    using taken_bound [OF assms, of seen base 2] by simp
  from free_name_attempts [OF assms this] True show ?thesis
    by (simp add: attempt_def numeral_2_eq_2)
qed simp

lemma free_name_fresh: "free_name R seen base n name fuel = Inr x \<Longrightarrow> rt_lower R x \<notin> set seen"
  by (induction R seen base n name fuel rule: free_name.induct) (auto split: if_splits)

lemma free_name_base: "rt_lower R base \<notin> set seen \<Longrightarrow> free_name R seen base n base (Suc fuel) = Inr base"
  by simp

lemma derive_loop_names:
  assumes "unicode_laws R"
  shows "\<exists>names. derive_loop R i seen scs = Inr names \<and> length names = length scs \<and>
    distinct (map (rt_lower R) names) \<and> set (map (rt_lower R) names) \<inter> set seen = {}"
proof (induction scs arbitrary: i seen)
  case (Cons sc scs)
  obtain name where name: "free_name R seen (base_name i sc) 1 (base_name i sc) (length seen + 2) = Inr name"
    using free_name_total [OF assms] by blast
  from Cons.IH [of "i + 1" "rt_lower R name # seen"] obtain names where
    "derive_loop R (i + 1) (rt_lower R name # seen) scs = Inr names" "length names = length scs"
    "distinct (map (rt_lower R) names)" "set (map (rt_lower R) names) \<inter> set (rt_lower R name # seen) = {}"
    by blast
  then show ?case
    using name free_name_fresh [OF name] by (intro exI [of _ "name # names"]) (auto simp del: free_name.simps)
qed simp

lemma derive_loop_bases:
  assumes "distinct (map (rt_lower R) bases)" "set (map (rt_lower R) bases) \<inter> set seen = {}"
    and "bases = map2 base_name [i..<i + length scs] scs"
  shows "derive_loop R i seen scs = Inr bases"
  using assms
proof (induction scs arbitrary: i seen bases)
  case (Cons sc scs)
  let ?b = "base_name i sc" and ?bs = "map2 base_name [i + 1..<i + 1 + length scs] scs"
  have bases: "bases = ?b # ?bs"
    using Cons.prems(3) by (simp add: upt_conv_Cons del: upt_Suc)
  have "free_name R seen ?b 1 ?b (length seen + 2) = Inr ?b"
    using Cons.prems(2) by (simp add: bases numeral_2_eq_2)
  moreover have "derive_loop R (i + 1) (rt_lower R ?b # seen) scs = Inr ?bs"
    using Cons.prems(1,2) by (intro Cons.IH) (auto simp: bases)
  ultimately show ?case by (simp add: bases)
qed simp

section \<open>Properties\<close>

text \<open>C11: Binding does not change the meaning of an expression. With at most \<open>2^32\<close> tables of at
  most \<open>2^32\<close> columns, the bound expression (resolved column slots, precompiled LIKE patterns)
  evaluates to the same value or error as the original, on every row or group.\<close>

theorem bind_preserves_eval:
  assumes "small_tables T"
  shows "eval E T (bind_expr (en_rt E) T e) ctx = eval E T e ctx"
  by (simp add: eval_bind [OF assms])

theorem bind_preserves_eval_witness:
  "let T = [\<lparr> tb_name = str ''t'', tb_columns = [str ''id'', str ''name''],
             tb_data = [[VInt 7], [VString (str ''x'')]], tb_row_count = 1 \<rparr>]
   in bind_expr ascii_runtime T (Column None (str ''NAME'')) = (ResolvedColumn 0 1 (str ''NAME'') :: sub expr) \<and>
      (\<forall>E. eval E T (bind_expr (en_rt E) T (Column None (str ''NAME''))) (Row [1]) =
           eval E T (Column None (str ''NAME'')) (Row [1]))"
  unfolding Let_def
proof (intro conjI allI bind_preserves_eval)
qed (simp_all add: small_tables_def resolve_column_def column_index_def eq_ignore_ascii_case_def
    to_ascii_lowercase_def)

text \<open>C29: The names of the output columns: one per column, pairwise different up to case, and the
  search for a free name always ends. Where the aliases and column names of the SELECT list are
  already different, they are used as they are.\<close>

theorem derive_column_names_unique:
  assumes "unicode_laws R"
  shows "\<exists>names. derive_column_names R cols = Inr names \<and> length names = length cols \<and>
      distinct (map (rt_lower R) names) \<and>
      (distinct (map (rt_lower R) (map2 base_name [0..<length cols] cols)) \<longrightarrow>
         names = map2 base_name [0..<length cols] cols)"
  using derive_loop_names [OF assms, of 0 "[]" cols] derive_loop_bases [of R _ "[]" 0 cols]
  by (auto simp: derive_column_names_def)

theorem derive_column_names_unique_witness:
  "unicode_laws ascii_runtime \<and>
   (\<exists>names. derive_column_names ascii_runtime
       [SelectColumn (Column None (str ''id'')) None, SelectColumn (Literal (VInt 1)) (Some (str ''ID''))] = Inr names
     \<and> length names = 2 \<and> distinct (map (rt_lower ascii_runtime) names))"
proof
  show "\<exists>names. derive_column_names ascii_runtime
       [SelectColumn (Column None (str ''id'')) None, SelectColumn (Literal (VInt 1)) (Some (str ''ID''))] = Inr names
     \<and> length names = 2 \<and> distinct (map (rt_lower ascii_runtime) names)"
    using derive_column_names_unique [OF ascii_runtime_laws,
        of "[SelectColumn (Column None (str ''id'')) None, SelectColumn (Literal (VInt 1)) (Some (str ''ID''))]"]
    by (elim exE conjE) (intro exI conjI, assumption, simp, assumption)
qed simp

end
