(* ===== verification/Joins.thy ===== *)
theory Joins
  imports Bind
begin

text \<open>
  How the engine combines the tables of a FROM clause (\<open>execution.rs\<close>): the nested loop over
  every pair of rows, and the hash join it prefers when the join conditions are equalities of
  columns.
\<close>

section \<open>Equality conditions\<close>

definition equi_pair :: "'sel expr \<Rightarrow> (nat \<times> nat \<times> nat \<times> nat) option" where
  "equi_pair e =
     (case e of
        Binary left op right \<Rightarrow>
          if op = Eq then
            (case left of
               ResolvedColumn lt lc _ \<Rightarrow>
                 (case right of
                    ResolvedColumn rt rc _ \<Rightarrow>
                      if lt \<noteq> rt then Some (unat lt, unat lc, unat rt, unat rc) else None
                  | _ \<Rightarrow> None)
             | _ \<Rightarrow> None)
          else None
      | _ \<Rightarrow> None)"

fun equi_walk :: "'sel expr \<Rightarrow> (nat \<times> nat \<times> nat \<times> nat) list \<Rightarrow> (nat \<times> nat \<times> nat \<times> nat) list" where
  "equi_walk (Binary left op right) out =
     (if op = And then equi_walk right (equi_walk left out)
      else case equi_pair (Binary left op right) of Some p \<Rightarrow> out @ [p] | None \<Rightarrow> out)"
| "equi_walk e out = (case equi_pair e of Some p \<Rightarrow> out @ [p] | None \<Rightarrow> out)"

definition collect_equi_conjuncts :: "'sel expr option \<Rightarrow> (nat \<times> nat \<times> nat \<times> nat) list" where
  "collect_equi_conjuncts e = (case e of Some e \<Rightarrow> equi_walk e [] | None \<Rightarrow> [])"

text \<open>The side that belongs to the table being joined, number \<open>k + 1\<close>, goes to the right.\<close>

definition orient :: "nat \<Rightarrow> nat \<times> nat \<times> nat \<times> nat \<Rightarrow> (nat \<times> nat \<times> nat \<times> nat) option" where
  "orient k = (\<lambda>(lt, lc, rt, rc).
     if lt = k + 1 \<and> rt \<le> k then Some (rt, rc, lt, lc)
     else if rt = k + 1 \<and> lt \<le> k then Some (lt, lc, rt, rc)
     else None)"

fun on_probes :: "nat \<Rightarrow> 'sel join_clause list \<Rightarrow> (nat \<times> nat \<times> nat \<times> nat) list option" where
  "on_probes k [] = Some []"
| "on_probes k (j # js) =
     Option.bind (jn_on j) (\<lambda>on. Option.bind (equi_pair on) (\<lambda>p. Option.bind (orient k p) (\<lambda>probe.
       map_option ((#) probe) (on_probes (k + 1) js))))"

fun find_probe ::
  "nat \<Rightarrow> nat \<Rightarrow> bool list \<Rightarrow> (nat \<times> nat \<times> nat \<times> nat) list \<Rightarrow> (nat \<times> (nat \<times> nat \<times> nat \<times> nat)) option" where
  "find_probe k i used [] = None"
| "find_probe k i used (p # ps) =
     (if used ! i then find_probe k (i + 1) used ps
      else case orient k p of Some probe \<Rightarrow> Some (i, probe) | None \<Rightarrow> find_probe k (i + 1) used ps)"

fun where_probes ::
  "(nat \<times> nat \<times> nat \<times> nat) list \<Rightarrow> bool list \<Rightarrow> nat list \<Rightarrow> (nat \<times> nat \<times> nat \<times> nat) list option" where
  "where_probes eqs used [] = Some []"
| "where_probes eqs used (k # ks) =
     Option.bind (find_probe k 0 used eqs) (\<lambda>(idx, probe).
       map_option ((#) probe) (where_probes eqs (used[idx := True]) ks))"

section \<open>The hash join\<close>

definition hash_index :: "runtime \<Rightarrow> qoq_table \<Rightarrow> nat \<Rightarrow> (ustr \<rightharpoonup> nat list)" where
  "hash_index R t rc =
     fold (\<lambda>r idx. let key = group_key R [table_get t r rc]
                   in idx(key \<mapsto> (case idx key of Some rows \<Rightarrow> rows | None \<Rightarrow> []) @ [r]))
       [1..<Suc (tb_row_count t)] Map.empty"

definition hash_probe ::
  "runtime \<Rightarrow> table_set \<Rightarrow> (ustr \<rightharpoonup> nat list) \<Rightarrow> nat \<Rightarrow> nat \<Rightarrow> nat list \<Rightarrow> nat list outcome" where
  "hash_probe R T idx lt lc isec =
     and_then (table_value T isec lt lc) (\<lambda>v.
       Inr (case idx (group_key R [v]) of
              Some rows \<Rightarrow> concat (map (\<lambda>r. isec @ [r]) rows)
            | None \<Rightarrow> []))"

fun hash_steps :: "runtime \<Rightarrow> table_set \<Rightarrow> nat \<Rightarrow> (nat \<times> nat \<times> nat \<times> nat) list \<Rightarrow> intersections \<Rightarrow> intersections outcome" where
  "hash_steps R T k [] x = Inr x"
| "hash_steps R T k ((lt, lc, rt, rc) # probes) x =
     (case get T rt of
        None \<Rightarrow> Inl Panic
      | Some right_tbl \<Rightarrow>
          and_then (mapM (hash_probe R T (hash_index R right_tbl rc) lt lc) (inters_iter x)) (\<lambda>parts.
            hash_steps R T (k + 1) probes \<lparr> in_width = k + 2, in_flat = concat parts \<rparr>))"

definition hash_join_chain :: "env \<Rightarrow> table_set \<Rightarrow> (nat \<times> nat \<times> nat \<times> nat) list \<Rightarrow> intersections outcome" where
  "hash_join_chain E T probes =
     (case T of
        [] \<Rightarrow> Inl Panic
      | t # _ \<Rightarrow> hash_steps (en_rt E) T 0 probes \<lparr> in_width = 1, in_flat = [1..<Suc (tb_row_count t)] \<rparr>)"

definition try_hash_join_chain :: "env \<Rightarrow> 'sel select_core \<Rightarrow> table_set \<Rightarrow> intersections outcome option" where
  "try_hash_join_chain E core T =
     (let joins = co_joins core;
          equi = (if list_all (\<lambda>j. jn_type j = Inner \<and> jn_on j \<noteq> None) joins then on_probes 0 joins else None)
      in if joins = [] then None
         else case equi of
           Some probes \<Rightarrow> Some (hash_join_chain E T probes)
         | None \<Rightarrow>
             if \<not> list_all (\<lambda>j. jn_type j = Cross \<and> jn_on j = None) joins then None
             else let where_eq = collect_equi_conjuncts (co_where core)
                  in if where_eq = [] then None
                     else map_option (hash_join_chain E T)
                            (where_probes where_eq (replicate (length where_eq) False) [0..<length joins]))"

section \<open>The nested loop\<close>

definition max_intersections :: nat where "max_intersections = 30000000"

text \<open>The closure handed to the builder; its state is \<open>on_err\<close>, the first error.\<close>

definition eval_on ::
  "env \<Rightarrow> table_set \<Rightarrow> sub join_clause list \<Rightarrow> qoq_error option \<Rightarrow> nat \<Rightarrow> nat list \<Rightarrow> bool \<times> qoq_error option" where
  "eval_on E T joins on_err k cand =
     (case on_err of
        Some e \<Rightarrow> (False, Some e)
      | None \<Rightarrow>
          (case get joins k of
             None \<Rightarrow> (False, Some Panic)
           | Some j \<Rightarrow>
               (case jn_on j of
                  None \<Rightarrow> (True, None)
                | Some expr \<Rightarrow>
                    (case eval E T expr (Row cand) of
                       Inr v \<Rightarrow> (is_truthy (en_rt E) v, None)
                     | Inl e \<Rightarrow> (False, Some e)))))"

fun build_failure :: "build_error \<Rightarrow> qoq_error" where
  "build_failure (TooLarge n) = JoinTooLarge n"
| "build_failure BuildPanic = Panic"

definition build_core_intersections :: "env \<Rightarrow> sub select_core \<Rightarrow> table_set \<Rightarrow> intersections outcome" where
  "build_core_intersections E core T =
     (case try_hash_join_chain E core T of
        Some result \<Rightarrow> result
      | None \<Rightarrow>
          (case build_intersections (row_counts T) (map jn_type (co_joins core)) max_intersections
                  (eval_on E T (co_joins core)) None of
             (result, on_err) \<Rightarrow>
               (case on_err of Some e \<Rightarrow> Inl e | None \<Rightarrow> map_sum build_failure id result)))"

section \<open>Lemmas on the nested loop\<close>

text \<open>What the closure decides: whether the ON condition of join \<open>k\<close> can be evaluated on a
  candidate, and whether it holds there.\<close>

definition on_evaluates :: "env \<Rightarrow> table_set \<Rightarrow> sub join_clause list \<Rightarrow> nat \<Rightarrow> nat list \<Rightarrow> bool" where
  "on_evaluates E T joins k c \<longleftrightarrow>
     k < length joins \<and> (\<forall>e. jn_on (joins ! k) = Some e \<longrightarrow> (\<exists>v. eval E T e (Row c) = Inr v))"

definition on_holds :: "env \<Rightarrow> table_set \<Rightarrow> sub join_clause list \<Rightarrow> nat \<Rightarrow> nat list \<Rightarrow> bool" where
  "on_holds E T joins k c \<longleftrightarrow>
     (case jn_on (joins ! k) of
        None \<Rightarrow> True
      | Some e \<Rightarrow> \<exists>v. eval E T e (Row c) = Inr v \<and> is_truthy (en_rt E) v)"

interpretation engine_on: join_closure "eval_on E T joins" "\<lambda>s. s = None" "on_holds E T joins" "on_evaluates E T joins"
  for E T joins
proof
  fix s :: "qoq_error option" and k c
  show "s = None \<Longrightarrow> snd (eval_on E T joins s k c) = None \<longleftrightarrow> on_evaluates E T joins k c"
    by (auto simp: eval_on_def on_evaluates_def get_def split: option.splits sum.splits)
  show "s \<noteq> None \<Longrightarrow> snd (eval_on E T joins s k c) \<noteq> None"
    by (auto simp: eval_on_def)
  show "s = None \<Longrightarrow> on_evaluates E T joins k c \<Longrightarrow> fst (eval_on E T joins s k c) = on_holds E T joins k c"
    by (auto simp: eval_on_def on_evaluates_def on_holds_def get_def split: option.splits)
qed

text \<open>The rows of the first table, each on its own.\<close>

definition seed :: "nat \<Rightarrow> nat list list" where
  "seed n = map (\<lambda>r. [r]) [1..<Suc n]"

lemma inters_of_seed: "\<lparr> in_width = 1, in_flat = [1..<Suc n] \<rparr> = inters_of 1 (seed n)"
  by (simp add: inters_of_def seed_def concat_map_singleton [where f = id, simplified])

lemma seed_width: "has_width 1 (seed n)"
  by (auto simp: seed_def has_width_def)

lemma seed_within: "counts = n # rest \<Longrightarrow> l \<in> set (seed n) \<Longrightarrow> within counts l"
  by (auto simp: seed_def within_def)

lemma chain_rows_within:
  assumes "chain_rows P counts m k jts ls = Inr rows" "has_width (k + 1) ls" "\<forall>l \<in> set ls. within counts l"
    and "k + length jts < length counts"
  shows "has_width (k + 1 + length jts) rows \<and> (\<forall>l \<in> set rows. within counts l)"
  using assms
proof (induction jts arbitrary: k ls)
  case (Cons jt jts)
  let ?ls = "join_rows (P k) jt (k + 1) (counts ! (k + 1)) ls"
  have "chain_rows P counts m (k + 1) jts ?ls = Inr rows"
    using Cons.prems(1) by (auto simp: Let_def split: if_splits)
  moreover have "has_width (k + 1 + 1) ?ls"
    using width_join_rows [OF Cons.prems(2)] by simp
  moreover have "\<forall>l \<in> set ?ls. within counts l"
    using within_join_rows [of ls "k + 1" counts "counts ! (k + 1)" _ "P k" jt] Cons.prems(2-4)
    by (simp add: has_width_def)
  ultimately show ?case
    using Cons.IH [of "k + 1" ?ls] Cons.prems(4) by simp
qed simp

section \<open>Lemmas on the hash join\<close>

lemma hash_index_fold:
  "fold (\<lambda>r idx. let key = g r in idx(key \<mapsto> (case idx key of Some rows \<Rightarrow> rows | None \<Rightarrow> []) @ [r])) rs m key =
   (let new = filter (\<lambda>r. g r = key) rs
    in if new = [] then m key else Some ((case m key of Some rows \<Rightarrow> rows | None \<Rightarrow> []) @ new))"
  by (induction rs arbitrary: m) (auto simp: Let_def)

lemma hash_index_rows:
  "(case hash_index R t rc key of Some rows \<Rightarrow> rows | None \<Rightarrow> []) =
   filter (\<lambda>r. group_key R [table_get t r rc] = key) [1..<Suc (tb_row_count t)]"
  unfolding hash_index_def hash_index_fold by (simp add: Let_def)

text \<open>The condition a probe stands for: the cells of the two columns have the same key.\<close>

definition key_match :: "runtime \<Rightarrow> table_set \<Rightarrow> nat \<times> nat \<times> nat \<times> nat \<Rightarrow> nat list \<Rightarrow> bool" where
  "key_match R T = (\<lambda>(lt, lc, rt, rc) c.
     group_key R [table_get (T ! lt) (c ! lt) lc] = group_key R [table_get (T ! rt) (c ! rt) rc])"

definition oriented :: "nat \<Rightarrow> nat \<times> nat \<times> nat \<times> nat \<Rightarrow> bool" where
  "oriented k = (\<lambda>(lt, lc, rt, rc). rt = k + 1 \<and> lt \<le> k)"

lemma hash_probe_hits:
  assumes "length l = rt" "lt < rt" "rt < length T"
  shows "hash_probe R T (hash_index R (T ! rt) rc) lt lc l =
    Inr (concat (hits (key_match R T (lt, lc, rt, rc)) (tb_row_count (T ! rt)) l))"
proof -
  let ?key = "group_key R [table_get (T ! lt) (l ! lt) lc]"
  have "table_value T l lt lc = Inr (table_get (T ! lt) (l ! lt) lc)"
    using assms by (simp add: table_value_def unwrap_or_def)
  moreover have "(case idx of Some rows \<Rightarrow> concat (map (\<lambda>r. l @ [r]) rows) | None \<Rightarrow> []) =
      concat (map (\<lambda>r. l @ [r]) (case idx of Some rows \<Rightarrow> rows | None \<Rightarrow> []))" for idx
    by (cases idx) simp_all
  moreover have "key_match R T (lt, lc, rt, rc) (l @ [r]) \<longleftrightarrow> group_key R [table_get (T ! rt) r rc] = ?key" for r
    using assms by (auto simp: key_match_def nth_append)
  ultimately show ?thesis
    by (simp add: hash_probe_def hash_index_rows hits_def filter_map comp_def)
qed

lemma hash_steps_rows:
  assumes "\<forall>j < length ps. oriented j (ps ! j)" "length ps < length T"
    and "has_width (k + 1) ls" "k \<le> length ps"
  shows "\<exists>rows. chain_rows (\<lambda>j. key_match R T (ps ! j)) (row_counts T) usize_max k (replicate (length ps - k) Inner) ls
      = Inr rows \<and>
    hash_steps R T k (drop k ps) (inters_of (k + 1) ls) = Inr (inters_of (length ps + 1) rows)"
  using assms(3,4)
proof (induction "length ps - k" arbitrary: k ls)
  case (Suc d)
  obtain lt lc rt rc where p: "ps ! k = (lt, lc, rt, rc)" by (cases "ps ! k") auto
  have k: "k < length ps" and drop: "drop k ps = (lt, lc, rt, rc) # drop (k + 1) ps"
    using Suc.hyps(2) p by (simp_all add: Cons_nth_drop_Suc [symmetric])
  have rt: "rt = k + 1" "lt \<le> k"
    using assms(1) k p by (force simp: oriented_def)+
  define ls' where "ls' = join_rows (key_match R T (ps ! k)) Inner (k + 1) (row_counts T ! (k + 1)) ls"
  have n: "row_counts T ! (k + 1) = tb_row_count (T ! rt)"
    using assms(2) k rt by (simp add: row_counts_def)
  have "mapM (hash_probe R T (hash_index R (T ! rt) rc) lt lc) ls =
      Inr (map (\<lambda>l. concat (hits (key_match R T (ps ! k)) (row_counts T ! (k + 1)) l)) ls)"
    unfolding n p using assms(2) k rt Suc.prems(1) by (intro mapM_total hash_probe_hits) (auto simp: has_width_def)
  moreover have "concat (map (\<lambda>l. concat (hits P m l)) ls) = concat (concat (map (hits P m) ls))" for P m
    by (induction ls) simp_all
  ultimately have step: "hash_steps R T k (drop k ps) (inters_of (k + 1) ls) =
      hash_steps R T (k + 1) (drop (k + 1) ps) (inters_of (k + 1 + 1) ls')"
    using assms(2) k rt Suc.prems(1)
    by (simp add: drop ls'_def inters_of_simps [OF Suc.prems(1), simplified] del: drop_Suc)
       (simp add: inters_of_def)
  have "replicate (length ps - k) Inner = Inner # replicate (length ps - (k + 1)) Inner"
    using k by (metis Suc_diff_Suc Suc_eq_plus1 replicate_Suc)
  then have chain: "chain_rows (\<lambda>j. key_match R T (ps ! j)) (row_counts T) usize_max k (replicate (length ps - k) Inner) ls =
      chain_rows (\<lambda>j. key_match R T (ps ! j)) (row_counts T) usize_max (k + 1) (replicate (length ps - (k + 1)) Inner) ls'"
    by (simp add: Let_def ls'_def)
  have "has_width (k + 1 + 1) ls'"
    unfolding ls'_def using width_join_rows [OF Suc.prems(1)] by (simp only: Suc_eq_plus1)
  then show ?case
    unfolding step chain using Suc.hyps k by (intro Suc.hyps(1)) simp_all
qed simp

lemma orient_oriented: "orient k p = Some q \<Longrightarrow> oriented k q"
  by (cases p) (auto simp: orient_def oriented_def split: if_splits)

lemma on_probes_oriented:
  "on_probes k js = Some ps \<Longrightarrow> length ps = length js \<and> (\<forall>i < length ps. oriented (k + i) (ps ! i))"
proof (induction js arbitrary: k ps)
  case (Cons j js)
  then obtain q ps' where "on_probes (k + 1) js = Some ps'" "oriented k q" "ps = q # ps'"
    by (auto simp: bind_eq_Some_conv dest: orient_oriented)
  then show ?case
    using Cons.IH [of "k + 1" ps'] by (auto simp: nth_Cons split: nat.splits)
qed simp

lemma equi_pair_Some:
  assumes "equi_pair e = Some p"
  obtains lt lc n rt rc m where "e = Binary (ResolvedColumn lt lc n) Eq (ResolvedColumn rt rc m)"
    "p = (unat lt, unat lc, unat rt, unat rc)"
  using assms by (auto simp: equi_pair_def split: expr.splits if_splits)

lemma on_probes_conditions:
  "on_probes k js = Some ps \<Longrightarrow> i < length js \<Longrightarrow>
   \<exists>e p. jn_on (js ! i) = Some e \<and> equi_pair e = Some p \<and> orient (k + i) p = Some (ps ! i)"
proof (induction js arbitrary: k ps i)
  case (Cons j js)
  then obtain e p q ps' where *: "jn_on j = Some e" "equi_pair e = Some p" "orient k p = Some q"
      "on_probes (k + 1) js = Some ps'" "ps = q # ps'"
    by (auto simp: bind_eq_Some_conv)
  show ?case
  proof (cases i)
    case (Suc i')
    then show ?thesis
      using Cons.IH [OF *(4), of i'] Cons.prems(2) *(5) by simp
  qed (use * in \<open>intro exI [of _ e] exI [of _ p], simp\<close>)
qed simp

lemma equality_truthy:
  "is_truthy R v \<longleftrightarrow> sql_equal R x y = Some True"
  if "apply_binary R x Eq y = Inr v"
  using that
  by (auto simp: apply_binary_def cmp_to_bool_value_def is_truthy_def sql_equal_def
      split: option.splits if_splits)

text \<open>
  A probe between columns without NULLs decides as the ON condition does when every two cells are
  of one kind (\<open>same_kind\<close>): both strings, both booleans, both dates, both integers, or whole
  numbers below \<open>10^15\<close>.
\<close>

definition joinable :: "runtime \<Rightarrow> table_set \<Rightarrow> nat \<times> nat \<times> nat \<times> nat \<Rightarrow> bool" where
  "joinable R T = (\<lambda>(lt, lc, rt, rc).
     lc < length (tb_columns (T ! lt)) \<and> rc < length (tb_columns (T ! rt)) \<and>
     (\<forall>a \<in> set (tb_data (T ! lt) ! lc). \<forall>b \<in> set (tb_data (T ! rt) ! rc).
        same_kind a b \<and> a \<noteq> VNull \<and> b \<noteq> VNull))"

definition proper :: "table_set \<Rightarrow> nat list \<Rightarrow> bool" where
  "proper T c \<longleftrightarrow> within (row_counts T) c \<and> 0 \<notin> set c"

lemma proper_cell:
  assumes "list_all wf_table T" "proper T c" "ti < length c" "ci < length (tb_columns (T ! ti))"
  shows "table_get (T ! ti) (c ! ti) ci \<in> set (tb_data (T ! ti) ! ci)"
proof -
  have "c ! ti \<noteq> 0"
    using assms(2) nth_mem [OF assms(3)] unfolding proper_def by metis
  moreover have "length c \<le> length T" "c ! ti \<le> row_counts T ! ti"
    using assms(2,3) by (auto simp: proper_def within_def row_counts_def)
  ultimately have len: "length c \<le> length T" "1 \<le> c ! ti" "c ! ti \<le> tb_row_count (T ! ti)"
    using assms(3) by (auto simp: row_counts_def)
  have wf: "wf_table (T ! ti)"
    using assms(1,3) len by (simp add: list_all_length)
  then have "length (tb_data (T ! ti) ! ci) = tb_row_count (T ! ti)"
    using assms(4) by (auto simp: wf_table_def list_all_length)
  then show ?thesis
    using table_get_cell [OF wf len(2,3) assms(4)] len by simp
qed

lemma joinable_cells:
  assumes "joinable R T (lt, lc, rt, rc)" "list_all wf_table T" "proper T c" "lt < length c" "rt < length c"
  defines "a \<equiv> table_get (T ! lt) (c ! lt) lc" and "b \<equiv> table_get (T ! rt) (c ! rt) rc"
  shows "same_kind a b" "a \<noteq> VNull" "b \<noteq> VNull"
proof -
  have "a \<in> set (tb_data (T ! lt) ! lc)" "b \<in> set (tb_data (T ! rt) ! rc)"
    using assms by (auto intro!: proper_cell simp: joinable_def)
  then show "same_kind a b" "a \<noteq> VNull" "b \<noteq> VNull"
    using assms(1) by (auto simp: joinable_def)
qed

lemma eval_cell_equality:
  assumes "unat lt < length c" "unat rt < length c" "length c \<le> length T"
  shows "eval E T (Binary (ResolvedColumn lt lc n) Eq (ResolvedColumn rt rc m)) (Row c) =
    apply_binary (en_rt E) (table_get (T ! unat lt) (c ! unat lt) (unat lc))
      Eq (table_get (T ! unat rt) (c ! unat rt) (unat rc))"
  using assms by (simp add: eval_binary_def eval_resolved_column_def table_value_def unwrap_or_def)

lemma key_match_equality:
  assumes "unicode_laws R" "joinable R T (lt, lc, rt, rc)" "list_all wf_table T" "proper T c"
    and "lt < length c" "rt < length c"
  defines "a \<equiv> table_get (T ! lt) (c ! lt) lc" and "b \<equiv> table_get (T ! rt) (c ! rt) rc"
  shows "key_match R T (lt, lc, rt, rc) c \<longleftrightarrow> sql_equal R a b = Some True"
    and "sql_equal R b a = Some True \<longleftrightarrow> sql_equal R a b = Some True"
proof -
  note j = joinable_cells [OF assms(2-6), folded a_def b_def]
  have n: "\<not> is_vnull a" "\<not> is_vnull b" using j by (simp_all add: is_vnull_def)
  have ab: "group_key R [a] = group_key R [b] \<longleftrightarrow> sql_equal R a b = Some True"
    using group_key_cell [OF assms(1) j(1)] n by (simp add: cells_match_def)
  have ba: "group_key R [b] = group_key R [a] \<longleftrightarrow> sql_equal R b a = Some True"
    using group_key_cell [OF assms(1), of b a] j(1) n by (simp add: cells_match_def same_kind_sym)
  show "key_match R T (lt, lc, rt, rc) c \<longleftrightarrow> sql_equal R a b = Some True"
    using ab by (simp add: key_match_def a_def b_def)
  show "sql_equal R b a = Some True \<longleftrightarrow> sql_equal R a b = Some True"
    using ab ba by metis
qed

lemma probe_is_condition:
  assumes "unicode_laws (en_rt E)" "list_all wf_table T" "proper T c" "length c = k + 2"
    and "jn_on (joins ! k) = Some e" "equi_pair e = Some p" "orient k p = Some q" "joinable (en_rt E) T q"
  shows "on_holds E T joins k c \<longleftrightarrow> key_match (en_rt E) T q c"
proof -
  obtain lt lc n rt rc m where e: "e = Binary (ResolvedColumn lt lc n) Eq (ResolvedColumn rt rc m)"
      "p = (unat lt, unat lc, unat rt, unat rc)"
    using equi_pair_Some [OF assms(6)] by blast
  have len: "length c \<le> length T"
    using assms(3) by (simp add: proper_def within_def row_counts_def)
  obtain a b c' d where q: "q = (a, b, c', d)" by (cases q) auto
  have "q = p \<or> q = (unat rt, unat rc, unat lt, unat lc)" and lt: "unat lt < length c" "unat rt < length c"
    using assms(4,7) e(2) by (auto simp: orient_def split: if_splits)
  let ?x = "table_get (T ! unat lt) (c ! unat lt) (unat lc)" and ?y = "table_get (T ! unat rt) (c ! unat rt) (unat rc)"
  have "(\<exists>v. eval E T e (Row c) = Inr v \<and> is_truthy (en_rt E) v) \<longleftrightarrow> sql_equal (en_rt E) ?x ?y = Some True"
  proof -
    have "eval E T e (Row c) = apply_binary (en_rt E) ?x Eq ?y"
      unfolding e(1) by (rule eval_cell_equality [OF lt len])
    moreover have "\<exists>v. apply_binary (en_rt E) ?x Eq ?y = Inr v"
      by (simp add: apply_binary_def split: option.split)
    ultimately show ?thesis using equality_truthy by fastforce
  qed
  then have "on_holds E T joins k c \<longleftrightarrow> sql_equal (en_rt E) ?x ?y = Some True"
    by (simp add: on_holds_def assms(5))
  moreover have "key_match (en_rt E) T q c \<longleftrightarrow> sql_equal (en_rt E) ?x ?y = Some True"
    using \<open>q = p \<or> _\<close>
  proof
    assume "q = p"
    then show ?thesis using key_match_equality(1) [OF assms(1) _ assms(2,3) lt] assms(8) e(2) by simp
  next
    assume "q = (unat rt, unat rc, unat lt, unat lc)"
    then show ?thesis
      using key_match_equality [OF assms(1) _ assms(2,3) lt(2,1)] assms(8) by simp
  qed
  ultimately show ?thesis by simp
qed

text \<open>Inner joins of proper rows only ever try proper candidates.\<close>

lemma chain_rows_cong_proper:
  assumes "\<And>j c. k \<le> j \<Longrightarrow> j < k + length jts \<Longrightarrow> length c = j + 2 \<Longrightarrow> proper T c \<Longrightarrow> P j c = Q j c"
    and "set jts \<subseteq> {Inner}" "has_width (k + 1) ls" "\<forall>l \<in> set ls. proper T l" "k + length jts < length T"
  shows "chain_rows P (row_counts T) m k jts ls = chain_rows Q (row_counts T) m k jts ls"
  using assms
proof (induction jts arbitrary: k ls)
  case (Cons jt jts)
  let ?n = "row_counts T ! (k + 1)"
  have jt: "jt = Inner" using Cons.prems(2) by simp
  have cand: "length (l @ [r]) = k + 2 \<and> proper T (l @ [r])" if "l \<in> set ls" "r \<in> set [1..<Suc ?n]" for l r
    using that Cons.prems(3-5) by (auto simp: has_width_def proper_def within_snoc row_counts_def)
  have hits: "hits (P k) ?n l = hits (Q k) ?n l" if "l \<in> set ls" for l
    unfolding hits_def
  proof (rule filter_cong [OF refl])
    fix c assume "c \<in> set (map (\<lambda>r. l @ [r]) [1..<Suc ?n])"
    then obtain r where "c = l @ [r]" "r \<in> set [1..<Suc ?n]" by auto
    then show "P k c = Q k c"
      using cand [OF that, of r] Cons.prems(1) [of k c] by simp
  qed
  let ?ls = "concat (map (hits (Q k) ?n) ls)"
  have ls: "concat (map (hits (P k) ?n) ls) = ?ls"
    by (rule arg_cong [OF map_cong [OF refl hits]])
  have "proper T c" if c: "c \<in> set ?ls" for c
  proof -
    obtain l r where "l \<in> set ls" "r \<in> set [1..<Suc ?n]" "c = l @ [r]"
      using c by (auto simp only: hits_def set_concat set_map set_filter)
    then show ?thesis using cand by simp
  qed
  then have "\<forall>l \<in> set ?ls. proper T l" by blast
  moreover have "has_width (k + 1 + 1) ?ls"
    using width_join_rows [OF Cons.prems(3), of "Q k" Inner ?n] by simp
  ultimately have "chain_rows P (row_counts T) m (k + 1) jts ?ls = chain_rows Q (row_counts T) m (k + 1) jts ?ls"
    using Cons.prems by (intro Cons.IH) auto
  then show ?case
    by (simp only: chain_rows.simps jt join_rows.simps ls Let_def)
qed simp

lemma seed_proper: "T = t # T' \<Longrightarrow> l \<in> set (seed (tb_row_count t)) \<Longrightarrow> proper T l"
  by (auto simp: proper_def seed_def within_def row_counts_def)

section \<open>A small example\<close>

text \<open>An engine with no parameters and no registered functions, two tables of one column each,
  and the core that joins them.\<close>

definition plain_env :: "(ustr \<times> query_data) list \<Rightarrow> env" where
  "plain_env sources =
     \<lparr> en_rt = ascii_runtime, en_sources = sources, en_positional = [], en_named = [],
       en_registry = registry_new, en_invoke = pure_invoke, en_parallel = False, en_workers = 1 \<rparr>"

definition column_table :: "string \<Rightarrow> cfml_value list \<Rightarrow> qoq_table" where
  "column_table name cells =
     \<lparr> tb_name = str name, tb_columns = [str ''x''], tb_data = [cells], tb_row_count = length cells \<rparr>"

definition join_core :: "join_type \<Rightarrow> sub expr \<Rightarrow> sub select_core" where
  "join_core jt on =
     SelectCore False None [] (Some (Named (str ''a'') None))
       [JoinClause jt (Named (str ''b'') None) (Some on)] None [] None"

abbreviation on_equal :: "sub expr" where
  "on_equal \<equiv> Binary (ResolvedColumn 0 0 (str ''x'')) Eq (ResolvedColumn 1 0 (str ''x''))"

lemma plain_env_simps [simp]:
  "en_rt (plain_env s) = ascii_runtime" "en_registry (plain_env s) = registry_new" "en_sources (plain_env s) = s"
  "\<not> en_parallel (plain_env s)"
  by (simp_all add: plain_env_def)

lemma join_core_simps [simp]:
  "co_joins (join_core jt on) = [JoinClause jt (Named (str ''b'') None) (Some on)]"
  "co_where (join_core jt on) = None"
  by (simp_all add: join_core_def)

lemma equi_on_equal: "on_probes 0 [JoinClause jt t (Some on_equal)] = Some [(0, 0, 1, 0)]"
  by (simp add: equi_pair_def orient_def)

section \<open>Properties\<close>

text \<open>C5: The nested-loop join. Where the engine does not take the hash path and the ON conditions
  evaluate on every combination of rows in range, it computes exactly the rows of the SQL join:
  in order, inner, left, right, full and cross joins, with 0 for the missing side of an outer
  join; or it refuses the query with the size at which the specification is cut off. Every row
  number of the result is in the range of its table.\<close>

theorem nested_loop_join_correct:
  assumes "try_hash_join_chain E core T = None" "length T = length (co_joins core) + 1"
    and "\<forall>k c. length c = k + 2 \<longrightarrow> within (row_counts T) c \<longrightarrow> on_evaluates E T (co_joins core) k c"
  shows "build_core_intersections E core T =
      map_sum build_failure (inters_of (length T))
        (chain_rows (on_holds E T (co_joins core)) (row_counts T) max_intersections 0
           (map jn_type (co_joins core)) (seed (tb_row_count (hd T)))) \<and>
    (\<forall>rows. chain_rows (on_holds E T (co_joins core)) (row_counts T) max_intersections 0
       (map jn_type (co_joins core)) (seed (tb_row_count (hd T))) = Inr rows \<longrightarrow>
       (\<forall>l \<in> set rows. length l = length T \<and> within (row_counts T) l))"
proof -
  let ?joins = "co_joins core" and ?jts = "map jn_type (co_joins core)" and ?counts = "row_counts T"
  obtain t T' where T: "T = t # T'" using assms(2) by (cases T) auto
  have counts: "?counts = tb_row_count t # row_counts T'" by (simp add: T row_counts_def)
  have len: "0 + length ?jts < length ?counts" using assms(2) by (simp add: row_counts_def)
  have in_range: "\<forall>l \<in> set (seed (tb_row_count t)). within ?counts l"
    using seed_within [OF counts] by blast
  define res s where "res = fst (build_joins (eval_on E T ?joins) ?counts max_intersections 0 ?jts
      (inters_of (0 + 1) (seed (tb_row_count t))) None)"
    and "s = snd (build_joins (eval_on E T ?joins) ?counts max_intersections 0 ?jts
      (inters_of (0 + 1) (seed (tb_row_count t))) None)"
  have run: "build_joins (eval_on E T ?joins) ?counts max_intersections 0 ?jts
      (inters_of (0 + 1) (seed (tb_row_count t))) None = (res, s)"
    by (simp add: res_def s_def)
  have "s = None"
    unfolding s_def by (rule engine_on.chain_good) (use len in_range seed_width assms(3) in auto)
  moreover have "build_intersections ?counts ?jts max_intersections (eval_on E T ?joins) None = (res, s)"
    using run by (simp add: build_intersections_def counts inters_of_seed del: upt_Suc One_nat_def)
  moreover have "res = map_sum id (inters_of (0 + 1 + length ?jts))
      (chain_rows (on_holds E T ?joins) ?counts max_intersections 0 ?jts (seed (tb_row_count t)))"
    using engine_on.build_joins_rows [OF run] seed_width len \<open>s = None\<close> by simp
  ultimately have "build_core_intersections E core T = map_sum build_failure (inters_of (length T))
      (chain_rows (on_holds E T ?joins) ?counts max_intersections 0 ?jts (seed (tb_row_count t)))"
    using assms(1,2) by (simp add: build_core_intersections_def sum.map_comp id_def comp_def)
  moreover have "\<forall>l \<in> set rows. length l = length T \<and> within ?counts l"
    if "chain_rows (on_holds E T ?joins) ?counts max_intersections 0 ?jts (seed (tb_row_count t)) = Inr rows" for rows
    using chain_rows_within [OF that _ in_range len] seed_width assms(2) by (simp add: has_width_def)
  ultimately show ?thesis
    by (simp add: T)
qed

text \<open>C13: The hash join of explicit joins is the join. When every join of a chain is an inner join whose
  ON condition is an equality of columns, the engine joins by a hash index. Let the tables be
  rectangular, let the joined columns hold no NULL, and let every two cells compared be both
  strings, both booleans, both dates, both integers, or whole numbers below \<open>10^15\<close> (integers or
  doubles, not the negative zero). Then the rows are those of the nested-loop specification, in
  the same order, with no limit on their number. Other doubles are not covered, nor are joins by
  comma, whose keys come from the WHERE clause.\<close>

theorem hash_join_is_join:
  assumes "unicode_laws (en_rt E)" "list_all wf_table T" "length T = length (co_joins core) + 1"
    and "co_joins core \<noteq> []" "list_all (\<lambda>j. jn_type j = Inner) (co_joins core)"
    and "on_probes 0 (co_joins core) = Some probes" "list_all (joinable (en_rt E) T) probes"
  shows "\<exists>rows. chain_rows (on_holds E T (co_joins core)) (row_counts T) usize_max 0
        (map jn_type (co_joins core)) (seed (tb_row_count (hd T))) = Inr rows \<and>
    build_core_intersections E core T = Inr (inters_of (length T) rows)"
proof -
  let ?joins = "co_joins core" and ?R = "en_rt E"
  obtain t T' where T: "T = t # T'" using assms(3) by (cases T) auto
  have len: "length probes = length ?joins" and orient: "\<forall>j < length probes. oriented j (probes ! j)"
    using on_probes_oriented [OF assms(6)] by auto
  have types: "map jn_type ?joins = replicate (length probes) Inner"
    using assms(5) len by (intro nth_equalityI) (auto simp: list_all_length)
  have "chain_rows (on_holds E T ?joins) (row_counts T) usize_max 0 (replicate (length probes) Inner) (seed (tb_row_count t)) =
      chain_rows (\<lambda>j. key_match ?R T (probes ! j)) (row_counts T) usize_max 0 (replicate (length probes) Inner) (seed (tb_row_count t))"
  proof (rule chain_rows_cong_proper)
    fix j c assume j: "0 \<le> j" "j < 0 + length (replicate (length probes) Inner)" "length c = j + 2" "proper T c"
    then obtain e p where "jn_on (?joins ! j) = Some e" "equi_pair e = Some p" "orient j p = Some (probes ! j)"
      using on_probes_conditions [OF assms(6), of j] len by auto
    moreover have "joinable ?R T (probes ! j)"
      using assms(7) j(2) by (simp add: list_all_length)
    ultimately show "on_holds E T ?joins j c = key_match ?R T (probes ! j) c"
      by (rule probe_is_condition [OF assms(1,2) j(4,3)])
  qed (use seed_width seed_proper [OF T] assms(3) len in auto)
  moreover obtain rows where rows:
    "chain_rows (\<lambda>j. key_match ?R T (probes ! j)) (row_counts T) usize_max 0 (replicate (length probes) Inner)
       (seed (tb_row_count t)) = Inr rows"
    "hash_steps ?R T 0 probes (inters_of 1 (seed (tb_row_count t))) = Inr (inters_of (length probes + 1) rows)"
    using hash_steps_rows [OF orient, of T 0 "seed (tb_row_count t)" ?R] seed_width assms(3) len by auto
  moreover have "try_hash_join_chain E core T = Some (hash_join_chain E T probes)"
  proof -
    have "list_all (\<lambda>j. jn_type j = Inner \<and> jn_on j \<noteq> None) ?joins"
      using assms(5) on_probes_conditions [OF assms(6)] by (fastforce simp: list_all_length)
    then show ?thesis
      using assms(4,6) by (simp add: try_hash_join_chain_def Let_def)
  qed
  moreover have "hash_join_chain E T probes = Inr (inters_of (length T) rows)"
  proof -
    have "hash_join_chain E T probes = hash_steps ?R T 0 probes (inters_of 1 (seed (tb_row_count t)))"
      unfolding hash_join_chain_def T list.case inters_of_seed ..
    then show ?thesis using rows(2) assms(3) len by simp
  qed
  ultimately show ?thesis
    by (simp add: build_core_intersections_def types) (simp add: T)
qed

theorem hash_join_is_join_witness:
  "\<exists>rows. build_core_intersections (plain_env [])
      (join_core Inner on_equal) [column_table ''a'' [VInt 1, VInt 2], column_table ''b'' [VInt 2]] =
      Inr (inters_of (length [column_table ''a'' [VInt 1, VInt 2], column_table ''b'' [VInt 2]]) rows)"
proof -
  let ?T = "[column_table ''a'' [VInt 1, VInt 2], column_table ''b'' [VInt 2]]"
  have "list_all (joinable (en_rt (plain_env [])) ?T) [(0, 0, 1, 0)]"
    by (simp add: joinable_def column_table_def)
  moreover have "list_all wf_table ?T"
    by (simp add: wf_table_def column_table_def)
  ultimately show ?thesis
    using hash_join_is_join [of "plain_env []" ?T "join_core Inner on_equal" "[(0, 0, 1, 0)]"] equi_on_equal
    by (auto simp del: chain_rows.simps on_probes.simps build_core_intersections_def)
qed

lemma on_equal_evaluates: "length c = 2 \<Longrightarrow> \<exists>v. eval (plain_env []) [t, u] on_equal (Row c) = Inr v"
  by (simp add: eval_binary_def eval_resolved_column_def table_value_def apply_binary_def split: option.split)

theorem nested_loop_join_correct_witness:
  "\<exists>r. build_core_intersections (plain_env []) (join_core Left on_equal)
      [column_table ''a'' [VInt 1], column_table ''b'' [VInt 2]] =
      map_sum build_failure (inters_of (length [column_table ''a'' [VInt 1], column_table ''b'' [VInt 2]])) r"
proof -
  let ?T = "[column_table ''a'' [VInt 1], column_table ''b'' [VInt 2]]"
  have "try_hash_join_chain (plain_env []) (join_core Left on_equal) ?T = None"
    by (simp add: try_hash_join_chain_def)
  moreover have "\<forall>k c. length c = k + 2 \<longrightarrow> within (row_counts ?T) c \<longrightarrow>
      on_evaluates (plain_env []) ?T (co_joins (join_core Left on_equal)) k c"
  proof (intro allI impI)
    fix k c assume "length c = k + 2" "within (row_counts ?T) c"
    then have "k = 0" "length c = 2" by (auto simp: within_def row_counts_def)
    then show "on_evaluates (plain_env []) ?T (co_joins (join_core Left on_equal)) k c"
      using on_equal_evaluates by (simp add: on_evaluates_def del: eval.simps)
  qed
  moreover have "length ?T = length (co_joins (join_core Left on_equal)) + 1"
    by simp
  ultimately show ?thesis
    using nested_loop_join_correct by blast
qed

text \<open>C40: The hash join is not the join on every table. It pairs two NULLs although the ON condition
  is unknown there, and it misses an integer and the equal text of that integer although the ON
  condition holds.\<close>

theorem hash_join_disagrees:
  "build_core_intersections (plain_env []) (join_core Inner on_equal)
     [column_table ''a'' [VNull], column_table ''b'' [VNull]] = Inr (inters_of 2 [[1, 1]]) \<and>
   eval (plain_env []) [column_table ''a'' [VNull], column_table ''b'' [VNull]] on_equal (Row [1, 1]) = Inr VNull \<and>
   build_core_intersections (plain_env []) (join_core Inner on_equal)
     [column_table ''a'' [VInt 1], column_table ''b'' [VString (str ''1'')]] = Inr (inters_of 2 []) \<and>
   eval (plain_env []) [column_table ''a'' [VInt 1], column_table ''b'' [VString (str ''1'')]] on_equal (Row [1, 1])
     = Inr (VBool True)"
proof (intro conjI)
  let ?g = "group_key ascii_runtime"
  have hash: "build_core_intersections (plain_env []) (join_core Inner on_equal) [column_table ''a'' [v], column_table ''b'' [w]] =
      Inr (inters_of 2 (if ?g [v] = ?g [w] then [[1, 1]] else []))" for v w
    using equi_on_equal
    by (simp add: build_core_intersections_def try_hash_join_chain_def Let_def hash_join_chain_def hash_probe_def
        table_value_def table_get_def column_table_def hash_index_def inters_of_def inters_iter_def upt_rec
        chunks_exact.simps unwrap_or_def del: on_probes.simps)
  show "build_core_intersections (plain_env []) (join_core Inner on_equal)
     [column_table ''a'' [VNull], column_table ''b'' [VNull]] = Inr (inters_of 2 [[1, 1]])"
    by (simp only: hash simp_thms if_True)
  have "?g [VInt 1] \<noteq> ?g [VString (str ''1'')]"
    by (simp add: group_key_def append_group_key_def)
  then show "build_core_intersections (plain_env []) (join_core Inner on_equal)
     [column_table ''a'' [VInt 1], column_table ''b'' [VString (str ''1'')]] = Inr (inters_of 2 [])"
    by (simp only: hash if_False)
  have on: "eval (plain_env []) [column_table ''a'' [v], column_table ''b'' [w]] on_equal (Row [1, 1]) =
      apply_binary ascii_runtime v Eq w" for v w
    by (simp add: eval_binary_def eval_resolved_column_def table_value_def table_get_def column_table_def unwrap_or_def)
  show "eval (plain_env []) [column_table ''a'' [VNull], column_table ''b'' [VNull]] on_equal (Row [1, 1]) = Inr VNull"
    by (simp only: on) (simp add: apply_binary_def cmp_to_bool_value_def compare_sql_def)
  have "str ''1'' = show_int 1"
    by (simp add: show_int_def show_nat.simps)
  then show "eval (plain_env []) [column_table ''a'' [VInt 1], column_table ''b'' [VString (str ''1'')]] on_equal (Row [1, 1])
     = Inr (VBool True)"
    by (simp only: on) (simp add: apply_binary_def cmp_to_bool_value_def compare_sql_def compare_classes_def num_cmp_def total_cmp_of_int)
qed

section \<open>Joins by comma\<close>

text \<open>The combinations a chain of inner joins keeps, as a selection from the product of the tables.\<close>

definition all_rows :: "nat list \<Rightarrow> nat list list" where
  "all_rows counts = product_lists (map (\<lambda>n. [1..<Suc n]) counts)"

lemma all_rows_Cons: "all_rows (n # ns) = concat (map (\<lambda>r. map ((#) r) (all_rows ns)) [1..<Suc n])"
  by (simp add: all_rows_def del: upt_Suc)

lemma filter_hits_step:
  assumes "length l = k + 1" and "k < m"
  shows "concat (map (\<lambda>l'. filter (\<lambda>c. \<forall>j. k + 1 \<le> j \<and> j < m \<longrightarrow> P j (take (j + 2) c)) (map ((@) l') rs)) (hits (P k) n l))
    = filter (\<lambda>c. \<forall>j. k \<le> j \<and> j < m \<longrightarrow> P j (take (j + 2) c))
        (map ((@) l) (concat (map (\<lambda>r. map ((#) r) rs) [1..<Suc n])))"
proof -
  let ?F = "\<lambda>k c. \<forall>j. k \<le> j \<and> j < m \<longrightarrow> P j (take (j + 2) c)"
  have split: "?F k (l @ r # x) \<longleftrightarrow> P k (l @ [r]) \<and> ?F (k + 1) (l @ r # x)" for r x
  proof -
    have "k \<le> j \<longleftrightarrow> j = k \<or> k + 1 \<le> j" for j by auto
    moreover have "take (k + 2) (l @ r # x) = l @ [r]" using assms(1) by simp
    ultimately show ?thesis using assms(2) by auto
  qed
  have "concat (map (\<lambda>l'. filter (?F (k + 1)) (map ((@) l') rs)) (filter (P k) (map (\<lambda>r. l @ [r]) xs)))
      = filter (?F k) (map ((@) l) (concat (map (\<lambda>r. map ((#) r) rs) xs)))" for xs
  proof (induction xs)
    case (Cons r xs)
    have "filter (?F k) (map (\<lambda>x. l @ r # x) rs)
        = (if P k (l @ [r]) then filter (?F (k + 1)) (map (\<lambda>x. l @ r # x) rs) else [])"
      by (simp only: filter_map comp_def split) (simp add: filter_map comp_def)
    moreover have "(@) (l @ [r]) = (\<lambda>x. l @ r # x)" by auto
    ultimately show ?case using Cons by (simp add: comp_def)
  qed simp
  then show ?thesis unfolding hits_def .
qed

lemma chain_rows_product:
  assumes "has_width (k + 1) ls" "set jts \<subseteq> {Inner}" "k + length jts < length counts"
  shows "chain_rows P counts usize_max k jts ls =
    Inr (filter (\<lambda>c. \<forall>j. k \<le> j \<and> j < k + length jts \<longrightarrow> P j (take (j + 2) c))
      (concat (map (\<lambda>l. map ((@) l) (all_rows (take (length jts) (drop (k + 1) counts)))) ls)))"
  using assms
proof (induction jts arbitrary: k ls)
  case Nil
  have "filter (\<lambda>c. \<forall>j. k \<le> j \<and> j < k \<longrightarrow> P j (take (j + 2) c)) ls = ls"
    by (rule filter_True) auto
  then show ?case by (simp add: all_rows_def)
next
  case (Cons jt jts)
  let ?n = "counts ! (k + 1)" and ?m = "k + 1 + length jts"
  let ?rs = "all_rows (take (length jts) (drop (k + 2) counts))"
  let ?ls = "concat (map (hits (P k) ?n) ls)"
  have jt: "jt = Inner" and len: "\<And>l. l \<in> set ls \<Longrightarrow> length l = k + 1"
    using Cons.prems(1,2) by (auto simp: has_width_def)
  have w: "has_width (k + 1 + 1) ?ls"
    using len by (auto simp: has_width_def hits_def)
  have "take (length (jt # jts)) (drop (k + 1) counts) = ?n # take (length jts) (drop (k + 2) counts)"
    using Cons.prems(3) by (simp add: Cons_nth_drop_Suc [symmetric])
  then have rest: "all_rows (take (length (jt # jts)) (drop (k + 1) counts))
      = concat (map (\<lambda>r. map ((#) r) ?rs) [1..<Suc ?n])"
    by (simp only: all_rows_Cons)
  have "chain_rows P counts usize_max k (jt # jts) ls = chain_rows P counts usize_max (k + 1) jts ?ls"
    by (simp add: jt Let_def)
  also have "\<dots> = Inr (filter (\<lambda>c. \<forall>j. k + 1 \<le> j \<and> j < ?m \<longrightarrow> P j (take (j + 2) c))
      (concat (map (\<lambda>l. map ((@) l) ?rs) ?ls)))"
    using Cons.IH [OF w] Cons.prems(2,3) by simp
  also have "filter (\<lambda>c. \<forall>j. k + 1 \<le> j \<and> j < ?m \<longrightarrow> P j (take (j + 2) c)) (concat (map (\<lambda>l. map ((@) l) ?rs) ?ls))
      = concat (map (\<lambda>l. concat (map (\<lambda>l'. filter (\<lambda>c. \<forall>j. k + 1 \<le> j \<and> j < ?m \<longrightarrow> P j (take (j + 2) c))
          (map ((@) l') ?rs)) (hits (P k) ?n l))) ls)"
    by (induction ls) (simp_all add: filter_concat comp_def)
  also have "\<dots> = concat (map (\<lambda>l. filter (\<lambda>c. \<forall>j. k \<le> j \<and> j < ?m \<longrightarrow> P j (take (j + 2) c))
      (map ((@) l) (concat (map (\<lambda>r. map ((#) r) ?rs) [1..<Suc ?n])))) ls)"
    using len by (intro arg_cong [of _ _ concat] map_cong refl filter_hits_step) auto
  also have "\<dots> = filter (\<lambda>c. \<forall>j. k \<le> j \<and> j < k + length (jt # jts) \<longrightarrow> P j (take (j + 2) c))
      (concat (map (\<lambda>l. map ((@) l) (all_rows (take (length (jt # jts)) (drop (k + 1) counts)))) ls))"
    unfolding rest by (simp add: filter_concat comp_def del: upt_Suc)
  finally show ?case .
qed

text \<open>
  A conjunct of the WHERE clause that equates two columns holds wherever the clause does, and a
  row where it holds is found by its key, NULLs or not: NULLs only make the key pair more.
\<close>

definition row_truthy :: "env \<Rightarrow> table_set \<Rightarrow> sub expr \<Rightarrow> nat list \<Rightarrow> bool" where
  "row_truthy E T e c \<longleftrightarrow> (\<exists>v. eval E T e (Row c) = Inr v \<and> is_truthy (en_rt E) v)"

definition keyed_columns :: "table_set \<Rightarrow> nat \<times> nat \<times> nat \<times> nat \<Rightarrow> bool" where
  "keyed_columns T = (\<lambda>(lt, lc, rt, rc).
     lc < length (tb_columns (T ! lt)) \<and> rc < length (tb_columns (T ! rt)) \<and>
     (\<forall>a \<in> set (tb_data (T ! lt) ! lc). \<forall>b \<in> set (tb_data (T ! rt) ! rc). same_kind a b))"

lemma row_truthy_And:
  "row_truthy E T (Binary l And r) c \<Longrightarrow> row_truthy E T l c \<and> row_truthy E T r c"
  by (auto simp: row_truthy_def eval_binary_def is_truthy_def and3_def tri_def flow
      split: if_splits sum.splits)

lemma equi_walk_sound:
  "p \<in> set (equi_walk e out) \<Longrightarrow>
   p \<in> set out \<or> (\<exists>e'. equi_pair e' = Some p \<and> (\<forall>c. row_truthy E T e c \<longrightarrow> row_truthy E T e' c))"
proof (induction e out rule: equi_walk.induct)
  case (1 left op right out)
  show ?case
  proof (cases "op = And")
    case True
    with 1(3) have "p \<in> set (equi_walk right (equi_walk left out))" by simp
    from 1(2) [OF True this]
    have "p \<in> set (equi_walk left out) \<or>
        (\<exists>e'. equi_pair e' = Some p \<and> (\<forall>c. row_truthy E T right c \<longrightarrow> row_truthy E T e' c))" .
    with 1(1) [OF True] have "p \<in> set out \<or> (\<exists>e'. equi_pair e' = Some p \<and>
        ((\<forall>c. row_truthy E T left c \<longrightarrow> row_truthy E T e' c) \<or> (\<forall>c. row_truthy E T right c \<longrightarrow> row_truthy E T e' c)))"
      by blast
    then show ?thesis unfolding True using row_truthy_And by blast
  next
    case False
    with 1(3) show ?thesis by (cases "equi_pair (Binary left op right)") auto
  qed
qed (auto split: option.splits)

lemma find_probe_Some: "find_probe k i used ps = Some (idx, q) \<Longrightarrow> \<exists>p \<in> set ps. orient k p = Some q"
  by (induction k i used ps rule: find_probe.induct) (auto split: if_splits option.splits)

lemma where_probes_sound:
  "where_probes eqs used ks = Some ps \<Longrightarrow>
   length ps = length ks \<and> (\<forall>i < length ks. \<exists>p \<in> set eqs. orient (ks ! i) p = Some (ps ! i))"
proof (induction eqs used ks arbitrary: ps rule: where_probes.induct)
  case (2 eqs used k ks)
  then obtain idx q ps' where "find_probe k 0 used eqs = Some (idx, q)"
      "where_probes eqs (used[idx := True]) ks = Some ps'" "ps = q # ps'"
    by (auto simp: bind_eq_Some_conv)
  with 2(1) [OF this(1) refl this(2)] find_probe_Some [OF this(1)]
  have len: "length ps = length (k # ks)" and head: "\<exists>p \<in> set eqs. orient k p = Some q"
    and tail: "\<forall>i < length ks. \<exists>p \<in> set eqs. orient (ks ! i) p = Some (ps' ! i)" and ps: "ps = q # ps'"
    by simp_all
  have "\<exists>p \<in> set eqs. orient ((k # ks) ! i) p = Some (ps ! i)" if "i < length (k # ks)" for i
    using that head tail by (cases i) (simp_all add: ps)
  with len show ?case by blast
qed simp

lemma equality_row_truthy:
  assumes "unat lt < length c" "unat rt < length c" "length c \<le> length T"
  shows "row_truthy E T (Binary (ResolvedColumn lt lc n) Eq (ResolvedColumn rt rc m)) (c) \<longleftrightarrow>
    sql_equal (en_rt E) (table_get (T ! unat lt) (c ! unat lt) (unat lc))
      (table_get (T ! unat rt) (c ! unat rt) (unat rc)) = Some True"
proof -
  have "\<exists>v. apply_binary R x Eq y = Inr v" for R x y
    by (simp add: apply_binary_def split: option.split)
  then show ?thesis
    unfolding row_truthy_def eval_cell_equality [OF assms] using equality_truthy by fastforce
qed

lemma truthy_key_match:
  assumes "unicode_laws (en_rt E)" "list_all wf_table T" "proper T c" "length c = length T"
    and "equi_pair e = Some p" "orient k p = Some q" "k + 1 < length T" "keyed_columns T q"
    and "row_truthy E T e c"
  shows "key_match (en_rt E) T q c"
proof -
  obtain lt lc n rt rc m where e: "e = Binary (ResolvedColumn lt lc n) Eq (ResolvedColumn rt rc m)"
      "p = (unat lt, unat lc, unat rt, unat rc)"
    using equi_pair_Some [OF assms(5)] by blast
  have q: "q = p \<or> q = (unat rt, unat rc, unat lt, unat lc)" and lt: "unat lt < length c" "unat rt < length c"
    using assms(4,6,7) e(2) by (auto simp: orient_def split: if_splits)
  let ?x = "table_get (T ! unat lt) (c ! unat lt) (unat lc)" and ?y = "table_get (T ! unat rt) (c ! unat rt) (unat rc)"
  have eq: "sql_equal (en_rt E) ?x ?y = Some True"
    using assms(9) equality_row_truthy [OF lt, of T E lc n rc m] assms(4) by (simp add: e(1))
  have cols: "unat lc < length (tb_columns (T ! unat lt))" "unat rc < length (tb_columns (T ! unat rt))"
    using q assms(8) e(2) by (auto simp: keyed_columns_def)
  have "?x \<in> set (tb_data (T ! unat lt) ! unat lc)" "?y \<in> set (tb_data (T ! unat rt) ! unat rc)"
    by (rule proper_cell [OF assms(2,3) lt(1) cols(1)], rule proper_cell [OF assms(2,3) lt(2) cols(2)])
  then have "same_kind ?x ?y"
    using q assms(8) e(2) same_kind_sym by (auto simp: keyed_columns_def)
  from group_key_cell [OF assms(1) this] eq
  have "group_key (en_rt E) [?x] = group_key (en_rt E) [?y]" by (simp add: cells_match_def)
  then show ?thesis using q e(2) by (auto simp: key_match_def)
qed

lemma all_rows_proper: "c \<in> set (all_rows (row_counts T)) \<Longrightarrow> proper T c \<and> length c = length T"
  by (auto simp: all_rows_def product_lists_set row_counts_def proper_def within_def list_all2_conv_all_nth
      in_set_conv_nth simp del: upt_Suc)

lemma hash_join_product:
  assumes "length T = length probes + 1" "\<forall>j < length probes. oriented j (probes ! j)"
  shows "hash_join_chain E T probes = Inr (inters_of (length T)
    (filter (\<lambda>c. \<forall>j < length probes. key_match (en_rt E) T (probes ! j) c) (all_rows (row_counts T))))"
proof -
  obtain t T' where T: "T = t # T'" using assms(1) by (cases T) auto
  let ?R = "en_rt E" and ?js = "replicate (length probes) Inner"
  obtain rows where rows: "chain_rows (\<lambda>j. key_match ?R T (probes ! j)) (row_counts T) usize_max 0 ?js (seed (tb_row_count t)) = Inr rows"
    "hash_steps ?R T 0 probes (inters_of 1 (seed (tb_row_count t))) = Inr (inters_of (length probes + 1) rows)"
    using hash_steps_rows [OF assms(2), of T 0 "seed (tb_row_count t)" ?R] seed_width assms(1) by auto
  have one: "(@) [x] = (#) x" for x :: nat by auto
  have "all_rows (row_counts T)
      = concat (map (\<lambda>l. map ((@) l) (all_rows (take (length ?js) (drop (0 + 1) (row_counts T))))) (seed (tb_row_count t)))"
    using assms(1) by (simp add: T row_counts_def all_rows_Cons seed_def comp_def one del: upt_Suc)
  moreover have "has_width (0 + 1) (seed (tb_row_count t))" "set ?js \<subseteq> {Inner}" "0 + length ?js < length (row_counts T)"
    using seed_width assms(1) by (auto simp: row_counts_def)
  note chain_rows_product [OF this, of "\<lambda>j. key_match ?R T (probes ! j)"]
  ultimately have "rows = filter (\<lambda>c. \<forall>j. 0 \<le> j \<and> j < 0 + length ?js \<longrightarrow> key_match ?R T (probes ! j) (take (j + 2) c))
      (all_rows (row_counts T))"
    using rows(1) by simp
  also have "\<dots> = filter (\<lambda>c. \<forall>j < length probes. key_match ?R T (probes ! j) c) (all_rows (row_counts T))"
  proof (rule filter_cong [OF refl])
    fix c
    have "key_match ?R T (probes ! j) (take (j + 2) c) = key_match ?R T (probes ! j) c" if "j < length probes" for j
      using assms(2) that by (auto simp: key_match_def oriented_def split: prod.splits)
    then show "(\<forall>j. 0 \<le> j \<and> j < 0 + length ?js \<longrightarrow> key_match ?R T (probes ! j) (take (j + 2) c))
        = (\<forall>j < length probes. key_match ?R T (probes ! j) c)" by simp
  qed
  finally have eq: "rows = filter (\<lambda>c. \<forall>j < length probes. key_match ?R T (probes ! j) c) (all_rows (row_counts T))" .
  have "hash_join_chain E T probes = hash_steps ?R T 0 probes (inters_of 1 (seed (tb_row_count t)))"
    unfolding hash_join_chain_def T list.case inters_of_seed ..
  then show ?thesis using rows(2) assms(1) by (simp add: eq)
qed

text \<open>C31: The hash join of joins by comma. Its keys are conjuncts of the WHERE clause that equate columns of
  two tables. Let the tables be rectangular and let every two cells of such a pair of columns be
  of one kind (both strings, both booleans, both dates, both integers, or whole numbers below
  \<open>10^15\<close>; NULLs are allowed). Then the combinations it builds are a selection from the product of
  all tables, in the order of the product, and those on which the WHERE clause holds are exactly
  the combinations of the whole product on which it holds: the join loses no row of the result,
  and what it pairs wrongly, a NULL with a NULL, the WHERE clause removes.\<close>

theorem comma_join_is_filtered_product:
  assumes "unicode_laws (en_rt E)" "list_all wf_table T" "length T = length (co_joins core) + 1"
    and "co_joins core \<noteq> []" "list_all (\<lambda>j. jn_type j = Cross \<and> jn_on j = None) (co_joins core)"
    and "co_where core = Some w"
    and "where_probes (collect_equi_conjuncts (Some w)) (replicate (length (collect_equi_conjuncts (Some w))) False)
      [0..<length (co_joins core)] = Some probes"
    and "list_all (keyed_columns T) probes"
  shows "\<exists>rows P. build_core_intersections E core T = Inr (inters_of (length T) rows) \<and>
    rows = filter P (all_rows (row_counts T)) \<and>
    filter (row_truthy E T w) rows = filter (row_truthy E T w) (all_rows (row_counts T))"
proof -
  let ?eqs = "collect_equi_conjuncts (Some w)" and ?n = "length (co_joins core)" and ?R = "en_rt E"
  let ?P = "\<lambda>c. \<forall>j < length probes. key_match ?R T (probes ! j) c"
  have len: "length probes = ?n" and found: "\<forall>i < ?n. \<exists>p \<in> set ?eqs. orient i p = Some (probes ! i)"
    using where_probes_sound [OF assms(7)] by auto
  then have "\<forall>j < length probes. oriented j (probes ! j)" using orient_oriented by metis
  then have chain: "hash_join_chain E T probes = Inr (inters_of (length T) (filter ?P (all_rows (row_counts T))))"
    by (intro hash_join_product) (simp_all add: assms(3) len)
  have "?eqs \<noteq> []" using found assms(4) by (metis empty_iff length_greater_0_conv list.set(1))
  moreover have "\<not> list_all (\<lambda>j. jn_type j = Inner \<and> jn_on j \<noteq> None) (co_joins core)"
    using assms(4,5) by (cases "co_joins core") auto
  ultimately have "build_core_intersections E core T = hash_join_chain E T probes"
    using assms(4-7) by (simp add: build_core_intersections_def try_hash_join_chain_def Let_def)
  moreover have "?P c" if "c \<in> set (all_rows (row_counts T))" "row_truthy E T w c" for c
  proof (intro allI impI)
    fix j assume j: "j < length probes"
    then obtain p where p: "p \<in> set ?eqs" "orient j p = Some (probes ! j)" using found len by auto
    then obtain e where "equi_pair e = Some p" "row_truthy E T w c \<longrightarrow> row_truthy E T e c"
      using equi_walk_sound [of p w "[]" E T] by (auto simp: collect_equi_conjuncts_def)
    moreover have "j + 1 < length T" "keyed_columns T (probes ! j)"
      using j len assms(3,8) by (auto simp: list_all_length)
    ultimately show "key_match ?R T (probes ! j) c"
      using truthy_key_match [OF assms(1,2)] all_rows_proper [OF that(1)] p(2) that(2) by blast
  qed
  then have "filter (row_truthy E T w) (filter ?P (all_rows (row_counts T))) = filter (row_truthy E T w) (all_rows (row_counts T))"
    by (auto intro: filter_cong)
  ultimately show ?thesis using chain by auto
qed

theorem comma_join_is_filtered_product_witness:
  "\<exists>rows. build_core_intersections (plain_env [])
      (SelectCore False None [] (Some (Named (str ''a'') None)) [JoinClause Cross (Named (str ''b'') None) None]
        (Some on_equal) [] None)
      [column_table ''a'' [VInt 1, VNull], column_table ''b'' [VNull, VInt 1]] = Inr (inters_of 2 rows) \<and>
    filter (row_truthy (plain_env []) [column_table ''a'' [VInt 1, VNull], column_table ''b'' [VNull, VInt 1]] on_equal) rows
      = filter (row_truthy (plain_env []) [column_table ''a'' [VInt 1, VNull], column_table ''b'' [VNull, VInt 1]] on_equal)
          [[1, 1], [1, 2], [2, 1], [2, 2]]"
proof -
  let ?T = "[column_table ''a'' [VInt 1, VNull], column_table ''b'' [VNull, VInt 1]]"
  let ?core = "SelectCore False None [] (Some (Named (str ''a'') None)) [JoinClause Cross (Named (str ''b'') None) None]
        (Some on_equal) [] None :: sub select_core"
  have eqs: "collect_equi_conjuncts (Some (Binary (ResolvedColumn 0 0 a) Eq (ResolvedColumn 1 0 b))) = [(0, 0, 1, 0)]"
    for a b by (simp add: collect_equi_conjuncts_def equi_pair_def)
  have "unicode_laws (en_rt (plain_env []))" "list_all wf_table ?T" "length ?T = length (co_joins ?core) + 1"
    "co_joins ?core \<noteq> []" "list_all (\<lambda>j. jn_type j = Cross \<and> jn_on j = None) (co_joins ?core)"
    "co_where ?core = Some on_equal"
    "where_probes (collect_equi_conjuncts (Some on_equal)) (replicate (length (collect_equi_conjuncts (Some on_equal))) False)
      [0..<length (co_joins ?core)] = Some [(0, 0, 1, 0)]"
    "list_all (keyed_columns ?T) [(0, 0, 1, 0)]"
    by (simp_all add: eqs wf_table_def column_table_def orient_def keyed_columns_def)
  from comma_join_is_filtered_product [OF this] obtain rows where
    "build_core_intersections (plain_env []) ?core ?T = Inr (inters_of (length ?T) rows)"
    "filter (row_truthy (plain_env []) ?T on_equal) rows = filter (row_truthy (plain_env []) ?T on_equal) (all_rows (row_counts ?T))"
    by blast
  moreover have "all_rows (row_counts ?T) = [[1, 1], [1, 2], [2, 1], [2, 2]]"
    by (simp add: all_rows_def row_counts_def column_table_def upt_rec)
  ultimately show ?thesis by (intro exI [of _ rows]) (simp add: numeral_2_eq_2)
qed

end
