(* ===== verification/Output.thy ===== *)
theory Output
  imports Operators Table
begin

text \<open>
  The stages that work on whole column-major results (\<open>execution.rs\<close>): transposition, DISTINCT,
  ORDER BY and LIMIT. A result of \<open>n\<close> rows is a list of columns of length \<open>n\<close>; the lemmas say what
  each stage does to its rows.
\<close>

type_synonym columns = "cfml_value list list"

definition parallel_row_threshold :: nat where "parallel_row_threshold = 1000"

definition parallel_build_threshold :: nat where "parallel_build_threshold = 5000"

section \<open>Building columns\<close>

definition build_query :: "ustr list \<Rightarrow> columns \<Rightarrow> nat \<Rightarrow> query_data" where
  "build_query cols data n = \<lparr> q_columns = cols, q_data = data \<rparr>"

definition passthrough_cell :: "cfml_value list \<Rightarrow> nat \<Rightarrow> cfml_value" where
  "passthrough_cell src r = (if r = 0 then VNull else unwrap_or (get src (r - 1)) VNull)"

text \<open>The flat buffer of the parallel transposition: every row padded or cut to the width.\<close>

definition fit_row :: "nat \<Rightarrow> cfml_value list \<Rightarrow> cfml_value list" where
  "fit_row w row =
     (if length row < w then row @ replicate (w - length row) VNull else take w row)"

definition rows_to_cols_parallel :: "cfml_value list list \<Rightarrow> nat \<Rightarrow> nat \<Rightarrow> columns" where
  "rows_to_cols_parallel rows col_count n =
     (let flat = concat (map (fit_row col_count) rows)
      in map (\<lambda>ci. map (\<lambda>r. flat ! (r * col_count + ci)) [0..<n]) [0..<col_count])"

text \<open>One row pushed onto the columns.\<close>

fun push_cells :: "columns \<Rightarrow> cfml_value list \<Rightarrow> columns" where
  "push_cells [] row = []"
| "push_cells (col # data) [] = (col @ [VNull]) # push_cells data []"
| "push_cells (col # data) (v # row) = (col @ [v]) # push_cells data row"

definition rows_to_cols :: "cfml_value list list \<Rightarrow> nat \<Rightarrow> columns" where
  "rows_to_cols rows col_count =
     (let n = length rows
      in if col_count = 0 \<or> n = 0 then replicate col_count []
         else if parallel_build_threshold \<le> n \<and> 2 \<le> col_count then rows_to_cols_parallel rows col_count n
         else foldl push_cells (replicate col_count []) rows)"

section \<open>DISTINCT\<close>

definition cell_at :: "nat \<Rightarrow> cfml_value list \<Rightarrow> cfml_result" where
  "cell_at i col = (case get col i of Some v \<Rightarrow> Inr v | None \<Rightarrow> Inl Panic)"

definition row_key :: "runtime \<Rightarrow> columns \<Rightarrow> nat \<Rightarrow> ustr outcome" where
  "row_key R data i = and_then (mapM (cell_at i) data) (\<lambda>cells. Inr (foldl (append_group_key R) [] cells))"

fun insert_mask :: "'k set \<Rightarrow> 'k list \<Rightarrow> bool list" where
  "insert_mask seen [] = []"
| "insert_mask seen (k # ks) = (k \<notin> seen) # insert_mask (insert k seen) ks"

definition dedup_keep_mask :: "runtime \<Rightarrow> columns \<Rightarrow> nat \<Rightarrow> bool list outcome" where
  "dedup_keep_mask R data n = and_then (mapM (row_key R data) [0..<n]) (\<lambda>keys. Inr (insert_mask {} keys))"

fun retain_mask :: "'a list \<Rightarrow> bool list \<Rightarrow> 'a list outcome" where
  "retain_mask [] keep = Inr []"
| "retain_mask (x # xs) [] = Inl Panic"
| "retain_mask (x # xs) (k # ks) = and_then (retain_mask xs ks) (\<lambda>r. Inr (if k then x # r else r))"

definition apply_keep_mask :: "columns \<Rightarrow> bool list \<Rightarrow> (columns \<times> nat) outcome" where
  "apply_keep_mask data keep =
     and_then (mapM (\<lambda>col. retain_mask col keep) data) (\<lambda>data'. Inr (data', length (filter id keep)))"

definition dedup_cols :: "runtime \<Rightarrow> columns \<Rightarrow> nat \<Rightarrow> (columns \<times> nat) outcome" where
  "dedup_cols R data n = and_then (dedup_keep_mask R data n) (apply_keep_mask data)"

definition dedup_cols_and_keys :: "runtime \<Rightarrow> columns \<Rightarrow> columns \<Rightarrow> nat \<Rightarrow> (columns \<times> columns \<times> nat) outcome" where
  "dedup_cols_and_keys R data keys n =
     and_then (dedup_keep_mask R data n) (\<lambda>keep.
       and_then (apply_keep_mask data keep) (\<lambda>(data', _).
         and_then (apply_keep_mask keys keep) (\<lambda>(keys', kept). Inr (data', keys', kept))))"

definition truncate_cols :: "columns \<Rightarrow> nat \<Rightarrow> columns" where
  "truncate_cols data n = map (take n) data"

section \<open>ORDER BY\<close>

definition key_at :: "columns \<Rightarrow> nat \<Rightarrow> nat \<Rightarrow> cfml_value" where
  "key_at keys c a = unwrap_or (Option.bind (get keys c) (\<lambda>col. get col a)) VNull"

fun order_cmp :: "runtime \<Rightarrow> columns \<Rightarrow> nat \<Rightarrow> sort_direction list \<Rightarrow> nat \<Rightarrow> nat \<Rightarrow> ordering" where
  "order_cmp R keys c [] a b = Equal"
| "order_cmp R keys c (dir # dirs) a b =
     (let ord = compare_total R (key_at keys c a) (key_at keys c b);
          ord' = (if dir = Desc then reverse ord else ord)
      in if ord' \<noteq> Equal then ord' else order_cmp R keys (c + 1) dirs a b)"

text \<open>
  The permutation moves each cell out of its slot once. The standard library's stable sort
  requires a total order and may panic on a comparator that is none. The model sorts with
  \<open>sort_by\<close> in every case; on keys of one kind the comparator is a total order
  (\<open>order_cmp_comparator\<close>), and on others, where \<open>compare_total\<close> has cycles, neither the order of
  the rows nor the absence of that panic is claimed.
\<close>

fun take_cells :: "'a option list \<Rightarrow> nat list \<Rightarrow> 'a list outcome" where
  "take_cells slots [] = Inr []"
| "take_cells slots (i # idx) =
     (case get slots i of
        Some (Some v) \<Rightarrow> and_then (take_cells (slots[i := None]) idx) (\<lambda>vs. Inr (v # vs))
      | _ \<Rightarrow> Inl Panic)"

definition sort_cols :: "runtime \<Rightarrow> columns \<Rightarrow> columns \<Rightarrow> 'sel order_by_expr list \<Rightarrow> nat \<Rightarrow> columns outcome" where
  "sort_cols R data keys order_by n =
     (if order_by = [] \<or> n < 2 then Inr data
      else let idx = sort_by (order_cmp R keys 0 (map ob_direction order_by)) [0..<n]
           in mapM (\<lambda>col. take_cells (map Some col) idx) data)"

section \<open>LIMIT\<close>

definition slice :: "nat \<Rightarrow> nat \<Rightarrow> 'a list \<Rightarrow> 'a list outcome" where
  "slice start end1 col =
     (if start \<le> end1 \<and> end1 \<le> length col then Inr (take (end1 - start) (drop start col)) else Inl Panic)"

definition apply_limit_cols :: "columns \<Rightarrow> limit_clause option \<Rightarrow> nat \<Rightarrow> (columns \<times> nat) outcome" where
  "apply_limit_cols data limit n =
     (case limit of
        None \<Rightarrow> Inr (data, n)
      | Some l \<Rightarrow>
          (let start = min (lm_offset l) n;
               end1 = min (min (lm_offset l + lm_count l) usize_max) n
           in and_then (if start = 0 then Inr (map (take end1) data) else mapM (slice start end1) data)
                (\<lambda>data'. Inr (data', end1 - start))))"

section \<open>Rows of a column-major result\<close>

definition wf_cols :: "nat \<Rightarrow> 'a list list \<Rightarrow> bool" where
  "wf_cols n data \<longleftrightarrow> list_all (\<lambda>col. length col = n) data"

definition row_at :: "'a list list \<Rightarrow> nat \<Rightarrow> 'a list" where
  "row_at data i = map (\<lambda>col. col ! i) data"

definition rows_of :: "'a list list \<Rightarrow> nat \<Rightarrow> 'a list list" where
  "rows_of data n = map (row_at data) [0..<n]"

text \<open>Every stage after the projection picks rows: it is a \<open>gather\<close> along some list of indices.\<close>

definition gather :: "nat list \<Rightarrow> 'a list list \<Rightarrow> 'a list list" where
  "gather idx data = map (\<lambda>col. map ((!) col) idx) data"

lemma wf_cols_length: "wf_cols n data \<Longrightarrow> col \<in> set data \<Longrightarrow> length col = n"
  by (simp add: wf_cols_def list_all_iff)

lemma length_rows_of [simp]: "length (rows_of data n) = n"
  by (simp add: rows_of_def)

lemma nth_rows_of [simp]: "i < n \<Longrightarrow> rows_of data n ! i = row_at data i"
  by (simp add: rows_of_def del: upt_Suc)

lemma length_gather [simp]: "length (gather idx data) = length data"
  by (simp add: gather_def)

lemma wf_gather [simp]: "wf_cols (length idx) (gather idx data)"
  by (simp add: wf_cols_def gather_def list_all_iff)

lemma rows_of_gather:
  assumes "set idx \<subseteq> {..<n}"
  shows "rows_of (gather idx data) (length idx) = map ((!) (rows_of data n)) idx"
proof (rule nth_equalityI)
  fix i assume "i < length (rows_of (gather idx data) (length idx))"
  then have i: "i < length idx" by simp
  with assms have "idx ! i < n" by (auto dest: nth_mem)
  with i show "rows_of (gather idx data) (length idx) ! i = map ((!) (rows_of data n)) idx ! i"
    by (simp add: row_at_def gather_def)
qed simp

text \<open>Only the rows matter: two rectangles with the same rows are equal.\<close>

lemma cols_eq_rows:
  assumes "wf_cols n data" "wf_cols n data'" "length data = length data'" "rows_of data n = rows_of data' n"
  shows "data = data'"
proof (rule nth_equalityI)
  fix c assume c: "c < length data"
  have len: "length (data ! c) = n" "length (data' ! c) = n"
    using assms c by (auto intro: wf_cols_length)
  show "data ! c = data' ! c"
  proof (rule nth_equalityI)
    fix i assume "i < length (data ! c)"
    then have "i < n" using len by simp
    then have "row_at data i = row_at data' i"
      using assms(4) nth_rows_of by metis
    then have "row_at data i ! c = row_at data' i ! c" by simp
    then show "data ! c ! i = data' ! c ! i"
      using c assms(3) by (simp add: row_at_def)
  qed (simp add: len)
qed (fact assms(3))

section \<open>Each stage gathers\<close>

lemma take_cells_gather:
  assumes "distinct idx" "\<forall>i \<in> set idx. i < length slots \<and> slots ! i = Some (f i)"
  shows "take_cells slots idx = Inr (map f idx)"
  using assms
proof (induction idx arbitrary: slots)
  case (Cons i idx)
  have "take_cells (slots[i := None]) idx = Inr (map f idx)"
    using Cons.prems by (intro Cons.IH) (auto simp: nth_list_update)
  with Cons.prems show ?case by simp
qed simp

lemma sort_cols_gather:
  assumes "wf_cols n data" "order_by \<noteq> []" "2 \<le> n"
  shows "sort_cols R data keys order_by n =
    Inr (gather (sort_by (order_cmp R keys 0 (map ob_direction order_by)) [0..<n]) data)"
proof -
  have "take_cells (map Some col) (sort_by f [0..<n]) = Inr (map ((!) col) (sort_by f [0..<n]))"
    if "col \<in> set data" for col f
    using wf_cols_length [OF assms(1) that] by (intro take_cells_gather) auto
  then show ?thesis
    using assms(2,3) by (simp add: sort_cols_def gather_def mapM_total Let_def)
qed

lemma map_nth_segment: "j \<le> length xs \<Longrightarrow> map ((!) xs) [i..<j] = take (j - i) (drop i xs)"
  by (rule nth_equalityI) (auto simp del: upt_Suc)

lemma apply_limit_gather:
  fixes l :: limit_clause
  assumes "wf_cols n data"
  defines "s \<equiv> min (lm_offset l) n" and "e \<equiv> min (min (lm_offset l + lm_count l) usize_max) n"
  assumes "lm_offset l \<le> usize_max"
  shows "apply_limit_cols data (Some l) n = Inr (gather [s..<e] data, e - s)"
proof -
  have "s \<le> e"
    using assms(4) by (auto simp: s_def e_def)
  moreover have "e \<le> length col" if "col \<in> set data" for col
    using wf_cols_length [OF assms(1) that] by (simp add: e_def)
  ultimately have "mapM (slice s e) data = Inr (gather [s..<e] data)"
      "map (take e) data = gather [0..<e] data"
    by (auto simp: gather_def slice_def map_nth_segment simp del: upt_Suc intro!: mapM_total)
  then show ?thesis
    by (auto simp: apply_limit_cols_def Let_def s_def [symmetric] e_def [symmetric])
qed

definition kept :: "bool list \<Rightarrow> nat list" where
  "kept keep = filter ((!) keep) [0..<length keep]"

lemma kept_Cons: "kept (k # ks) = (if k then [0] else []) @ map Suc (kept ks)"
proof -
  have "[0..<length (k # ks)] = 0 # map Suc [0..<length ks]"
    by (simp only: length_Cons map_Suc_upt) (simp add: upt_conv_Cons del: upt_Suc)
  then show ?thesis
    by (simp add: kept_def filter_map comp_def del: upt_Suc)
qed

lemma retain_mask_kept: "length col = length keep \<Longrightarrow> retain_mask col keep = Inr (map ((!) col) (kept keep))"
proof (induction col keep rule: retain_mask.induct)
  case (1 keep)
  then show ?case by (simp add: kept_def)
qed (simp_all add: kept_Cons)

lemma length_kept [simp]: "length (kept keep) = length (filter id keep)"
  by (induction keep) (simp_all add: kept_Cons, simp add: kept_def)

lemma apply_keep_mask_gather:
  assumes "wf_cols (length keep) data"
  shows "apply_keep_mask data keep = Inr (gather (kept keep) data, length (kept keep))"
  using wf_cols_length [OF assms] by (simp add: apply_keep_mask_def gather_def mapM_total retain_mask_kept)

lemma length_insert_mask [simp]: "length (insert_mask seen ks) = length ks"
  by (induction seen ks rule: insert_mask.induct) simp_all

lemma kept_insert_mask: "map ((!) vs) (kept (insert_mask seen (map key vs))) = retain_new key seen vs"
  by (induction vs arbitrary: seen) (simp_all add: kept_Cons insert_absorb comp_def, simp add: kept_def)

lemma kept_bound: "set (kept keep) \<subseteq> {..<length keep}"
  by (auto simp: kept_def)

lemma dedup_keep_mask_rows:
  assumes "wf_cols n data"
  shows "dedup_keep_mask R data n = Inr (insert_mask {} (map (group_key R) (rows_of data n)))"
proof -
  have "mapM (cell_at i) data = Inr (row_at data i)" if "i < n" for i
    unfolding row_at_def
    by (rule mapM_total) (use wf_cols_length [OF assms] that in \<open>simp add: cell_at_def\<close>)
  then have "mapM (row_key R data) [0..<n] = Inr (map (\<lambda>i. group_key R (row_at data i)) [0..<n])"
    by (intro mapM_total) (simp add: row_key_def group_key_def)
  then show ?thesis
    by (simp add: dedup_keep_mask_def rows_of_def comp_def)
qed

lemma dedup_cols_rows:
  fixes R :: runtime
  assumes "wf_cols n data"
  defines "idx \<equiv> kept (insert_mask {} (map (group_key R) (rows_of data n)))"
  shows "dedup_cols R data n = Inr (gather idx data, length idx)"
    and "wf_cols n keys \<Longrightarrow> dedup_cols_and_keys R data keys n = Inr (gather idx data, gather idx keys, length idx)"
    and "rows_of (gather idx data) (length idx) = retain_new (group_key R) {} (rows_of data n)"
proof -
  let ?keep = "insert_mask {} (map (group_key R) (rows_of data n))"
  have n: "length ?keep = n" by simp
  note a = apply_keep_mask_gather [of ?keep, unfolded n, folded idx_def]
  show "dedup_cols R data n = Inr (gather idx data, length idx)"
    by (simp only: dedup_cols_def dedup_keep_mask_rows [OF assms(1)] and_then_simps a [OF assms(1)])
  show "dedup_cols_and_keys R data keys n = Inr (gather idx data, gather idx keys, length idx)"
    if "wf_cols n keys"
    by (simp only: dedup_cols_and_keys_def dedup_keep_mask_rows [OF assms(1)] and_then_simps
        a [OF assms(1)] a [OF that] prod.case)
  have "set idx \<subseteq> {..<n}"
    using kept_bound [of ?keep] n by (simp add: idx_def)
  then show "rows_of (gather idx data) (length idx) = retain_new (group_key R) {} (rows_of data n)"
    by (simp only: rows_of_gather idx_def kept_insert_mask)
qed

section \<open>Transposition\<close>

lemma length_fit_row [simp]: "length (fit_row w row) = w"
  by (simp add: fit_row_def)

lemma fit_row_nth: "ci < w \<Longrightarrow> fit_row w row ! ci = unwrap_or (get row ci) VNull"
  by (auto simp: fit_row_def nth_append get_def unwrap_or_def)

lemma push_cells_nth:
  "length (push_cells data row) = length data \<and>
   (\<forall>ci < length data. push_cells data row ! ci = data ! ci @ [unwrap_or (get row ci) VNull])"
  by (induction data row rule: push_cells.induct)
     (auto simp: nth_Cons unwrap_or_def split: nat.splits)

lemma push_cells_map:
  "push_cells data row = map (\<lambda>ci. data ! ci @ [unwrap_or (get row ci) VNull]) [0..<length data]"
  by (rule nth_equalityI) (simp_all add: push_cells_nth del: upt_Suc)

lemma rows_to_cols_loop:
  "foldl push_cells data rows = map (\<lambda>ci. data ! ci @ map (\<lambda>row. unwrap_or (get row ci) VNull) rows) [0..<length data]"
proof (induction rows arbitrary: data)
  case (Cons row rows)
  have "foldl push_cells data (row # rows) = foldl push_cells (push_cells data row) rows"
    by simp
  also have "\<dots> = map (\<lambda>ci. push_cells data row ! ci @ map (\<lambda>row. unwrap_or (get row ci) VNull) rows) [0..<length data]"
    by (simp only: Cons.IH push_cells_nth)
  also have "\<dots> = map (\<lambda>ci. data ! ci @ map (\<lambda>row. unwrap_or (get row ci) VNull) (row # rows)) [0..<length data]"
    by (rule map_cong) (simp_all add: push_cells_nth)
  finally show ?case .
qed (simp add: map_nth)

lemma concat_nth:
  assumes "\<forall>xs \<in> set xss. length xs = w" "r < length xss" "c < w"
  shows "concat xss ! (r * w + c) = xss ! r ! c"
  using assms
proof (induction xss arbitrary: r)
  case (Cons xs xss)
  then show ?case
    by (cases r) (auto simp: nth_append add.assoc)
qed simp

lemma rows_to_cols_parallel_eq:
  "rows_to_cols_parallel rows w (length rows) =
   map (\<lambda>ci. map (\<lambda>row. unwrap_or (get row ci) VNull) rows) [0..<w]"
proof -
  have "map (\<lambda>r. concat (map (fit_row w) rows) ! (r * w + ci)) [0..<length rows] =
      map (\<lambda>row. unwrap_or (get row ci) VNull) rows" if "ci < w" for ci
    by (rule nth_equalityI) (use that in \<open>simp_all add: concat_nth fit_row_nth del: upt_Suc\<close>)
  then show ?thesis
    by (simp add: rows_to_cols_parallel_def Let_def)
qed

lemma rows_to_cols_eq:
  "rows_to_cols rows w = map (\<lambda>ci. map (\<lambda>row. unwrap_or (get row ci) VNull) rows) [0..<w]"
proof -
  have "replicate w [] = map (\<lambda>ci. []) [0..<w]"
    by (simp add: map_replicate_const)
  then show ?thesis
    by (auto simp: rows_to_cols_def Let_def rows_to_cols_parallel_eq rows_to_cols_loop simp del: upt_Suc)
qed

section \<open>The ORDER BY comparator\<close>

lemma comparator_on_lex:
  assumes f: "comparator_on C f" and g: "comparator_on C g"
  shows "comparator_on C (\<lambda>x y. if f x y \<noteq> Equal then f x y else g x y)"
proof
  note ft = comparator_on.Equal_trans [OF f] and fl = comparator_on.Less_trans [OF f]
  note fs = comparator_on.swap [OF f] and gs = comparator_on.swap [OF g]
  fix x y z assume C: "x \<in> C" "y \<in> C"
  show "(if f x x \<noteq> Equal then f x x else g x x) = Equal"
    using comparator_on.refl [OF f C(1)] comparator_on.refl [OF g C(1)] by simp
  show "(if f y x \<noteq> Equal then f y x else g y x) = reverse (if f x y \<noteq> Equal then f x y else g x y)"
    using fs [OF C] gs [OF C] by simp
  assume z: "z \<in> C"
    and xy: "(if f x y \<noteq> Equal then f x y else g x y) \<noteq> Greater"
    and yz: "(if f y z \<noteq> Equal then f y z else g y z) \<noteq> Greater"
  show "(if f x z \<noteq> Equal then f x z else g x z) \<noteq> Greater"
  proof (cases "f x y")
    case Less
    moreover have "f y z \<noteq> Greater" using yz by (auto split: if_splits)
    ultimately have "f x z = Less" by (rule fl [OF C z])
    then show ?thesis by simp
  next
    case Equal
    show ?thesis
    proof (cases "f y z")
      case Less
      have "f z y \<noteq> Less" "f y x \<noteq> Greater"
        using fs [OF C(2) z] fs [OF C] Less Equal by simp_all
      have "f x z \<noteq> Greater"
        using comparator_on.le_trans [OF f C z] Equal Less by simp
      moreover have "f x z \<noteq> Equal"
      proof
        assume "f x z = Equal"
        then have "f y z = Equal"
          using ft [OF C(2) C(1) z] fs [OF C] Equal by simp
        with Less show False by simp
      qed
      ultimately show ?thesis by simp
    next
      case 2: Equal
      have "f x z = Equal" by (rule ft [OF C z Equal 2])
      moreover have "g x z \<noteq> Greater"
        using comparator_on.le_trans [OF g C z] xy yz Equal 2 by simp
      ultimately show ?thesis by simp
    qed (use yz in simp)
  qed (use xy in simp)
qed

lemma comparator_on_image:
  assumes f: "comparator_on D f" and k: "\<And>x. x \<in> C \<Longrightarrow> k x \<in> D"
  shows "comparator_on C (\<lambda>x y. f (k x) (k y))"
proof
  fix x y z assume C: "x \<in> C" "y \<in> C"
  show "f (k x) (k x) = Equal"
    by (rule comparator_on.refl [OF f k [OF C(1)]])
  show "f (k y) (k x) = reverse (f (k x) (k y))"
    by (rule comparator_on.swap [OF f k [OF C(1)] k [OF C(2)]])
  assume "z \<in> C" "f (k x) (k y) \<noteq> Greater" "f (k y) (k z) \<noteq> Greater"
  then show "f (k x) (k z) \<noteq> Greater"
    using comparator_on.le_trans [OF f k [OF C(1)] k [OF C(2)] k] by blast
qed

lemma comparator_on_Equal: "comparator_on C (\<lambda>x y. Equal)"
  by unfold_locales simp_all

lemma one_kind_insert_VNull [simp]: "one_kind (insert VNull V) \<longleftrightarrow> one_kind V"
  by (simp add: one_kind_def string_cells_def int_cells_def number_cells_def date_cells_def)

lemma key_at_cells: "key_at keys c a \<in> insert VNull (if c < length keys then set (keys ! c) else {})"
  by (auto simp: key_at_def get_def unwrap_or_def)

lemma order_cmp_comparator:
  assumes "unicode_laws R" "list_all (\<lambda>col. one_kind (set col)) keys"
  shows "comparator_on UNIV (order_cmp R keys c dirs)"
proof (induction dirs arbitrary: c)
  case Nil
  have "order_cmp R keys c [] = (\<lambda>x y. Equal)" by (intro ext) simp
  then show ?case by (simp only: comparator_on_Equal)
next
  case (Cons d dirs)
  let ?V = "insert VNull (if c < length keys then set (keys ! c) else {})"
  have "one_kind ?V"
    using assms(2) by (auto simp: list_all_length) (simp add: one_kind_def)
  then have "comparator_on ?V (directed (d \<noteq> Desc) (compare_total R))"
    using assms(1) by (intro comparator_on_directed one_kind_column)
  then have "comparator_on UNIV (\<lambda>a b. directed (d \<noteq> Desc) (compare_total R) (key_at keys c a) (key_at keys c b))"
    by (rule comparator_on_image) (rule key_at_cells)
  from comparator_on_lex [OF this Cons.IH [of "c + 1"]] show ?case
    by (rule back_subst [where P = "comparator_on UNIV"]) (intro ext, simp add: directed_def Let_def)
qed

lemma kept_first:
  "kept (insert_mask {} (map key [0..<n])) = filter (\<lambda>i. \<forall>j < i. key j \<noteq> key i) [0..<n]"
proof -
  let ?k = "kept (insert_mask {} (map key [0..<n]))"
  have "?k = map ((!) [0..<n]) ?k"
    using kept_bound [of "insert_mask {} (map key [0..<n])"] by (auto intro!: map_idI [symmetric])
  also have "\<dots> = retain_new key {} [0..<n]"
    by (rule kept_insert_mask)
  also have "\<dots> = filter (\<lambda>i. \<forall>j < i. key j \<noteq> key i) [0..<n]"
  proof -
    have "filter (\<lambda>i. \<forall>j < i. key ([0..<n] ! j) \<noteq> key ([0..<n] ! i)) [0..<n] =
        filter (\<lambda>i. \<forall>j < i. key j \<noteq> key i) [0..<n]"
      by (rule filter_cong) auto
    then show ?thesis
      by (simp add: retain_new_filter) (rule map_idI, auto)
  qed
  finally show ?thesis .
qed

section \<open>Properties\<close>

text \<open>Transposition. Whatever the number of rows, and so on the sequential and on the parallel
  path, the result has one column per output column, each as long as there are rows, and the rows
  of the result are the rows given, cut or padded with NULL to the width.\<close>

lemma rows_to_cols_rows:
  "length (rows_to_cols rows w) = w \<and> wf_cols (length rows) (rows_to_cols rows w) \<and>
   rows_of (rows_to_cols rows w) (length rows) = map (fit_row w) rows"
proof (intro conjI)
  show "rows_of (rows_to_cols rows w) (length rows) = map (fit_row w) rows"
    by (rule nth_equalityI, simp)
       (rule nth_equalityI, simp_all add: rows_to_cols_eq row_at_def fit_row_nth del: upt_Suc)
qed (simp_all add: rows_to_cols_eq wf_cols_def list_all_iff)

text \<open>C23: DISTINCT. On a rectangle of \<open>n\<close> rows the engine does not panic; the result is again a
  rectangle, with as many rows as it reports, and its rows are those of the input whose key no
  earlier row has, in order. The sort keys are cut with the same mask.\<close>

theorem dedup_cols_correct:
  assumes "wf_cols n data" "wf_cols n keys"
  shows "\<exists>data' keys' m. dedup_cols R data n = Inr (data', m) \<and>
     dedup_cols_and_keys R data keys n = Inr (data', keys', m) \<and>
     length data' = length data \<and> length keys' = length keys \<and> wf_cols m data' \<and> wf_cols m keys' \<and>
     (\<exists>idx. idx = filter (\<lambda>i. \<forall>j < i. group_key R (row_at data j) \<noteq> group_key R (row_at data i)) [0..<n] \<and>
        rows_of data' m = map (row_at data) idx \<and> rows_of keys' m = map (row_at keys) idx)"
proof -
  let ?idx = "filter (\<lambda>i. \<forall>j < i. group_key R (row_at data j) \<noteq> group_key R (row_at data i)) [0..<n]"
  have k: "kept (insert_mask {} (map (group_key R) (rows_of data n))) = ?idx"
    using kept_first [of "\<lambda>i. group_key R (row_at data i)" n] by (simp add: rows_of_def comp_def)
  have rows: "rows_of (gather ?idx d) (length ?idx) = map (row_at d) ?idx" for d :: columns
    by (subst rows_of_gather [where n = n]) auto
  note d = dedup_cols_rows(1,2) [OF assms(1), where R = R, unfolded k]
  show ?thesis
    by (rule exI [of _ "gather ?idx data"], rule exI [of _ "gather ?idx keys"], rule exI [of _ "length ?idx"])
       (intro conjI exI [of _ ?idx] refl rows d(1) d(2) [OF assms(2)] length_gather wf_gather)
qed

theorem dedup_cols_correct_witness:
  "\<exists>data' keys' m. dedup_cols ascii_runtime [[VInt 1, VInt 1, VInt 2]] 3 = Inr (data', m) \<and>
     rows_of data' m = [[VInt 1], [VInt 2]] \<and>
     dedup_cols_and_keys ascii_runtime [[VInt 1, VInt 1, VInt 2]] [[VNull, VNull, VNull]] 3 = Inr (data', keys', m)"
proof -
  let ?d = "[[VInt 1, VInt 1, VInt 2]]"
  have "filter (\<lambda>i. \<forall>j < i. group_key ascii_runtime (row_at ?d j) \<noteq> group_key ascii_runtime (row_at ?d i)) [0..<3] = [0, 2]"
    by (simp add: upt_rec row_at_def group_key_def append_group_key_def show_i64_def show_int_def show_nat.simps
        All_less_Suc numeral_3_eq_3 numeral_2_eq_2)
  moreover have "map (row_at ?d) [0, 2] = [[VInt 1], [VInt 2]]"
    by (simp add: row_at_def)
  moreover have "wf_cols 3 ?d" "wf_cols 3 [[VNull, VNull, VNull]]"
    by (simp_all add: wf_cols_def)
  note dedup_cols_correct [OF this, of ascii_runtime]
  ultimately show ?thesis
    by (elim exE conjE) (intro exI conjI, assumption, simp only:, assumption)
qed

text \<open>C22: ORDER BY. On a rectangle of rows, with sort keys each of one kind of value, sorting does
  not panic and applies a permutation of the rows; the permuted rows are in the order of the keys
  and directions, and rows that compare equal keep the order they had.\<close>

theorem sort_cols_correct:
  assumes "unicode_laws R" "wf_cols n data" "list_all (\<lambda>col. one_kind (set col)) keys"
  shows "let ordf = order_cmp R keys 0 (map ob_direction order_by) in \<exists>idx data'. sort_cols R data keys order_by n = Inr data' \<and>
     mset idx = mset [0..<n] \<and> length data' = length data \<and> wf_cols n data' \<and>
     rows_of data' n = map (row_at data) idx \<and>
     sorted_wrt (\<lambda>a b. ordf a b \<noteq> Greater) idx \<and>
     (\<forall>k. filter (\<lambda>a. ordf k a = Equal) idx = filter (\<lambda>a. ordf k a = Equal) [0..<n])"
proof -
  define ordf where "ordf = order_cmp R keys 0 (map ob_direction order_by)"
  have c: "comparator_on UNIV ordf"
    unfolding ordf_def by (rule order_cmp_comparator [OF assms(1,3)])
  define idx where "idx = (if order_by = [] \<or> n < 2 then [0..<n] else sort_by ordf [0..<n])"
  have idx: "mset idx = mset [0..<n]" "set idx \<subseteq> {..<n}" "length idx = n"
    by (auto simp: idx_def)
  have "sorted_wrt (\<lambda>a b. ordf a b \<noteq> Greater) idx"
    using comparator_on.ordered_sort_by [OF c] comparator_on.ordered_def [OF c]
    by (auto simp: idx_def ordf_def less_2_cases_iff)
  moreover have "\<forall>k. filter (\<lambda>a. ordf k a = Equal) idx = filter (\<lambda>a. ordf k a = Equal) [0..<n]"
    using comparator_on.sort_by_stable [OF c] by (simp add: idx_def)
  moreover have "sort_cols R data keys order_by n = Inr (gather idx data)"
  proof (cases "order_by = [] \<or> n < 2")
    case True
    have "map ((!) col) [0..<n] = col" if "col \<in> set data" for col
      using wf_cols_length [OF assms(2) that] map_nth by metis
    with True have "gather idx data = data"
      by (simp add: gather_def idx_def map_idI)
    with True show ?thesis by (auto simp: sort_cols_def)
  qed (simp add: sort_cols_gather [OF assms(2)] idx_def ordf_def)
  ultimately show ?thesis
    using idx wf_gather [of idx data] rows_of_gather [OF idx(2), of data] unfolding Let_def ordf_def [symmetric]
    by (intro exI [of _ idx] exI [of _ "gather idx data"]) (auto simp: subset_iff)
qed

theorem sort_cols_correct_witness:
  "\<exists>idx data'. sort_cols ascii_runtime [[VInt 3, VInt 1]] [[VInt 3, VInt 1]]
      [OrderByExpr (Literal VNull :: unit expr) Asc] 2 = Inr data' \<and>
     mset idx = mset [0..<2] \<and> rows_of data' 2 = map (row_at [[VInt 3, VInt 1]]) idx"
  using sort_cols_correct [of ascii_runtime 2 "[[VInt 3, VInt 1]]" "[[VInt 3, VInt 1]]"
      "[OrderByExpr (Literal VNull :: unit expr) Asc]"]
  by (simp add: wf_cols_def one_kind_def int_cells_def Let_def) blast

text \<open>C24: LIMIT and OFFSET. On a rectangle of rows the slices are in range, and what is left is the
  \<open>count\<close> rows after the first \<open>offset\<close>, fewer where the input ends; an offset plus count beyond
  the machine's range saturates instead of wrapping to a small number.\<close>

theorem apply_limit_correct:
  assumes "wf_cols n data" "lm_offset l \<le> usize_max" "n \<le> usize_max"
  shows "\<exists>data' m. apply_limit_cols data (Some l) n = Inr (data', m) \<and>
     length data' = length data \<and> wf_cols m data' \<and>
     rows_of data' m = take (lm_count l) (drop (lm_offset l) (rows_of data n))"
proof -
  let ?s = "min (lm_offset l) n" and ?e = "min (min (lm_offset l + lm_count l) usize_max) n"
  have "rows_of (gather [?s..<?e] data) (length [?s..<?e]) = map ((!) (rows_of data n)) [?s..<?e]"
    by (rule rows_of_gather) auto
  also have "\<dots> = take (?e - ?s) (drop ?s (rows_of data n))"
    by (rule map_nth_segment) simp
  also have "\<dots> = take (lm_count l) (drop (lm_offset l) (rows_of data n))"
    using assms(3) by (cases "lm_offset l \<le> n") (auto simp: min_def)
  finally show ?thesis
    using apply_limit_gather [OF assms(1,2)] wf_gather [of "[?s..<?e]" data] by auto
qed

theorem apply_limit_correct_witness:
  "\<exists>data' m. apply_limit_cols [[VInt 1, VInt 2, VInt 3]] (Some (LimitClause 1 1)) 3 = Inr (data', m) \<and>
     rows_of data' m = [[VInt 2]]"
proof -
  have "take 1 (drop 1 (rows_of [[VInt 1, VInt 2, VInt 3]] 3)) = [[VInt 2]]"
    by (simp add: rows_of_def row_at_def upt_rec)
  then show ?thesis
    using apply_limit_correct [of 3 "[[VInt 1, VInt 2, VInt 3]]" "LimitClause 1 1"]
    by (auto simp: wf_cols_def usize_max_def)
qed

end
