(* ===== verification/Project.thy ===== *)
theory Project
  imports Joins Output
begin

text \<open>
  From row combinations to result columns (\<open>execution.rs\<close>): the WHERE filter, the projection with
  its sort keys, the fused path for a single table, and the sort keys of a UNION.

  A parallel path evaluates chunks of rows on the workers with \<^const>\<open>pure_engine\<close> and puts the
  results together in order. Where several chunks fail, the model reports the first failure.
\<close>

section \<open>Helpers\<close>

primrec expr_has_aggregate :: "runtime \<Rightarrow> registry \<Rightarrow> 'sel expr \<Rightarrow> bool" where
  "expr_has_aggregate R reg (Function name args d) =
     (is_aggregate R reg name \<or> list_ex id (map (expr_has_aggregate R reg) args))"
| "expr_has_aggregate R reg (Binary l op r) = (expr_has_aggregate R reg l \<or> expr_has_aggregate R reg r)"
| "expr_has_aggregate R reg (Unary op e) = expr_has_aggregate R reg e"
| "expr_has_aggregate R reg (Cast e ty) = expr_has_aggregate R reg e"
| "expr_has_aggregate R reg (IsNull e n) = expr_has_aggregate R reg e"
| "expr_has_aggregate R reg (Case operand whens els) =
     (unwrap_or (map_option (expr_has_aggregate R reg) operand) False \<or>
      list_ex (\<lambda>(w, t). w \<or> t) (map (map_prod (expr_has_aggregate R reg) (expr_has_aggregate R reg)) whens) \<or>
      unwrap_or (map_option (expr_has_aggregate R reg) els) False)"
| "expr_has_aggregate R reg (InList e n es) =
     (expr_has_aggregate R reg e \<or> list_ex id (map (expr_has_aggregate R reg) es))"
| "expr_has_aggregate R reg (Between e n lo hi) =
     (expr_has_aggregate R reg e \<or> expr_has_aggregate R reg lo \<or> expr_has_aggregate R reg hi)"
| "expr_has_aggregate R reg (Like e n p esc c) = (expr_has_aggregate R reg e \<or> expr_has_aggregate R reg p)"
| "expr_has_aggregate R reg (Star t) = False"
| "expr_has_aggregate R reg (Column t n) = False"
| "expr_has_aggregate R reg (ResolvedColumn ti ci n) = False"
| "expr_has_aggregate R reg (Literal v) = False"
| "expr_has_aggregate R reg (InSubquery e n q) = False"
| "expr_has_aggregate R reg (ScalarSubquery q) = False"
| "expr_has_aggregate R reg (Param p) = False"

text \<open>\<open>(*n - 1).max(0) as usize\<close>: the subtraction is that of the machine.\<close>

definition position_slot :: "i64 \<Rightarrow> nat" where
  "position_slot n = (let m = n - 1 in if sint m < 0 then 0 else unat m)"

definition int_alias :: "'sel expr \<Rightarrow> nat option" where
  "int_alias e = (case e of Literal (VInt n) \<Rightarrow> Some (position_slot n) | _ \<Rightarrow> None)"

definition chunk_rows :: "env \<Rightarrow> nat \<Rightarrow> nat" where
  "chunk_rows E n = max (n div (max (en_workers E) 1 * 4)) 1024"

definition runs_parallel :: "env \<Rightarrow> nat \<Rightarrow> bool" where
  "runs_parallel E n \<longleftrightarrow> en_parallel E \<and> parallel_row_threshold \<le> n"

text \<open>Each column extended by the corresponding one: \<open>data[ci].extend(col)\<close>.\<close>

fun extend_cols :: "columns \<Rightarrow> columns \<Rightarrow> columns outcome" where
  "extend_cols data [] = Inr data"
| "extend_cols [] (col # cols) = Inl Panic"
| "extend_cols (d # data) (col # cols) = and_then (extend_cols data cols) (\<lambda>data'. Inr ((d @ col) # data'))"

fun extend_all :: "columns \<Rightarrow> columns list \<Rightarrow> columns outcome" where
  "extend_all data [] = Inr data"
| "extend_all data (c # cs) = and_then (extend_cols data c) (\<lambda>data'. extend_all data' cs)"

section \<open>WHERE\<close>

fun keep_loop :: "(nat list \<Rightarrow> bool outcome) \<Rightarrow> nat list \<Rightarrow> nat list list \<Rightarrow> nat list outcome" where
  "keep_loop p keep [] = Inr keep"
| "keep_loop p keep (isec # rows) = and_then (p isec) (\<lambda>b. keep_loop p (if b then keep @ isec else keep) rows)"

fun filter_loop :: "(nat list \<Rightarrow> bool outcome) \<Rightarrow> intersections \<Rightarrow> nat list list \<Rightarrow> intersections outcome" where
  "filter_loop p out [] = Inr out"
| "filter_loop p out (isec # rows) =
     and_then (p isec) (\<lambda>b. filter_loop p (if b then push_row isec out else out) rows)"

definition where_holds :: "env \<Rightarrow> table_set \<Rightarrow> sub compiled_expr \<Rightarrow> nat list \<Rightarrow> bool outcome" where
  "where_holds E T ce isec =
     and_then (eval_compiled E T ce (Row isec)) (\<lambda>v. Inr (is_truthy (en_rt E) v))"

definition filter_where ::
  "env \<Rightarrow> intersections \<Rightarrow> sub compiled_expr option \<Rightarrow> table_set \<Rightarrow> intersections outcome" where
  "filter_where E x where_clause T =
     (case where_clause of
        None \<Rightarrow> Inr x
      | Some ce \<Rightarrow>
          if runs_parallel E (inters_len x)
          then and_then (mapM (\<lambda>chunk. keep_loop (where_holds (pure_engine E) T ce) [] (inters_iter chunk))
                           (par_chunks_rows (chunk_rows E (inters_len x)) x))
                 (\<lambda>parts. Inr \<lparr> in_width = in_width x, in_flat = concat parts \<rparr>)
          else filter_loop (where_holds E T ce) (inters_new (in_width x)) (inters_iter x))"

section \<open>Projection of joined rows\<close>

definition last_cell :: "columns \<Rightarrow> nat \<Rightarrow> cfml_value" where
  "last_cell data idx =
     (case get data idx of None \<Rightarrow> VNull | Some col \<Rightarrow> if col = [] then VNull else last col)"

fun simple_loop ::
  "env \<Rightarrow> table_set \<Rightarrow> sub select_column list \<Rightarrow> sub order_by_expr list \<Rightarrow> columns \<Rightarrow> columns
    \<Rightarrow> nat list list \<Rightarrow> (columns \<times> columns) outcome" where
  "simple_loop E T cols obs data keys [] = Inr (data, keys)"
| "simple_loop E T cols obs data keys (isec # rows) =
     and_then (mapM (\<lambda>sc. eval E T (sc_expr sc) (Row isec)) cols) (\<lambda>row.
       let data' = push_cells data row
       in and_then (mapM (\<lambda>ob. case int_alias (ob_expr ob) of
                                 Some idx \<Rightarrow> Inr (last_cell data' idx)
                               | None \<Rightarrow> eval E T (ob_expr ob) (Row isec)) obs) (\<lambda>key.
            simple_loop E T cols obs data' (push_cells keys key) rows))"

definition exec_simple ::
  "env \<Rightarrow> sub select_column list \<Rightarrow> intersections \<Rightarrow> table_set \<Rightarrow> sub order_by_expr list
    \<Rightarrow> (columns \<times> columns \<times> nat) outcome" where
  "exec_simple E cols x T obs =
     (let n_rows = inters_len x; no_data = replicate (length cols) []; no_keys = replicate (length obs) []
      in if runs_parallel E n_rows
         then and_then (mapM (\<lambda>chunk. simple_loop (pure_engine E) T cols obs no_data no_keys (inters_iter chunk))
                          (par_chunks_rows (chunk_rows E n_rows) x)) (\<lambda>chunks.
                and_then (extend_all no_data (map fst chunks)) (\<lambda>data.
                  and_then (extend_all no_keys (map snd chunks)) (\<lambda>keys. Inr (data, keys, n_rows))))
         else and_then (simple_loop E T cols obs no_data no_keys (inters_iter x))
                (\<lambda>(data, keys). Inr (data, keys, n_rows)))"

section \<open>The single-table path\<close>

definition is_passthrough :: "'sel expr \<Rightarrow> bool" where
  "is_passthrough e = (case e of ResolvedColumn _ _ _ \<Rightarrow> True | _ \<Rightarrow> False)"

definition source_column :: "table_set \<Rightarrow> 32 word \<Rightarrow> 32 word \<Rightarrow> cfml_value list outcome" where
  "source_column T ti ci =
     (case get T (unat ti) of
        None \<Rightarrow> Inl Panic
      | Some t \<Rightarrow> (case get (tb_data t) (unat ci) of None \<Rightarrow> Inl Panic | Some col \<Rightarrow> Inr col))"

definition passthrough_col :: "table_set \<Rightarrow> nat list \<Rightarrow> 'sel expr \<Rightarrow> cfml_value list option outcome" where
  "passthrough_col T survivors e =
     (case e of
        ResolvedColumn ti ci _ \<Rightarrow>
          and_then (source_column T ti ci) (\<lambda>src. Inr (Some (map (passthrough_cell src) survivors)))
      | _ \<Rightarrow> Inr None)"

text \<open>The slots left open are filled in order.\<close>

fun fill_slots :: "'a list option list \<Rightarrow> 'a list list \<Rightarrow> 'a list list" where
  "fill_slots [] cols = []"
| "fill_slots (Some c # out) cols = c # fill_slots out cols"
| "fill_slots (None # out) [] = [] # fill_slots out []"
| "fill_slots (None # out) (c # cols) = c # fill_slots out cols"

definition eval_chunk :: "env \<Rightarrow> table_set \<Rightarrow> sub expr list \<Rightarrow> nat list \<Rightarrow> columns outcome" where
  "eval_chunk E T exprs rows =
     and_then (mapM (\<lambda>r. mapM (\<lambda>e. eval E T e (Row [r])) exprs) rows)
       (\<lambda>rows'. Inr (foldl push_cells (replicate (length exprs) []) rows'))"

definition eval_cols :: "env \<Rightarrow> table_set \<Rightarrow> sub expr list \<Rightarrow> nat list \<Rightarrow> columns outcome" where
  "eval_cols E T exprs survivors =
     (if runs_parallel E (length survivors)
      then and_then (mapM (eval_chunk (pure_engine E) T exprs) (chunks (chunk_rows E (length survivors)) survivors))
             (extend_all (replicate (length exprs) []))
      else mapM (\<lambda>e. mapM (\<lambda>r. eval E T e (Row [r])) survivors) exprs)"

definition build_cols_for_exprs :: "env \<Rightarrow> sub expr list \<Rightarrow> nat list \<Rightarrow> table_set \<Rightarrow> columns outcome" where
  "build_cols_for_exprs E exprs survivors T =
     and_then (mapM (passthrough_col T survivors) exprs) (\<lambda>out.
       let needs_eval = filter (\<lambda>e. \<not> is_passthrough e) exprs
       in and_then (if needs_eval = [] then Inr [] else eval_cols E T needs_eval survivors)
            (\<lambda>built. Inr (fill_slots out built)))"

definition survivors_of :: "env \<Rightarrow> table_set \<Rightarrow> sub compiled_expr option \<Rightarrow> nat \<Rightarrow> nat list outcome" where
  "survivors_of E T where_compiled n =
     (case where_compiled of
        None \<Rightarrow> Inr [1..<Suc n]
      | Some w \<Rightarrow>
          if runs_parallel E n
          then and_then (mapM (\<lambda>r. and_then (where_holds (pure_engine E) T w [r])
                                  (\<lambda>b. Inr (if b then Some r else None))) [1..<Suc n])
                 (\<lambda>os. Inr (map the (filter (\<lambda>x. x \<noteq> None) os)))
          else keep_loop (where_holds E T w) [] (map (\<lambda>r. [r]) [1..<Suc n]))"

definition alias_key :: "columns \<Rightarrow> nat \<Rightarrow> nat option \<Rightarrow> cfml_value list option" where
  "alias_key data n = map_option (\<lambda>idx. unwrap_or (get data idx) (replicate n VNull))"

definition exec_no_join_fused ::
  "env \<Rightarrow> sub select_column list \<Rightarrow> sub compiled_expr option \<Rightarrow> table_set \<Rightarrow> sub order_by_expr list
    \<Rightarrow> (columns \<times> columns \<times> nat) outcome" where
  "exec_no_join_fused E cols where_compiled T obs =
     (case T of
        [] \<Rightarrow> Inl Panic
      | t # _ \<Rightarrow>
          and_then (survivors_of E T where_compiled (tb_row_count t)) (\<lambda>survivors.
            let n_surv = length survivors
            in and_then (build_cols_for_exprs E (map sc_expr cols) survivors T) (\<lambda>data.
                 let sort_keys = map (\<lambda>ob. alias_key data n_surv (int_alias (ob_expr ob))) obs;
                     exprs = filter (\<lambda>e. int_alias e = None) (map ob_expr obs)
                 in and_then (if exprs = [] then Inr [] else build_cols_for_exprs E exprs survivors T)
                      (\<lambda>built. Inr (data, fill_slots sort_keys built, n_surv)))))"

section \<open>Sort keys\<close>

definition order_key ::
  "env \<Rightarrow> sub order_by_expr \<Rightarrow> table_set \<Rightarrow> row_ctx \<Rightarrow> cfml_value list \<Rightarrow> cfml_result" where
  "order_key E ob T ctx projected_row =
     (case int_alias (ob_expr ob) of
        Some idx \<Rightarrow> Inr (unwrap_or (get projected_row idx) VNull)
      | None \<Rightarrow> eval E T (ob_expr ob) ctx)"

section \<open>Sort keys of a UNION\<close>

definition col_alias :: "ustr list \<Rightarrow> 'sel expr \<Rightarrow> nat option" where
  "col_alias columns e =
     (case e of
        Literal (VInt n) \<Rightarrow> Some (position_slot n)
      | Column None name \<Rightarrow> position (\<lambda>c. eq_ignore_ascii_case c name) columns
      | ResolvedColumn _ _ name \<Rightarrow> position (\<lambda>c. eq_ignore_ascii_case c name) columns
      | _ \<Rightarrow> None)"

definition synthetic_table :: "ustr list \<Rightarrow> cfml_value list \<Rightarrow> qoq_table" where
  "synthetic_table columns cells =
     \<lparr> tb_name = [], tb_columns = columns, tb_data = map (\<lambda>v. [v]) cells, tb_row_count = 1 \<rparr>"

definition synthetic_keys ::
  "env \<Rightarrow> columns \<Rightarrow> ustr list \<Rightarrow> sub order_by_expr list \<Rightarrow> nat \<Rightarrow> cfml_value list outcome" where
  "synthetic_keys E data columns obs i =
     and_then (mapM (cell_at i) data) (\<lambda>cells.
       mapM (\<lambda>ob. order_key E ob [synthetic_table columns cells] (Row [1]) []) obs)"

definition build_output_sort_keys ::
  "env \<Rightarrow> columns \<Rightarrow> nat \<Rightarrow> ustr list \<Rightarrow> sub order_by_expr list \<Rightarrow> columns outcome" where
  "build_output_sort_keys E data n columns obs =
     (if obs = [] \<or> n < 2 then Inr []
      else let aliased = map (\<lambda>ob. alias_key data n (col_alias columns (ob_expr ob))) obs;
               synth = filter (\<lambda>ob. col_alias columns (ob_expr ob) = None) obs
           in if synth = [] then Inr (fill_slots aliased [])
              else and_then (mapM (synthetic_keys E data columns synth) [0..<n]) (\<lambda>rows.
                     Inr (fill_slots aliased (foldl push_cells (replicate (length synth) []) rows))))"

section \<open>Row by row\<close>

text \<open>Every loop visits the rows in order and stops at the first failure. A visit that yields a
  list per row can be split into chunks.\<close>

definition visit :: "('a \<Rightarrow> 'b list outcome) \<Rightarrow> 'a list \<Rightarrow> 'b list outcome" where
  "visit f rows = and_then (mapM f rows) (\<lambda>xs. Inr (concat xs))"

lemma visit_simps [simp]:
  "visit f [] = Inr []"
  "visit f (r # rows) = and_then (f r) (\<lambda>x. and_then (visit f rows) (\<lambda>xs. Inr (x @ xs)))"
  by (simp_all add: visit_def and_then_assoc)

lemma visit_append:
  "visit f (xs @ ys) = and_then (visit f xs) (\<lambda>a. and_then (visit f ys) (\<lambda>b. Inr (a @ b)))"
  by (induction xs) (auto simp: and_then_assoc and_then_def split: sum.splits)

lemma visit_chunks: "visit (visit f) css = visit f (concat css)"
  by (induction css) (simp_all add: visit_append)

lemma visit_cong: "(\<And>r. r \<in> set rows \<Longrightarrow> f r = g r) \<Longrightarrow> visit f rows = visit g rows"
  by (induction rows) simp_all

lemma visit_total: "(\<And>r. r \<in> set rows \<Longrightarrow> f r = Inr (g r)) \<Longrightarrow> visit f rows = Inr (concat (map g rows))"
  by (induction rows) simp_all

lemma mapM_visit: "mapM f rows = visit (\<lambda>r. and_then (f r) (\<lambda>x. Inr [x])) rows"
  by (induction rows) (simp_all add: and_then_assoc)

lemma visit_mapM: "visit (mapM f) css = mapM f (concat css)"
proof -
  have "mapM f = visit (\<lambda>r. and_then (f r) (\<lambda>x. Inr [x]))"
    by (rule ext) (rule mapM_visit)
  then show ?thesis by (simp only: visit_chunks)
qed

text \<open>The rows that satisfy a condition.\<close>

definition keeps :: "('a \<Rightarrow> bool outcome) \<Rightarrow> 'a \<Rightarrow> 'a list outcome" where
  "keeps p r = and_then (p r) (\<lambda>b. Inr (if b then [r] else []))"

lemma keeps_simps:
  "p r = Inl e \<Longrightarrow> keeps p r = Inl e"
  "p r = Inr b \<Longrightarrow> keeps p r = Inr (if b then [r] else [])"
  by (simp_all add: keeps_def)

lemma keep_loop_visit:
  "keep_loop p keep rows = and_then (visit (keeps p) rows) (\<lambda>ks. Inr (keep @ concat ks))"
proof (induction rows arbitrary: keep)
  case (Cons r rows)
  then show ?case
    by (cases "p r"; cases "visit (keeps p) rows") (auto simp: keeps_simps)
qed simp

lemma filter_loop_visit:
  "filter_loop p (inters_of w acc) rows = and_then (visit (keeps p) rows) (\<lambda>ks. Inr (inters_of w (acc @ ks)))"
proof (induction rows arbitrary: acc)
  case (Cons r rows)
  show ?case
    by (cases "p r"; cases "visit (keeps p) rows") (auto simp: keeps_simps push_row_of Cons.IH)
qed simp

lemma visit_keeps_subset: "visit (keeps p) rows = Inr ks \<Longrightarrow> set ks \<subseteq> set rows"
proof (induction rows arbitrary: ks)
  case (Cons r rows)
  show ?case
  proof (cases "p r")
    case (Inr b)
    with Cons.prems obtain ks' where "visit (keeps p) rows = Inr ks'" "ks = (if b then [r] else []) @ ks'"
      by (auto simp: flow keeps_simps)
    then show ?thesis using Cons.IH [of ks'] by auto
  qed (use Cons.prems in \<open>simp add: keeps_simps\<close>)
qed simp

lemma visit_keeps_width: "visit (keeps p) rows = Inr ks \<Longrightarrow> has_width w rows \<Longrightarrow> has_width w ks"
  using visit_keeps_subset [of p rows ks] unfolding has_width_def by blast

definition fits :: "env \<Rightarrow> nat \<Rightarrow> nat \<Rightarrow> bool" where
  "fits E w n \<longleftrightarrow> (n + 1024) * w \<le> usize_max"

lemma fits_chunk: "fits E w n \<Longrightarrow> max (chunk_rows E n) 1 * w \<le> usize_max"
proof -
  assume "fits E w n"
  moreover have "max (chunk_rows E n) 1 \<le> n + 1024"
    unfolding chunk_rows_def using div_le_dividend [of n "max (en_workers E) 1 * 4"] by linarith
  ultimately show ?thesis
    unfolding fits_def by (meson mult_le_mono1 order_trans)
qed

lemma chunk_rows_pos: "0 < chunk_rows E n"
  by (simp add: chunk_rows_def)

lemma par_chunks_iter:
  assumes "has_width w rows" "fits E w (length rows)"
  shows "map inters_iter (par_chunks_rows (chunk_rows E (length rows)) (inters_of w rows)) =
    chunks (chunk_rows E (length rows)) rows"
proof -
  let ?n = "chunk_rows E (length rows)"
  have n: "max ?n 1 = ?n" using chunk_rows_pos [of E "length rows"] by simp
  have "has_width w c" if "c \<in> set (chunks ?n rows)" for c
  proof -
    have "set c \<subseteq> set rows"
      using that concat_chunks [OF chunk_rows_pos, of E "length rows" rows] by (metis UN_upper set_concat)
    then show ?thesis using assms(1) by (auto simp: has_width_def)
  qed
  then show ?thesis
    unfolding par_chunks_rows_of [OF assms(1) fits_chunk [OF assms(2)]] n by (simp add: map_idI)
qed

lemma mapM_map: "mapM f (map g xs) = mapM (\<lambda>x. f (g x)) xs"
  by (induction xs) simp_all

lemma visit_map: "visit f (map g xs) = visit (\<lambda>x. f (g x)) xs"
  by (simp add: visit_def mapM_map)

text \<open>A computation on the chunks of the store, put together in order, is one over all rows.\<close>

lemma visit_par_chunks:
  assumes "has_width w rows" "fits E w (length rows)"
  shows "visit (\<lambda>chunk. visit f (inters_iter chunk)) (par_chunks_rows (chunk_rows E (length rows)) (inters_of w rows)) =
    visit f rows"
proof -
  have "visit (\<lambda>chunk. visit f (inters_iter chunk)) cs = visit (visit f) (map inters_iter cs)" for cs
    by (simp add: visit_def mapM_map)
  then show ?thesis
    by (simp only: par_chunks_iter [OF assms] visit_chunks concat_chunks [OF chunk_rows_pos])
qed

section \<open>The WHERE filter\<close>

definition holds_row :: "env \<Rightarrow> table_set \<Rightarrow> sub expr \<Rightarrow> nat list \<Rightarrow> bool outcome" where
  "holds_row E T e isec = and_then (eval E T e (Row isec)) (\<lambda>v. Inr (is_truthy (en_rt E) v))"

text \<open>An expression as the engine may meet it in a statement that it evaluates in parallel.\<close>

definition parallel_ok :: "env \<Rightarrow> sub expr \<Rightarrow> bool" where
  "parallel_ok E e \<longleftrightarrow> (en_parallel E \<longrightarrow> unicode_laws (en_rt E) \<and> expr_is_pure (en_rt E) (en_registry E) e)"

lemma eval_worker: "parallel_ok E e \<Longrightarrow> en_parallel E \<Longrightarrow> eval (pure_engine E) T e = eval E T e"
  by (simp add: parallel_ok_def eval_pure)

lemma where_holds_row:
  assumes "scalar_literals e"
  shows "where_holds E T (compile e) = holds_row E T e"
    and "parallel_ok E e \<Longrightarrow> en_parallel E \<Longrightarrow> where_holds (pure_engine E) T (compile e) = holds_row E T e"
  using compile_correct_parts [OF assms] eval_worker [of E e T]
  by (auto simp: where_holds_def holds_row_def intro!: ext)

lemma filter_where_visit:
  assumes "has_width w rows" "fits E w (length rows)" "scalar_literals e" "parallel_ok E e"
  shows "filter_where E (inters_of w rows) (Some (compile e)) T =
    and_then (visit (keeps (holds_row E T e)) rows) (\<lambda>ks. Inr (inters_of w ks))"
proof (cases "runs_parallel E (length rows)")
  case True
  let ?p = "where_holds (pure_engine E) T (compile e)"
  have "mapM (\<lambda>chunk. keep_loop ?p [] (inters_iter chunk)) cs =
      and_then (mapM (\<lambda>chunk. visit (keeps ?p) (inters_iter chunk)) cs) (\<lambda>parts. Inr (map concat parts))" for cs
    by (induction cs) (auto simp: keep_loop_visit and_then_def split: sum.splits)
  moreover have "concat (map concat xss) = concat (concat xss)" for xss :: "nat list list list"
    by (induction xss) simp_all
  ultimately have "and_then (mapM (\<lambda>chunk. keep_loop ?p [] (inters_iter chunk)) cs)
        (\<lambda>parts. Inr \<lparr> in_width = w, in_flat = concat parts \<rparr>) =
      and_then (visit (\<lambda>chunk. visit (keeps ?p) (inters_iter chunk)) cs) (\<lambda>ks. Inr (inters_of w ks))" for cs
    by (simp add: visit_def and_then_assoc inters_of_def)
  then show ?thesis
    using True assms where_holds_row(2) [OF assms(3,4)]
    by (simp add: filter_where_def visit_par_chunks runs_parallel_def)
next
  case False
  then show ?thesis
    using assms by (simp add: filter_where_def where_holds_row(1) inters_new_of filter_loop_visit)
qed

section \<open>The projection\<close>

definition project_row ::
  "env \<Rightarrow> table_set \<Rightarrow> sub select_column list \<Rightarrow> sub order_by_expr list \<Rightarrow> nat list
    \<Rightarrow> (cfml_value list \<times> cfml_value list) outcome" where
  "project_row E T cols obs isec =
     and_then (mapM (\<lambda>sc. eval E T (sc_expr sc) (Row isec)) cols) (\<lambda>row.
       and_then (mapM (\<lambda>ob. order_key E ob T (Row isec) row) obs) (\<lambda>key. Inr (row, key)))"

lemma push_all_eq: "foldl push_cells (replicate w []) rows = rows_to_cols rows w"
  by (simp add: rows_to_cols_loop rows_to_cols_eq)

lemma length_push_cells [simp]: "length (push_cells data row) = length data"
  by (simp add: push_cells_nth)

lemma last_cell_push:
  assumes "length row = length data"
  shows "last_cell (push_cells data row) idx = unwrap_or (get row idx) VNull"
  using assms push_cells_nth [of data row] by (auto simp: last_cell_def get_def unwrap_or_def)

lemma simple_loop_rows:
  "length data = length cols \<Longrightarrow>
   simple_loop E T cols obs data keys rows =
     and_then (mapM (project_row E T cols obs) rows) (\<lambda>rks.
       Inr (foldl push_cells data (map fst rks), foldl push_cells keys (map snd rks)))"
proof (induction rows arbitrary: data keys)
  case (Cons isec rows)
  show ?case
  proof (cases "mapM (\<lambda>sc. eval E T (sc_expr sc) (Row isec)) cols")
    case (Inr row)
    let ?data = "push_cells data row"
    have "length row = length data"
      using mapM_length [OF Inr] Cons.prems by simp
    then have keys: "(\<lambda>ob. case int_alias (ob_expr ob) of Some idx \<Rightarrow> Inr (last_cell ?data idx)
        | None \<Rightarrow> eval E T (ob_expr ob) (Row isec)) = (\<lambda>ob. order_key E ob T (Row isec) row)"
      by (intro ext) (simp add: order_key_def last_cell_push split: option.split)
    show ?thesis
      using Cons.prems Cons.IH [of ?data]
      by (cases "mapM (\<lambda>ob. order_key E ob T (Row isec) row) obs")
         (simp_all add: Inr keys project_row_def Let_def and_then_assoc)
  qed (simp add: project_row_def)
qed simp

lemma extend_cols_zip: "length data = length cols \<Longrightarrow> extend_cols data cols = Inr (map2 (@) data cols)"
  by (induction data cols rule: extend_cols.induct) simp_all

lemma extend_cols_push:
  "length data = w \<Longrightarrow> extend_cols data (rows_to_cols rows w) = Inr (foldl push_cells data rows)"
  by (auto simp: extend_cols_zip rows_to_cols_eq rows_to_cols_loop intro!: nth_equalityI)

lemma length_push_all [simp]: "length (foldl push_cells data rows) = length data"
  by (induction rows arbitrary: data) simp_all

lemma extend_all_push:
  "length data = w \<Longrightarrow>
   extend_all data (map (\<lambda>rows. rows_to_cols rows w) rss) = Inr (foldl push_cells data (concat rss))"
  by (induction rss arbitrary: data) (simp_all add: extend_cols_push)

lemma extend_all_rows:
  "extend_all (replicate w []) (map (\<lambda>rows. rows_to_cols rows w) rss) = Inr (rows_to_cols (concat rss) w)"
  by (simp add: extend_all_push push_all_eq)

lemma project_row_worker:
  assumes "en_parallel E" "\<forall>e \<in> sc_expr ` set cols \<union> ob_expr ` set obs. parallel_ok E e"
  shows "project_row (pure_engine E) T cols obs = project_row E T cols obs"
proof (rule ext)
  fix isec
  have "mapM (\<lambda>sc. eval (pure_engine E) T (sc_expr sc) (Row isec)) cols = mapM (\<lambda>sc. eval E T (sc_expr sc) (Row isec)) cols"
    "mapM (\<lambda>ob. order_key (pure_engine E) ob T (Row isec) row) obs = mapM (\<lambda>ob. order_key E ob T (Row isec) row) obs" for row
    using assms eval_worker by (auto intro!: mapM_cong simp: order_key_def split: option.split)
  then show "project_row (pure_engine E) T cols obs isec = project_row E T cols obs isec"
    by (simp add: project_row_def)
qed

lemma exec_simple_rows:
  assumes "has_width w rows" "fits E w (length rows)"
    and "\<forall>e \<in> sc_expr ` set cols \<union> ob_expr ` set obs. parallel_ok E e"
  shows "exec_simple E cols (inters_of w rows) T obs =
    and_then (mapM (project_row E T cols obs) rows) (\<lambda>rks.
      Inr (rows_to_cols (map fst rks) (length cols), rows_to_cols (map snd rks) (length obs), length rows))"
proof (cases "runs_parallel E (length rows)")
  case True
  let ?f = "project_row E T cols obs" and ?cs = "par_chunks_rows (chunk_rows E (length rows)) (inters_of w rows)"
  let ?loop = "\<lambda>chunk. simple_loop (pure_engine E) T cols obs (replicate (length cols) []) (replicate (length obs) [])
      (inters_iter chunk)"
  let ?cols = "\<lambda>rks. (rows_to_cols (map fst rks) (length cols), rows_to_cols (map snd rks) (length obs))"
  have loop: "?loop chunk = and_then (mapM ?f (inters_iter chunk)) (\<lambda>rks. Inr (?cols rks))" for chunk
    using True project_row_worker [OF _ assms(3)]
    by (simp add: simple_loop_rows push_all_eq runs_parallel_def)
  have "mapM ?loop cs = and_then (mapM (\<lambda>chunk. mapM ?f (inters_iter chunk)) cs) (\<lambda>rkss. Inr (map ?cols rkss))" for cs
    by (induction cs) (auto simp: loop and_then_def split: sum.splits)
  moreover have "extend_all (replicate (length cols) []) (map (\<lambda>rks. rows_to_cols (map fst rks) (length cols)) rkss) =
      Inr (rows_to_cols (map fst (concat rkss)) (length cols))"
    "extend_all (replicate (length obs) []) (map (\<lambda>rks. rows_to_cols (map snd rks) (length obs)) rkss) =
      Inr (rows_to_cols (map snd (concat rkss)) (length obs))" for rkss
    using extend_all_rows [of "length cols" "map (map fst) rkss"] extend_all_rows [of "length obs" "map (map snd) rkss"]
    by (simp_all add: comp_def map_concat)
  ultimately have "exec_simple E cols (inters_of w rows) T obs =
      and_then (visit (\<lambda>chunk. mapM ?f (inters_iter chunk)) ?cs) (\<lambda>rks. Inr (fst (?cols rks), snd (?cols rks), length rows))"
    using True assms(1) by (simp add: exec_simple_def Let_def visit_def and_then_assoc comp_def)
  also have "visit (\<lambda>chunk. mapM ?f (inters_iter chunk)) ?cs = mapM ?f rows"
    by (simp only: mapM_visit visit_par_chunks [OF assms(1,2)])
  finally show ?thesis by simp
next
  case False
  then show ?thesis
    using assms(1) by (simp add: exec_simple_def Let_def simple_loop_rows push_all_eq and_then_assoc)
qed

section \<open>The single-table path\<close>

text \<open>Evaluating column by column succeeds exactly when evaluating row by row does, and the
  columns are then those of the rows.\<close>

lemma mapM_transpose:
  "mapM (\<lambda>e. mapM (\<lambda>r. f r e) rs) es = Inr data \<longleftrightarrow>
   (\<exists>rows. mapM (\<lambda>r. mapM (f r) es) rs = Inr rows \<and> data = rows_to_cols rows (length es))"
proof
  assume l: "mapM (\<lambda>e. mapM (\<lambda>r. f r e) rs) es = Inr data"
  then have len: "length data = length es" "\<And>j. j < length es \<Longrightarrow> length (data ! j) = length rs"
    and cell: "\<And>i j. i < length rs \<Longrightarrow> j < length es \<Longrightarrow> f (rs ! i) (es ! j) = Inr (data ! j ! i)"
    by (auto simp: mapM_Inr_iff)
  let ?rows = "map (\<lambda>i. map (\<lambda>j. data ! j ! i) [0..<length es]) [0..<length rs]"
  have "mapM (\<lambda>r. mapM (f r) es) rs = Inr ?rows"
    by (simp add: mapM_Inr_iff cell del: upt_Suc)
  moreover have "data = rows_to_cols ?rows (length es)"
    by (rule nth_equalityI)
       (auto simp: rows_to_cols_eq len unwrap_or_def simp del: upt_Suc intro!: nth_equalityI)
  ultimately show "\<exists>rows. mapM (\<lambda>r. mapM (f r) es) rs = Inr rows \<and> data = rows_to_cols rows (length es)"
    by blast
next
  assume "\<exists>rows. mapM (\<lambda>r. mapM (f r) es) rs = Inr rows \<and> data = rows_to_cols rows (length es)"
  then show "mapM (\<lambda>e. mapM (\<lambda>r. f r e) rs) es = Inr data"
    by (auto simp: mapM_Inr_iff rows_to_cols_eq unwrap_or_def simp del: upt_Suc)
qed

lemma fill_slots_mapM:
  assumes "\<And>x c. x \<in> set xs \<Longrightarrow> pc x = Some c \<Longrightarrow> colf x = Inr c"
  shows "(\<exists>built. mapM colf (filter (\<lambda>x. pc x = None) xs) = Inr built \<and> data = fill_slots (map pc xs) built) \<longleftrightarrow>
    mapM colf xs = Inr data"
  using assms
proof (induction xs arbitrary: data)
  case (Cons x xs)
  have IH: "(\<exists>built. mapM colf (filter (\<lambda>x. pc x = None) xs) = Inr built \<and> d = fill_slots (map pc xs) built) \<longleftrightarrow>
      mapM colf xs = Inr d" for d
    by (rule Cons.IH) (use Cons.prems in auto)
  show ?case
  proof (cases "pc x")
    case None
    have "(\<exists>built. and_then (colf x) (\<lambda>y. and_then (mapM colf (filter (\<lambda>x. pc x = None) xs)) (\<lambda>ys. Inr (y # ys))) = Inr built \<and>
          data = fill_slots (None # map pc xs) built) \<longleftrightarrow>
        (\<exists>y built. colf x = Inr y \<and> mapM colf (filter (\<lambda>x. pc x = None) xs) = Inr built \<and>
          data = y # fill_slots (map pc xs) built)"
      by (auto simp: flow)
    also have "\<dots> \<longleftrightarrow> (\<exists>y d. colf x = Inr y \<and> mapM colf xs = Inr d \<and> data = y # d)"
      using IH by blast
    finally show ?thesis
      by (auto simp: None flow)
  next
    case (Some c)
    then have "colf x = Inr c" using Cons.prems by simp
    then show ?thesis
      using IH by (auto simp: Some flow)
  qed
qed auto

definition slot_ok :: "table_set \<Rightarrow> 'sel expr \<Rightarrow> bool" where
  "slot_ok T e \<longleftrightarrow>
     (case e of
        ResolvedColumn ti ci _ \<Rightarrow> unat ti < length T \<and> unat ci < length (tb_data (T ! unat ti))
      | _ \<Rightarrow> True)"

definition eval_col :: "env \<Rightarrow> table_set \<Rightarrow> nat list \<Rightarrow> sub expr \<Rightarrow> cfml_value list outcome" where
  "eval_col E T survivors e = mapM (\<lambda>r. eval E T e (Row [r])) survivors"

lemma eval_col_fun: "eval_col E T survivors = (\<lambda>e. mapM (\<lambda>r. eval E T e (Row [r])) survivors)"
  by (rule ext) (simp add: eval_col_def)

lemma passthrough_cell_get: "ci < length (tb_data t) \<Longrightarrow> passthrough_cell (tb_data t ! ci) r = table_get t r ci"
  by (simp add: passthrough_cell_def table_get_def unwrap_or_def split: option.split)

lemma passthrough_is_eval:
  assumes "slot_ok [t] e"
  shows "\<exists>pc. passthrough_col [t] survivors e = Inr pc \<and> (pc = None \<longleftrightarrow> \<not> is_passthrough e) \<and>
    (\<forall>c. pc = Some c \<longrightarrow> eval_col E [t] survivors e = Inr c)"
proof (cases "is_passthrough e")
  case True
  then obtain ti ci n where e: "e = ResolvedColumn ti ci n"
    by (auto simp: is_passthrough_def split: expr.splits)
  have ti: "unat ti = 0" "unat ci < length (tb_data t)"
    using assms by (auto simp: slot_ok_def e)
  have "eval E [t] e (Row [r]) = Inr (table_get t r (unat ci))" for r
    using ti by (simp add: e eval_resolved_column_def table_value_def unwrap_or_def)
  then have "eval_col E [t] survivors e = Inr (map (\<lambda>r. table_get t r (unat ci)) survivors)"
    by (simp add: eval_col_def mapM_total)
  then show ?thesis
    using ti by (simp add: e passthrough_col_def source_column_def passthrough_cell_get is_passthrough_def)
next
  case False
  then have "passthrough_col [t] survivors e = Inr None"
    by (auto simp: is_passthrough_def passthrough_col_def split: expr.splits)
  then show ?thesis using False by simp
qed

lemma eval_chunk_rows:
  "eval_chunk E T es rows =
   and_then (mapM (\<lambda>r. mapM (\<lambda>e. eval E T e (Row [r])) es) rows) (\<lambda>rs. Inr (rows_to_cols rs (length es)))"
  by (simp add: eval_chunk_def push_all_eq)

lemma eval_cols_iff:
  assumes "\<forall>e \<in> set es. parallel_ok E e"
  shows "eval_cols E T es survivors = Inr data \<longleftrightarrow> mapM (eval_col E T survivors) es = Inr data"
proof (cases "runs_parallel E (length survivors)")
  case True
  let ?f = "\<lambda>r. mapM (\<lambda>e. eval E T e (Row [r])) es" and ?css = "chunks (chunk_rows E (length survivors)) survivors"
  have f: "mapM (\<lambda>e. eval (pure_engine E) T e (Row [r])) es = ?f r" for r
    using True assms eval_worker by (auto intro!: mapM_cong simp: runs_parallel_def)
  have "mapM (eval_chunk (pure_engine E) T es) cs =
      and_then (mapM (mapM ?f) cs) (\<lambda>rss. Inr (map (\<lambda>rs. rows_to_cols rs (length es)) rss))" for cs
    by (induction cs) (auto simp: eval_chunk_rows f and_then_def split: sum.splits)
  then have "eval_cols E T es survivors =
      and_then (visit (mapM ?f) ?css) (\<lambda>rs. Inr (rows_to_cols rs (length es)))"
    using True by (simp add: eval_cols_def visit_def and_then_assoc extend_all_rows)
  also have "visit (mapM ?f) ?css = mapM ?f survivors"
    by (simp only: visit_mapM concat_chunks [OF chunk_rows_pos])
  finally show ?thesis
    using mapM_transpose [of "\<lambda>r e. eval E T e (Row [r])" survivors es data] by (auto simp: flow eval_col_fun)
qed (simp add: eval_cols_def eval_col_fun)

lemma build_cols_iff:
  assumes "\<forall>e \<in> set es. parallel_ok E e \<and> slot_ok [t] e"
  shows "build_cols_for_exprs E es survivors [t] = Inr data \<longleftrightarrow> mapM (eval_col E [t] survivors) es = Inr data"
proof -
  define pc where "pc e = (case passthrough_col [t] survivors e of Inr p \<Rightarrow> p | Inl _ \<Rightarrow> None)" for e :: "sub expr"
  have p: "passthrough_col [t] survivors e = Inr (pc e)" "pc e = None \<longleftrightarrow> \<not> is_passthrough e"
      "pc e = Some c \<Longrightarrow> eval_col E [t] survivors e = Inr c" if "e \<in> set es" for e c
    using passthrough_is_eval [of t e survivors E] that assms by (auto simp: pc_def)
  have out: "mapM (passthrough_col [t] survivors) es = Inr (map pc es)"
    by (rule mapM_total) (rule p(1))
  have needs: "filter (\<lambda>e. \<not> is_passthrough e) es = filter (\<lambda>e. pc e = None) es"
    by (rule filter_cong) (simp_all add: p(2))
  let ?needs = "filter (\<lambda>e. pc e = None) es"
  have "(if ?needs = [] then Inr [] else eval_cols E [t] ?needs survivors) = Inr built \<longleftrightarrow>
      mapM (eval_col E [t] survivors) ?needs = Inr built" for built
    using eval_cols_iff [of ?needs E "[t]" survivors built] assms by auto
  then have "build_cols_for_exprs E es survivors [t] = Inr data \<longleftrightarrow>
      (\<exists>built. mapM (eval_col E [t] survivors) ?needs = Inr built \<and> data = fill_slots (map pc es) built)"
    by (auto simp: build_cols_for_exprs_def out needs Let_def flow simp del: if_splits)
  then show ?thesis
    using fill_slots_mapM [of es pc "eval_col E [t] survivors" data] p(3) by simp
qed

definition where_row :: "env \<Rightarrow> table_set \<Rightarrow> sub expr option \<Rightarrow> nat list \<Rightarrow> bool outcome" where
  "where_row E T w isec = (case w of None \<Rightarrow> Inr True | Some e \<Rightarrow> holds_row E T e isec)"

definition where_ok :: "env \<Rightarrow> sub expr option \<Rightarrow> bool" where
  "where_ok E w \<longleftrightarrow> pred_option (\<lambda>e. scalar_literals e \<and> parallel_ok E e) w"

lemma visit_all: "visit (keeps (\<lambda>r. Inr True)) rows = Inr rows"
  by (induction rows) (simp_all add: keeps_def)

lemma filter_rows:
  assumes "has_width w rows" "fits E w (length rows)" "where_ok E wh"
  shows "filter_where E (inters_of w rows) (map_option compile wh) T =
    and_then (visit (keeps (where_row E T wh)) rows) (\<lambda>ks. Inr (inters_of w ks))"
proof (cases wh)
  case None
  then have "where_row E T wh = (\<lambda>r. Inr True)" by (intro ext) (simp add: where_row_def)
  then show ?thesis by (simp add: None filter_where_def visit_all)
next
  case (Some e)
  then have "where_row E T wh = holds_row E T e" by (intro ext) (simp add: where_row_def)
  then show ?thesis
    using filter_where_visit [OF assms(1,2), of e T] assms(3) by (simp add: Some where_ok_def)
qed

lemma visit_single: "visit (keeps p) (map (\<lambda>r. [r]) rs) = and_then (visit (keeps (\<lambda>r. p [r])) rs) (\<lambda>ks. Inr (map (\<lambda>r. [r]) ks))"
proof (induction rs)
  case (Cons r rs)
  then show ?case
    by (cases "p [r]"; cases "visit (keeps (\<lambda>r. p [r])) rs") (auto simp: keeps_simps)
qed simp

lemma flatten_visit:
  "and_then (mapM (\<lambda>r. and_then (p r) (\<lambda>b. Inr (if b then Some r else None))) rs)
     (\<lambda>os. Inr (map the (filter (\<lambda>x. x \<noteq> None) os))) = visit (keeps p) rs"
proof (induction rs)
  case (Cons r rs)
  note IH = Cons.IH [symmetric]
  show ?case
    by (cases "p r"; cases "mapM (\<lambda>r. and_then (p r) (\<lambda>b. Inr (if b then Some r else None))) rs")
       (simp_all add: keeps_simps IH)
qed simp

lemma survivors_rows:
  assumes "where_ok E wh"
  shows "survivors_of E T (map_option compile wh) n = visit (keeps (\<lambda>r. where_row E T wh [r])) [1..<Suc n]"
proof (cases wh)
  case None
  then show ?thesis by (simp add: survivors_of_def where_row_def visit_all del: upt_Suc)
next
  case (Some e)
  let ?p = "\<lambda>r. holds_row E T e [r]"
  have ok: "scalar_literals e" "parallel_ok E e"
    using assms by (simp_all add: Some where_ok_def)
  show ?thesis
  proof (cases "runs_parallel E n")
    case True
    note flatten_visit [of ?p "[1..<Suc n]"]
    then show ?thesis
      using True where_holds_row(2) [OF ok, of T]
      by (simp add: Some survivors_of_def where_row_def runs_parallel_def del: upt_Suc)
  next
    case False
    have "keep_loop (holds_row E T e) [] (map (\<lambda>r. [r]) rs) = visit (keeps ?p) rs" for rs
      by (cases "visit (keeps ?p) rs") (simp_all add: keep_loop_visit visit_single concat_map_singleton [where f = id, simplified])
    then show ?thesis
      using False by (simp add: Some survivors_of_def where_row_def where_holds_row(1) [OF ok(1)] del: upt_Suc)
  qed
qed

text \<open>Sort keys: a position reads the projected row, anything else is evaluated.\<close>

lemma alias_key_col:
  assumes "wf_cols (length rows) data" "data = rows_to_cols rows w" "\<forall>row \<in> set rows. length row = w"
  shows "alias_key data (length rows) (Some idx) = Some (map (\<lambda>row. unwrap_or (get row idx) VNull) rows)"
proof -
  have "map (\<lambda>row. unwrap_or (get row idx) VNull) rows = replicate (length rows) VNull" if "w \<le> idx"
    using that assms(3) by (simp add: unwrap_or_def map_replicate_const cong: map_cong)
  then show ?thesis
    by (auto simp: alias_key_def assms(2) rows_to_cols_eq get_def unwrap_or_def not_less)
qed

lemma fused_keys:
  assumes "data = rows_to_cols rows (length cols)" "\<forall>row \<in> set rows. length row = length cols"
    and "length rs = length rows" "\<forall>ob \<in> set obs. parallel_ok E (ob_expr ob) \<and> slot_ok [t] (ob_expr ob)"
  shows "(\<exists>built. (if filter (\<lambda>e. int_alias e = None) (map ob_expr obs) = [] then Inr []
          else build_cols_for_exprs E (filter (\<lambda>e. int_alias e = None) (map ob_expr obs)) rs [t]) = Inr built \<and>
        keys = fill_slots (map (\<lambda>ob. alias_key data (length rows) (int_alias (ob_expr ob))) obs) built) \<longleftrightarrow>
    (\<exists>krows. mapM (\<lambda>p. mapM (\<lambda>ob. order_key E ob [t] (Row [fst p]) (snd p)) obs) (zip rs rows) = Inr krows \<and>
       keys = rows_to_cols krows (length obs))"
proof -
  let ?pc = "\<lambda>ob. alias_key data (length rows) (int_alias (ob_expr ob))"
  let ?colf = "\<lambda>ob. mapM (\<lambda>p. order_key E ob [t] (Row [fst p]) (snd p)) (zip rs rows)"
  have none: "?pc ob = None \<longleftrightarrow> int_alias (ob_expr ob) = None" for ob
    by (simp add: alias_key_def)
  have plain: "?colf ob = eval_col E [t] rs (ob_expr ob)" if "int_alias (ob_expr ob) = None" for ob
  proof -
    have "?colf ob = mapM (\<lambda>p. eval E [t] (ob_expr ob) (Row [fst p])) (zip rs rows)"
      by (rule mapM_cong) (auto simp: order_key_def that)
    also have "\<dots> = mapM (\<lambda>r. eval E [t] (ob_expr ob) (Row [r])) (map fst (zip rs rows))"
      by (simp add: mapM_map)
    finally show ?thesis using assms(3) by (simp add: eval_col_def)
  qed
  have aliased: "?colf ob = Inr c" if pc: "?pc ob = Some c" for ob c
  proof -
    obtain idx where i: "int_alias (ob_expr ob) = Some idx" using pc by (cases "int_alias (ob_expr ob)") (auto simp: alias_key_def)
    have wf: "wf_cols (length rows) data"
      by (auto simp: assms(1) wf_cols_def list_all_iff rows_to_cols_eq)
    have "c = map (\<lambda>row. unwrap_or (get row idx) VNull) rows"
      using pc alias_key_col [OF wf assms(1,2), of idx] i by simp
    also have "\<dots> = map (\<lambda>row. unwrap_or (get row idx) VNull) (map snd (zip rs rows))"
      using assms(3) by simp
    also have "\<dots> = map (\<lambda>p. unwrap_or (get (snd p) idx) VNull) (zip rs rows)"
      by (simp only: map_map comp_def)
    finally show ?thesis
      by (simp add: i order_key_def mapM_total)
  qed
  let ?es = "filter (\<lambda>ob. ?pc ob = None) obs"
  have es: "filter (\<lambda>e. int_alias e = None) (map ob_expr obs) = map ob_expr ?es"
    by (simp add: filter_map comp_def none)
  have "(if map ob_expr ?es = [] then Inr [] else build_cols_for_exprs E (map ob_expr ?es) rs [t]) = Inr built \<longleftrightarrow>
      mapM ?colf ?es = Inr built" for built
  proof -
    have "mapM ?colf ?es = mapM (\<lambda>ob. eval_col E [t] rs (ob_expr ob)) ?es"
      by (rule mapM_cong) (auto simp: plain none)
    then show ?thesis
      using build_cols_iff [of "map ob_expr ?es" E t rs built] assms(4) by (auto simp: mapM_map)
  qed
  then have "(\<exists>built. (if map ob_expr ?es = [] then Inr [] else build_cols_for_exprs E (map ob_expr ?es) rs [t]) = Inr built \<and>
      keys = fill_slots (map ?pc obs) built) \<longleftrightarrow> mapM ?colf obs = Inr keys"
    using fill_slots_mapM [of obs ?pc ?colf keys, OF aliased] by blast
  then show ?thesis
    unfolding es mapM_transpose [of "\<lambda>p ob. order_key E ob [t] (Row [fst p]) (snd p)" "zip rs rows" obs keys] .
qed

lemma project_row_Inr:
  "project_row E T cols obs isec = Inr p \<longleftrightarrow>
   mapM (\<lambda>sc. eval E T (sc_expr sc) (Row isec)) cols = Inr (fst p) \<and>
   mapM (\<lambda>ob. order_key E ob T (Row isec) (fst p)) obs = Inr (snd p)"
  by (cases p) (auto simp: project_row_def flow)

lemma project_split:
  "mapM (project_row E T cols obs) isecs = Inr rks \<longleftrightarrow>
   (\<exists>rows krows. mapM (\<lambda>isec. mapM (\<lambda>sc. eval E T (sc_expr sc) (Row isec)) cols) isecs = Inr rows \<and>
      mapM (\<lambda>p. mapM (\<lambda>ob. order_key E ob T (Row (fst p)) (snd p)) obs) (zip isecs rows) = Inr krows \<and>
      rks = zip rows krows)" (is "?l \<longleftrightarrow> ?r")
proof
  assume ?l
  then have "length rks = length isecs"
    "\<And>i. i < length isecs \<Longrightarrow> project_row E T cols obs (isecs ! i) = Inr (rks ! i)"
    by (simp_all only: mapM_Inr_iff)
  then show ?r
    by (intro exI [of _ "map fst rks"] exI [of _ "map snd rks"]) (simp add: mapM_Inr_iff [of _ isecs]
        mapM_Inr_iff [of _ "zip isecs (map fst rks)"] project_row_Inr zip_map_fst_snd)
next
  assume ?r
  then obtain rows krows where *:
    "mapM (\<lambda>isec. mapM (\<lambda>sc. eval E T (sc_expr sc) (Row isec)) cols) isecs = Inr rows"
    "mapM (\<lambda>p. mapM (\<lambda>ob. order_key E ob T (Row (fst p)) (snd p)) obs) (zip isecs rows) = Inr krows"
    "rks = zip rows krows"
    by blast
  have len: "length rows = length isecs" "length krows = length isecs"
    using mapM_length [OF *(1)] mapM_length [OF *(2)] by simp_all
  have "project_row E T cols obs (isecs ! i) = Inr (rks ! i)" if "i < length isecs" for i
    using *(1,2) that len unfolding mapM_Inr_iff [of _ isecs] mapM_Inr_iff [of _ "zip isecs rows"]
    by (simp add: *(3) project_row_Inr)
  then show ?l
    using len by (simp add: mapM_Inr_iff [of _ isecs] *(3))
qed

lemma fused_data:
  assumes "\<forall>e \<in> sc_expr ` set cols. parallel_ok E e \<and> slot_ok [t] e"
  shows "build_cols_for_exprs E (map sc_expr cols) rs [t] = Inr d \<longleftrightarrow>
    (\<exists>rows. mapM (\<lambda>r. mapM (\<lambda>e. eval E [t] e (Row [r])) (map sc_expr cols)) rs = Inr rows \<and>
       d = rows_to_cols rows (length cols))"
  using build_cols_iff [of "map sc_expr cols" E t rs d] assms
    mapM_transpose [of "\<lambda>r e. eval E [t] e (Row [r])" rs "map sc_expr cols" d]
  by (simp add: eval_col_fun del: mapM.simps)

lemma fused_row_keys:
  assumes "\<forall>e \<in> ob_expr ` set obs. parallel_ok E e \<and> slot_ok [t] e"
    and rows: "mapM (\<lambda>r. mapM (\<lambda>e. eval E [t] e (Row [r])) (map sc_expr cols)) rs = Inr rows"
  shows "(\<exists>built. (if filter (\<lambda>e. int_alias e = None) (map ob_expr obs) = [] then Inr []
          else build_cols_for_exprs E (filter (\<lambda>e. int_alias e = None) (map ob_expr obs)) rs [t]) = Inr built \<and>
        keys = fill_slots (map (\<lambda>ob. alias_key (rows_to_cols rows (length cols)) (length rs) (int_alias (ob_expr ob))) obs) built) \<longleftrightarrow>
      (\<exists>krows. mapM (\<lambda>p. mapM (\<lambda>ob. order_key E ob [t] (Row [fst p]) (snd p)) obs) (zip rs rows) = Inr krows \<and>
        keys = rows_to_cols krows (length obs))"
proof -
  have len: "length rows = length rs" using mapM_length [OF rows] .
  have "\<forall>row \<in> set rows. length row = length cols"
    using mapM_Inr_iff [THEN iffD1, OF rows] mapM_length by (fastforce simp: in_set_conv_nth)
  then show ?thesis
    using fused_keys [of "rows_to_cols rows (length cols)" rows cols rs obs E t keys] len assms(1) by simp
qed

lemma fused_split:
  assumes ok: "where_ok E wh" "\<forall>e \<in> sc_expr ` set cols \<union> ob_expr ` set obs. parallel_ok E e \<and> slot_ok [t] e"
    and Inr: "visit (keeps (\<lambda>r. where_row E [t] wh [r])) [1..<Suc (tb_row_count t)] = Inr rs"
  shows "exec_no_join_fused E cols (map_option compile wh) [t] obs = Inr (data, keys, n) \<longleftrightarrow>
    (\<exists>rows krows. mapM (\<lambda>r. mapM (\<lambda>e. eval E [t] e (Row [r])) (map sc_expr cols)) rs = Inr rows \<and>
       mapM (\<lambda>p. mapM (\<lambda>ob. order_key E ob [t] (Row [fst p]) (snd p)) obs) (zip rs rows) = Inr krows \<and>
       data = rows_to_cols rows (length cols) \<and> keys = rows_to_cols krows (length obs) \<and> n = length rs)" (is "?fused \<longleftrightarrow> ?split")
proof -
  let ?row = "\<lambda>r. mapM (\<lambda>e. eval E [t] e (Row [r])) (map sc_expr cols)"
  let ?krow = "\<lambda>p. mapM (\<lambda>ob. order_key E ob [t] (Row [fst p]) (snd p)) obs"
  let ?es = "filter (\<lambda>e. int_alias e = None) (map ob_expr obs)"
  have obs: "\<forall>e \<in> ob_expr ` set obs. parallel_ok E e \<and> slot_ok [t] e" using ok(2) by simp
  have data: "build_cols_for_exprs E (map sc_expr cols) rs [t] = Inr d \<longleftrightarrow>
      (\<exists>rows. mapM ?row rs = Inr rows \<and> d = rows_to_cols rows (length cols))" for d
    using ok(2) by (intro fused_data) simp
  have "?fused \<longleftrightarrow> (\<exists>d built. build_cols_for_exprs E (map sc_expr cols) rs [t] = Inr d \<and>
      (if ?es = [] then Inr [] else build_cols_for_exprs E ?es rs [t]) = Inr built \<and> data = d \<and>
      keys = fill_slots (map (\<lambda>ob. alias_key d (length rs) (int_alias (ob_expr ob))) obs) built \<and> n = length rs)"
    by (simp only: exec_no_join_fused_def list.case survivors_rows [OF ok(1)] Inr and_then_simps Let_def flow) auto
  also have "\<dots> \<longleftrightarrow> (\<exists>rows. mapM ?row rs = Inr rows \<and> data = rows_to_cols rows (length cols) \<and> n = length rs \<and>
      (\<exists>built. (if ?es = [] then Inr [] else build_cols_for_exprs E ?es rs [t]) = Inr built \<and>
        keys = fill_slots (map (\<lambda>ob. alias_key (rows_to_cols rows (length cols)) (length rs) (int_alias (ob_expr ob))) obs) built))"
    unfolding data by (rule iffI; elim exE conjE; intro exI conjI; (assumption | simp only: | rule refl))
  also have "\<dots> \<longleftrightarrow> (\<exists>rows. mapM ?row rs = Inr rows \<and> data = rows_to_cols rows (length cols) \<and> n = length rs \<and>
      (\<exists>krows. mapM ?krow (zip rs rows) = Inr krows \<and> keys = rows_to_cols krows (length obs)))"
    by (rule ex_cong1, rule conj_cong [OF refl], rule conj_cong [OF refl], rule conj_cong [OF refl],
        rule fused_row_keys [OF obs])
  also have "\<dots> \<longleftrightarrow> ?split"
    by (rule iffI; elim exE conjE; intro exI conjI; assumption)
  finally show ?thesis .
qed

lemma project_rows_split:
  "(\<exists>rks. mapM (project_row E [t] cols obs) (map (\<lambda>r. [r]) rs) = Inr rks \<and> P (map fst rks) (map snd rks)) \<longleftrightarrow>
   (\<exists>rows krows. mapM (\<lambda>r. mapM (\<lambda>e. eval E [t] e (Row [r])) (map sc_expr cols)) rs = Inr rows \<and>
      mapM (\<lambda>p. mapM (\<lambda>ob. order_key E ob [t] (Row [fst p]) (snd p)) obs) (zip rs rows) = Inr krows \<and> P rows krows)"
proof -
  let ?row = "\<lambda>r. mapM (\<lambda>e. eval E [t] e (Row [r])) (map sc_expr cols)"
  let ?krow = "\<lambda>p. mapM (\<lambda>ob. order_key E ob [t] (Row [fst p]) (snd p)) obs"
  have rows: "mapM (\<lambda>isec. mapM (\<lambda>sc. eval E [t] (sc_expr sc) (Row isec)) cols) (map (\<lambda>r. [r]) rs) = mapM ?row rs"
    by (simp add: mapM_map)
  have krows: "mapM (\<lambda>p. mapM (\<lambda>ob. order_key E ob [t] (Row (fst p)) (snd p)) obs) (zip (map (\<lambda>r. [r]) rs) rows) =
      mapM ?krow (zip rs rows)" for rows
    by (simp add: zip_map1 mapM_map split_def)
  have zips: "map fst (zip rows krows) = rows" "map snd (zip rows krows) = krows"
    if "mapM ?row rs = Inr rows" "mapM ?krow (zip rs rows) = Inr krows" for rows krows
    using mapM_length [OF that(1)] mapM_length [OF that(2)] by simp_all
  show ?thesis
    unfolding project_split rows krows
  proof (rule iffI; elim exE conjE)
    fix rks rows krows
    assume *: "mapM ?row rs = Inr rows" "mapM ?krow (zip rs rows) = Inr krows" "P (map fst rks) (map snd rks)" "rks = zip rows krows"
    then have "P rows krows" by (simp only: zips)
    with * show "\<exists>rows krows. mapM ?row rs = Inr rows \<and> mapM ?krow (zip rs rows) = Inr krows \<and> P rows krows"
      by (intro exI conjI)
  next
    fix rows krows
    assume *: "mapM ?row rs = Inr rows" "mapM ?krow (zip rs rows) = Inr krows" "P rows krows"
    then have "P (map fst (zip rows krows)) (map snd (zip rows krows))" by (simp only: zips)
    with * show "\<exists>rks. (\<exists>rows krows. mapM ?row rs = Inr rows \<and> mapM ?krow (zip rs rows) = Inr krows \<and>
        rks = zip rows krows) \<and> P (map fst rks) (map snd rks)"
      by (intro exI [of _ "zip rows krows"] conjI exI [of _ rows] exI [of _ krows] refl)
  qed
qed

lemma fused_path_eq:
  assumes ok: "where_ok E wh" "\<forall>e \<in> sc_expr ` set cols \<union> ob_expr ` set obs. parallel_ok E e \<and> slot_ok [t] e"
  shows "exec_no_join_fused E cols (map_option compile wh) [t] obs = Inr (data, keys, n) \<longleftrightarrow>
    (\<exists>rs rks. visit (keeps (\<lambda>r. where_row E [t] wh [r])) [1..<Suc (tb_row_count t)] = Inr rs \<and>
       mapM (project_row E [t] cols obs) (map (\<lambda>r. [r]) rs) = Inr rks \<and>
       data = rows_to_cols (map fst rks) (length cols) \<and> keys = rows_to_cols (map snd rks) (length obs) \<and>
       n = length rs)"
proof (cases "visit (keeps (\<lambda>r. where_row E [t] wh [r])) [1..<Suc (tb_row_count t)]")
  case (Inl e)
  then show ?thesis
    by (simp add: exec_no_join_fused_def survivors_rows [OF ok(1)] del: upt_Suc)
next
  case (Inr rs)
  show ?thesis
    unfolding fused_split [OF ok Inr] Inr
      project_rows_split [of E t cols obs rs "\<lambda>rows krows. data = rows_to_cols rows (length cols) \<and>
        keys = rows_to_cols krows (length obs) \<and> n = length rs", symmetric]
    by (simp only: sum.inject ex_simps simp_thms)
qed

lemma build_single:
  "co_joins core = [] \<Longrightarrow> build_core_intersections E core [t] = Inr (inters_of 1 (seed (tb_row_count t)))"
  by (simp add: build_core_intersections_def try_hash_join_chain_def build_intersections_def row_counts_def
      inters_of_seed del: upt_Suc One_nat_def)

lemma visit_keeps_length: "visit (keeps p) rows = Inr ks \<Longrightarrow> length ks \<le> length rows"
proof (induction rows arbitrary: ks)
  case (Cons r rows)
  show ?case
  proof (cases "p r")
    case (Inr b)
    with Cons.prems obtain ks' where "visit (keeps p) rows = Inr ks'" "ks = (if b then [r] else []) @ ks'"
      by (auto simp: flow keeps_simps)
    then show ?thesis using Cons.IH [of ks'] by auto
  qed (use Cons.prems in \<open>simp add: keeps_simps\<close>)
qed simp

lemma fits_mono: "fits E w n \<Longrightarrow> m \<le> n \<Longrightarrow> fits E w m"
  unfolding fits_def by (meson add_le_mono1 mult_le_mono1 order_trans)

lemma select_rows:
  assumes "has_width w rows" "fits E w (length rows)" "where_ok E wh"
    and "\<forall>e \<in> sc_expr ` set cols \<union> ob_expr ` set obs. parallel_ok E e"
  shows "and_then (filter_where E (inters_of w rows) (map_option compile wh) T) (\<lambda>x. exec_simple E cols x T obs) =
    and_then (visit (keeps (where_row E T wh)) rows) (\<lambda>ks.
      and_then (mapM (project_row E T cols obs) ks) (\<lambda>rks.
        Inr (rows_to_cols (map fst rks) (length cols), rows_to_cols (map snd rks) (length obs), length ks)))"
proof (cases "visit (keeps (where_row E T wh)) rows")
  case (Inr ks)
  have "has_width w ks" "fits E w (length ks)"
    using visit_keeps_width [OF Inr assms(1)] fits_mono [OF assms(2) visit_keeps_length [OF Inr]] by simp_all
  then show ?thesis
    by (simp add: filter_rows [OF assms(1-3)] Inr exec_simple_rows [OF _ _ assms(4)])
qed (simp add: filter_rows [OF assms(1-3)])

section \<open>Properties\<close>

text \<open>C14: WHERE and projection. Filtering a store of row combinations and projecting what is left,
  each sequentially or on the workers, is the row-by-row reading of the clauses: the combinations on
  which the condition is true, in order, each with its output cells and sort keys; a failure of an
  evaluation is the failure of the whole.\<close>

theorem select_rows_correct:
  assumes "has_width w rows" "fits E w (length rows)" "where_ok E wh"
    and "\<forall>e \<in> sc_expr ` set cols \<union> ob_expr ` set obs. parallel_ok E e"
  shows "and_then (filter_where E (inters_of w rows) (map_option compile wh) T) (\<lambda>x. exec_simple E cols x T obs) =
    and_then (visit (keeps (where_row E T wh)) rows) (\<lambda>ks.
      and_then (mapM (project_row E T cols obs) ks) (\<lambda>rks.
        Inr (rows_to_cols (map fst rks) (length cols), rows_to_cols (map snd rks) (length obs), length ks)))"
  by (rule select_rows [OF assms])

text \<open>A query on one column: the cells that satisfy a condition, with the cell as the sort key.\<close>

definition column_x :: "sub expr" where
  "column_x = ResolvedColumn 0 0 (str ''x'')"

lemma column_x_ok [simp]:
  "parallel_ok (plain_env s) e" "where_ok (plain_env s) (Some column_x)" "slot_ok [column_table n cells] column_x"
  "int_alias column_x = None"
  by (simp_all add: int_alias_def parallel_ok_def where_ok_def column_x_def slot_ok_def column_table_def)

lemma eval_column_x: "eval E [column_table n cells] column_x (Row [r]) = Inr (table_get (column_table n cells) r 0)"
  by (simp add: column_x_def eval_resolved_column_def table_value_def unwrap_or_def)

theorem select_rows_correct_witness:
  "and_then (filter_where (plain_env []) (inters_of 1 [[1], [2]]) (Some (compile column_x)) [column_table ''a'' [VInt 0, VInt 7]])
     (\<lambda>x. exec_simple (plain_env []) [SelectColumn column_x None] x [column_table ''a'' [VInt 0, VInt 7]]
        [OrderByExpr column_x Asc]) = Inr ([[VInt 7]], [[VInt 7]], 1)"
proof -
  have "has_width 1 [[1], [2 :: nat]]" "fits (plain_env []) 1 (length [[1], [2 :: nat]])"
    by (simp_all add: has_width_def fits_def usize_max_def)
  moreover have "table_get (column_table ''a'' [VInt 0, VInt 7]) (Suc 0) 0 = VInt 0"
    "table_get (column_table ''a'' [VInt 0, VInt 7]) 2 0 = VInt 7"
    by (simp_all add: table_get_def column_table_def)
  moreover note select_rows_correct [OF calculation(1,2), of "Some column_x" "[SelectColumn column_x None]" "[OrderByExpr column_x Asc]"
      "[column_table ''a'' [VInt 0, VInt 7]]"]
  ultimately show ?thesis
    by (simp add: where_row_def holds_row_def keeps_def eval_column_x project_row_def order_key_def
        is_truthy_def tri_def rows_to_cols_eq unwrap_or_def)
qed

text \<open>
  An expression without registered CFML functions, extension functions and subqueries never
  reaches the callback into the VM, whatever that does and on whatever thread it is evaluated.
\<close>

lemma eval_callback:
  assumes "unicode_laws (en_rt E)" "expr_is_pure (en_rt E) (en_registry E) e"
  shows "eval (E\<lparr>en_invoke := f, en_parallel := par\<rparr>) T e = eval E T e"
proof -
  let ?F = "E\<lparr>en_invoke := f, en_parallel := par\<rparr>"
  have "pure_engine ?F = pure_engine E" by (simp add: pure_engine_def)
  with eval_pure [of ?F e T] eval_pure [of E e T] assms show ?thesis by simp
qed

lemma project_row_callback:
  assumes "unicode_laws (en_rt E)"
    and "\<forall>e \<in> sc_expr ` set cols \<union> ob_expr ` set obs. expr_is_pure (en_rt E) (en_registry E) e"
  shows "project_row (E\<lparr>en_invoke := f, en_parallel := par\<rparr>) T cols obs = project_row E T cols obs"
proof -
  let ?F = "E\<lparr>en_invoke := f, en_parallel := par\<rparr>"
  have "mapM (\<lambda>sc. eval ?F T (sc_expr sc) (Row isec)) cols = mapM (\<lambda>sc. eval E T (sc_expr sc) (Row isec)) cols" for isec
    using assms by (intro mapM_cong refl) (simp add: eval_callback)
  moreover have "mapM (\<lambda>ob. order_key ?F ob T (Row isec) row) obs = mapM (\<lambda>ob. order_key E ob T (Row isec) row) obs" for isec row
    using assms by (intro mapM_cong refl) (simp add: order_key_def eval_callback split: option.split)
  ultimately show ?thesis by (intro ext) (simp add: project_row_def)
qed

lemma where_row_callback:
  assumes "unicode_laws (en_rt E)" "pred_option (expr_is_pure (en_rt E) (en_registry E)) wh"
  shows "where_row (E\<lparr>en_invoke := f, en_parallel := par\<rparr>) T wh = where_row E T wh"
  using assms by (intro ext) (cases wh, simp_all add: where_row_def holds_row_def eval_callback)

text \<open>C3: The fused path of a query on one table, for expressions that call no registered CFML
  function and no extension function and contain no subquery. It returns what the general path
  returns, building the row combinations, filtering and projecting, and it succeeds exactly when
  the general path does, whatever the callback into the VM does in either of them and whether or
  not either evaluates rows in parallel. When both fail the error reported may differ, since one
  goes by columns and the other by rows; for the same reason the restriction is needed, since a
  function with side effects would see its calls in another order.\<close>

theorem fused_path_equivalent:
  assumes "co_joins core = []" "fits E 1 (tb_row_count t)" and uni: "unicode_laws (en_rt E)"
    and wh: "pred_option (\<lambda>e. scalar_literals e \<and> expr_is_pure (en_rt E) (en_registry E) e) wh"
    and pure: "\<forall>e \<in> sc_expr ` set cols \<union> ob_expr ` set obs.
      expr_is_pure (en_rt E) (en_registry E) e \<and> slot_ok [t] e"
    and F: "F = E\<lparr>en_invoke := f, en_parallel := par\<rparr>" and G: "G = E\<lparr>en_invoke := g, en_parallel := par'\<rparr>"
  shows "exec_no_join_fused F cols (map_option compile wh) [t] obs = Inr res \<longleftrightarrow>
    and_then (build_core_intersections G core [t]) (\<lambda>x.
      and_then (filter_where G x (map_option compile wh) [t]) (\<lambda>y. exec_simple G cols y [t] obs)) = Inr res"
proof -
  have okF: "where_ok F wh" "\<forall>e \<in> sc_expr ` set cols \<union> ob_expr ` set obs. parallel_ok F e \<and> slot_ok [t] e"
    and okG: "where_ok G wh" "\<forall>e \<in> sc_expr ` set cols \<union> ob_expr ` set obs. parallel_ok G e"
    using wh pure uni by (cases wh; simp add: F G where_ok_def parallel_ok_def)+
  have pw: "pred_option (expr_is_pure (en_rt E) (en_registry E)) wh" using wh by (cases wh) simp_all
  have pp: "\<forall>e \<in> sc_expr ` set cols \<union> ob_expr ` set obs. expr_is_pure (en_rt E) (en_registry E) e"
    using pure by blast
  obtain data keys n where res: "res = (data, keys, n)" by (cases res)
  have fits: "fits G 1 (length (seed (tb_row_count t)))" using assms(2) by (simp add: seed_def fits_def del: upt_Suc)
  note rows = where_row_callback [OF uni pw] project_row_callback [OF uni pp]
  show ?thesis
    unfolding res fused_path_eq [OF okF] build_single [OF assms(1)] and_then_simps
      select_rows [OF seed_width fits okG]
    unfolding F G rows
    by (auto simp: seed_def visit_single flow simp del: upt_Suc)
qed

theorem fused_path_equivalent_witness:
  "exec_no_join_fused ((plain_env [])\<lparr>en_invoke := \<lambda>_ _. Inr VNull, en_parallel := True\<rparr>) [SelectColumn column_x None]
      (Some (compile column_x)) [column_table ''a'' [VInt 0, VInt 7]] [OrderByExpr column_x Asc]
    = Inr ([[VInt 7]], [[VInt 7]], 1)"
proof -
  let ?core = "SelectCore False None [] None [] None [] None :: sub select_core" and ?t = "column_table ''a'' [VInt 0, VInt 7]"
  have "has_width 1 [[1], [2 :: nat]]" "fits (plain_env []) 1 (length [[1], [2 :: nat]])"
    by (simp_all add: has_width_def fits_def usize_max_def)
  note rows = select_rows [OF this, of "Some column_x" "[SelectColumn column_x None]" "[OrderByExpr column_x Asc]" "[?t]"]
  have tab: "table_get ?t (Suc 0) 0 = VInt 0" "table_get ?t 2 0 = VInt 7" "seed (tb_row_count ?t) = [[1], [2]]"
    by (simp_all add: table_get_def column_table_def seed_def upt_rec)
  have general: "and_then (build_core_intersections (plain_env []) ?core [?t]) (\<lambda>x.
      and_then (filter_where (plain_env []) x (map_option compile (Some column_x)) [?t]) (\<lambda>y.
        exec_simple (plain_env []) [SelectColumn column_x None] y [?t] [OrderByExpr column_x Asc]))
      = Inr ([[VInt 7]], [[VInt 7]], 1)"
    using rows tab by (simp add: build_single where_row_def holds_row_def keeps_def eval_column_x
        project_row_def order_key_def is_truthy_def tri_def rows_to_cols_eq unwrap_or_def)
  have "co_joins ?core = []" "fits (plain_env []) 1 (tb_row_count ?t)" "unicode_laws (en_rt (plain_env []))"
    by (simp_all add: fits_def usize_max_def column_table_def)
  moreover have "pred_option (\<lambda>e. scalar_literals e \<and>
      expr_is_pure (en_rt (plain_env [])) (en_registry (plain_env [])) e) (Some column_x)"
    "\<forall>e \<in> sc_expr ` set [SelectColumn column_x None] \<union> ob_expr ` set [OrderByExpr column_x Asc].
      expr_is_pure (en_rt (plain_env [])) (en_registry (plain_env [])) e \<and> slot_ok [?t] e"
    by (simp_all add: column_x_def slot_ok_def column_table_def)
  moreover have "plain_env [] = (plain_env [])\<lparr>en_invoke := pure_invoke, en_parallel := False\<rparr>"
    by (simp add: plain_env_def)
  note fused_path_equivalent [OF calculation refl this, where f = "\<lambda>_ _. Inr VNull" and par = True
      and res = "([[VInt 7]], [[VInt 7]], 1)"]
  then show ?thesis using general by (simp only: option.map)
qed

end
