(* ===== verification/Grouping.thy ===== *)
theory Grouping
  imports Project
begin

text \<open>
  GROUP BY and HAVING (\<open>execution.rs\<close>, \<open>exec_aggregate\<close>, \<open>partition\<close>): the rows are partitioned by
  the key of their grouping expressions and every group gives at most one output row.
\<close>

section \<open>Partitioning\<close>

text \<open>The ordered map of the groups: \<open>groups.entry(k).or_insert_with(..).push_row(isec)\<close>.\<close>

type_synonym groups = "(ustr \<times> intersections) list"

fun group_push :: "nat \<Rightarrow> ustr \<Rightarrow> nat list \<Rightarrow> groups \<Rightarrow> groups" where
  "group_push width k isec [] = [(k, push_row isec (inters_new width))]"
| "group_push width k isec ((k', x) # gs) =
     (if k = k' then (k', push_row isec x) # gs else (k', x) # group_push width k isec gs)"

definition row_group_key :: "env \<Rightarrow> table_set \<Rightarrow> sub expr list \<Rightarrow> nat list \<Rightarrow> ustr outcome" where
  "row_group_key E T group_by isec =
     and_then (mapM (\<lambda>g. eval E T g (Row isec)) group_by) (\<lambda>vals. Inr (group_key (en_rt E) vals))"

fun group_loop ::
  "env \<Rightarrow> table_set \<Rightarrow> sub expr list \<Rightarrow> nat \<Rightarrow> groups \<Rightarrow> nat list list \<Rightarrow> groups outcome" where
  "group_loop E T group_by width gs [] = Inr gs"
| "group_loop E T group_by width gs (isec # rows) =
     and_then (row_group_key E T group_by isec) (\<lambda>k.
       group_loop E T group_by width (group_push width k isec gs) rows)"

definition partition_rows :: "env \<Rightarrow> intersections \<Rightarrow> sub expr list \<Rightarrow> table_set \<Rightarrow> intersections list outcome" where
  "partition_rows E x group_by T =
     (let width = in_width x
      in if runs_parallel E (inters_len x)
         then and_then (mapM (\<lambda>i. and_then (inters_row x i) (row_group_key (pure_engine E) T group_by))
                          [0..<inters_len x]) (\<lambda>keys.
                and_then (mapM (inters_row x) [0..<inters_len x]) (\<lambda>rows.
                  Inr (map snd (fold (\<lambda>(k, isec). group_push width k isec) (zip keys rows) []))))
         else and_then (group_loop E T group_by width [] (inters_iter x)) (\<lambda>gs. Inr (map snd gs)))"

fun aggregate_loop ::
  "env \<Rightarrow> sub expr option \<Rightarrow> sub select_column list \<Rightarrow> table_set \<Rightarrow> sub order_by_expr list
    \<Rightarrow> cfml_value list list \<Rightarrow> cfml_value list list \<Rightarrow> intersections list
    \<Rightarrow> (cfml_value list list \<times> cfml_value list list) outcome" where
  "aggregate_loop E having cols T obs rows keys [] = Inr (rows, keys)"
| "aggregate_loop E having cols T obs rows keys (part # parts) =
     and_then (case having of
                 None \<Rightarrow> Inr True
               | Some h \<Rightarrow> and_then (eval E T h (Group part)) (\<lambda>v. Inr (is_truthy (en_rt E) v))) (\<lambda>keep.
       if \<not> keep then aggregate_loop E having cols T obs rows keys parts
       else and_then (mapM (\<lambda>sc. eval E T (sc_expr sc) (Group part)) cols) (\<lambda>row.
              and_then (mapM (\<lambda>ob. order_key E ob T (Group part) row) obs) (\<lambda>key.
                aggregate_loop E having cols T obs (rows @ [row]) (keys @ [key]) parts)))"

definition exec_aggregate ::
  "env \<Rightarrow> sub select_core \<Rightarrow> sub select_column list \<Rightarrow> intersections \<Rightarrow> table_set \<Rightarrow> sub order_by_expr list
    \<Rightarrow> (columns \<times> columns \<times> nat) outcome" where
  "exec_aggregate E core cols x T obs =
     and_then (if co_group_by core = [] then Inr [x] else partition_rows E x (co_group_by core) T) (\<lambda>parts.
       and_then (aggregate_loop E (co_having core) cols T obs [] [] parts) (\<lambda>(rows, keys).
         Inr (rows_to_cols rows (length cols), rows_to_cols keys (length obs), length rows)))"

section \<open>Groups by first appearance\<close>

definition firsts :: "'a list \<Rightarrow> 'a list" where
  "firsts ks = map ((!) ks) (filter (\<lambda>i. \<forall>j < i. ks ! j \<noteq> ks ! i) [0..<length ks])"

lemma firsts_Nil [simp]: "firsts [] = []"
  by (simp add: firsts_def)

lemma firsts_snoc: "firsts (ks @ [k]) = firsts ks @ (if k \<in> set ks then [] else [k])"
proof -
  have "map ((!) (ks @ [k])) (filter (\<lambda>i. \<forall>j < i. (ks @ [k]) ! j \<noteq> (ks @ [k]) ! i) [0..<length ks]) = firsts ks"
    unfolding firsts_def by (rule map_cong) (auto simp: nth_append intro!: filter_cong)
  then show ?thesis
    by (simp add: firsts_def [of "ks @ [k]"] nth_append in_set_conv_nth)
qed

lemma firsts_set: "set (firsts ks) = set ks"
  by (induction ks rule: rev_induct) (auto simp: firsts_snoc)

lemma firsts_distinct: "distinct (firsts ks)"
  by (induction ks rule: rev_induct) (auto simp: firsts_snoc firsts_set)

definition with_key :: "'k \<Rightarrow> ('k \<times> 'a) list \<Rightarrow> 'a list" where
  "with_key k ps = map snd (filter (\<lambda>p. fst p = k) ps)"

lemma with_key_snoc: "with_key k (ps @ [(k', r)]) = with_key k ps @ (if k = k' then [r] else [])"
  by (simp add: with_key_def)

lemma with_key_none: "k \<notin> fst ` set ps \<Longrightarrow> with_key k ps = []"
  by (auto simp: with_key_def filter_empty_conv)

lemma group_push_map:
  assumes "distinct ks"
  shows "group_push w k r (map (\<lambda>k. (k, inters_of w (g k))) ks) =
    map (\<lambda>k'. (k', inters_of w (g k' @ (if k' = k then [r] else [])))) ks @ (if k \<in> set ks then [] else [(k, inters_of w [r])])"
  using assms by (induction ks) (auto simp: push_row_of inters_new_of)

lemma group_push_all:
  "fold (\<lambda>(k, r). group_push w k r) ps [] = map (\<lambda>k. (k, inters_of w (with_key k ps))) (firsts (map fst ps))"
proof (induction ps rule: rev_induct)
  case (snoc p ps)
  obtain k r where p: "p = (k, r)" by (cases p)
  show ?case
    using group_push_map [OF firsts_distinct, of w k r "\<lambda>k. with_key k ps" "map fst ps"]
    by (auto simp: p snoc firsts_snoc firsts_set with_key_snoc with_key_none)
qed simp

lemma group_loop_rows:
  "group_loop E T gb w gs rows =
   and_then (mapM (row_group_key E T gb) rows) (\<lambda>ks. Inr (fold (\<lambda>(k, r). group_push w k r) (zip ks rows) gs))"
  by (induction rows arbitrary: gs) (simp_all add: and_then_assoc)

lemma group_key_worker:
  assumes "en_parallel E" "\<forall>g \<in> set gb. parallel_ok E g"
  shows "row_group_key (pure_engine E) T gb = row_group_key E T gb"
proof (rule ext)
  fix isec
  have "mapM (\<lambda>g. eval (pure_engine E) T g (Row isec)) gb = mapM (\<lambda>g. eval E T g (Row isec)) gb"
    using assms eval_worker by (auto intro!: mapM_cong)
  then show "row_group_key (pure_engine E) T gb isec = row_group_key E T gb isec"
    by (simp add: row_group_key_def)
qed

lemma partition_rows_eq:
  assumes "has_width w rows" "\<forall>g \<in> set gb. parallel_ok E g"
  shows "partition_rows E (inters_of w rows) gb T =
    and_then (mapM (row_group_key E T gb) rows) (\<lambda>ks.
      Inr (map (\<lambda>k. inters_of w (with_key k (zip ks rows))) (firsts ks)))"
proof -
  have groups: "map snd (fold (\<lambda>(k, r). group_push w k r) (zip ks rows) []) =
      map (\<lambda>k. inters_of w (with_key k (zip ks rows))) (firsts ks)"
    if "mapM (row_group_key E T gb) rows = Inr ks" for ks
    using mapM_length [OF that] by (simp add: group_push_all)
  have rows: "mapM (\<lambda>i. and_then (inters_row (inters_of w rows) i) f) [0..<length rows] = mapM f rows"
    for f :: "nat list \<Rightarrow> 'b outcome"
  proof -
    have "mapM (\<lambda>i. and_then (inters_row (inters_of w rows) i) f) [0..<length rows] = mapM (\<lambda>i. f (rows ! i)) [0..<length rows]"
      by (rule mapM_cong) (simp_all add: inters_row_of [OF assms(1)])
    also have "\<dots> = mapM f (map ((!) rows) [0..<length rows])" by (simp add: mapM_map)
    finally show ?thesis by (simp only: map_nth)
  qed
  have "mapM (inters_row (inters_of w rows)) [0..<length rows] = Inr rows"
    by (subst mapM_total [where g = "(!) rows"]) (simp_all add: inters_row_of [OF assms(1)] map_nth)
  then show ?thesis
    using assms(1) groups
    by (cases "mapM (row_group_key E T gb) rows")
       (simp_all add: partition_rows_def Let_def rows group_loop_rows runs_parallel_def group_key_worker [OF _ assms(2)])
qed

section \<open>One row per group\<close>

definition having_holds :: "env \<Rightarrow> table_set \<Rightarrow> sub expr option \<Rightarrow> intersections \<Rightarrow> bool outcome" where
  "having_holds E T having part =
     (case having of
        None \<Rightarrow> Inr True
      | Some h \<Rightarrow> and_then (eval E T h (Group part)) (\<lambda>v. Inr (is_truthy (en_rt E) v)))"

definition project_group ::
  "env \<Rightarrow> table_set \<Rightarrow> sub select_column list \<Rightarrow> sub order_by_expr list \<Rightarrow> intersections
    \<Rightarrow> (cfml_value list \<times> cfml_value list) outcome" where
  "project_group E T cols obs part =
     and_then (mapM (\<lambda>sc. eval E T (sc_expr sc) (Group part)) cols) (\<lambda>row.
       and_then (mapM (\<lambda>ob. order_key E ob T (Group part) row) obs) (\<lambda>key. Inr (row, key)))"

definition group_output ::
  "env \<Rightarrow> table_set \<Rightarrow> sub expr option \<Rightarrow> sub select_column list \<Rightarrow> sub order_by_expr list \<Rightarrow> intersections
    \<Rightarrow> (cfml_value list \<times> cfml_value list) list outcome" where
  "group_output E T having cols obs part =
     and_then (having_holds E T having part) (\<lambda>b.
       if b then and_then (project_group E T cols obs part) (\<lambda>rk. Inr [rk]) else Inr [])"

lemma aggregate_loop_visit:
  "aggregate_loop E having cols T obs rows keys parts =
   and_then (visit (group_output E T having cols obs) parts) (\<lambda>rks. Inr (rows @ map fst rks, keys @ map snd rks))"
proof (induction parts arbitrary: rows keys)
  case (Cons part parts)
  have head: "aggregate_loop E having cols T obs rows keys (part # parts) =
      and_then (having_holds E T having part) (\<lambda>keep.
        if \<not> keep then aggregate_loop E having cols T obs rows keys parts
        else and_then (project_group E T cols obs part) (\<lambda>(row, key).
          aggregate_loop E having cols T obs (rows @ [row]) (keys @ [key]) parts))"
    by (auto simp: having_holds_def project_group_def and_then_def split: sum.splits option.splits)
  show ?case
    unfolding head Cons.IH visit_simps group_output_def
    by (auto simp: and_then_def split: sum.splits)
qed simp

lemma exec_aggregate_visit:
  "exec_aggregate E core cols x T obs =
   and_then (if co_group_by core = [] then Inr [x] else partition_rows E x (co_group_by core) T) (\<lambda>parts.
     and_then (visit (group_output E T (co_having core) cols obs) parts) (\<lambda>rks.
       Inr (rows_to_cols (map fst rks) (length cols), rows_to_cols (map snd rks) (length obs), length rks)))"
  by (simp add: exec_aggregate_def aggregate_loop_visit and_then_assoc)

section \<open>Properties\<close>

text \<open>C8: GROUP BY and HAVING. The rows are split by the key of their grouping expressions, a group per
  key in the order in which the keys first appear and the rows of a group in their own order, on
  the sequential and on the parallel path; without GROUP BY all rows, even none, are one group.
  Every group on which HAVING is true gives one output row with its sort keys, in order.\<close>

theorem grouping_correct:
  assumes "has_width w rows" "\<forall>g \<in> set (co_group_by core). parallel_ok E g"
  shows "exec_aggregate E core cols (inters_of w rows) T obs =
    and_then (if co_group_by core = [] then Inr [rows]
              else and_then (mapM (row_group_key E T (co_group_by core)) rows) (\<lambda>ks.
                     Inr (map (\<lambda>k. with_key k (zip ks rows)) (firsts ks)))) (\<lambda>groups.
      and_then (visit (\<lambda>g. group_output E T (co_having core) cols obs (inters_of w g)) groups) (\<lambda>rks.
        Inr (rows_to_cols (map fst rks) (length cols), rows_to_cols (map snd rks) (length obs), length rks)))"
  by (simp add: exec_aggregate_visit partition_rows_eq [OF assms] and_then_assoc visit_map)

definition group_core :: "sub select_core" where
  "group_core = SelectCore False None [] (Some (Named (str ''a'') None)) [] None [column_x] None"

lemma group_column_x:
  "has_width 1 ([r] # g) \<Longrightarrow>
   group_output (plain_env s) [column_table n cells] None [SelectColumn column_x None] [] (inters_of 1 ([r] # g)) =
     Inr [([table_get (column_table n cells) r 0], [])]"
  using inters_row_of [of 1 "[r] # g" 0]
  by (simp add: group_output_def having_holds_def project_group_def column_x_def eval_resolved_column_def
      table_value_def unwrap_or_def)

lemma firsts_repeated: "k \<noteq> k' \<Longrightarrow> firsts [k, k', k] = [k, k']"
  using firsts_snoc [of "[]" k] firsts_snoc [of "[k]" k'] firsts_snoc [of "[k, k']" k] by simp

theorem grouping_correct_witness:
  "exec_aggregate (plain_env []) group_core [SelectColumn column_x None] (inters_of 1 [[1], [2], [3]])
     [column_table ''a'' [VInt 1, VInt 2, VInt 1]] [] = Inr ([[VInt 1, VInt 2]], [], 2)"
proof -
  let ?T = "[column_table ''a'' [VInt 1, VInt 2, VInt 1]]" and ?key = "\<lambda>v. group_key ascii_runtime [v]"
  have wd: "has_width 1 [[1], [2], [3 :: nat]]" "has_width 1 [[1], [3 :: nat]]" "has_width 1 [[2 :: nat]]"
    by (simp_all add: has_width_def)
  have cells: "table_get (hd ?T) 1 0 = VInt 1" "table_get (hd ?T) 2 0 = VInt 2" "table_get (hd ?T) 3 0 = VInt 1"
    by (simp_all add: table_get_def column_table_def)
  have "row_group_key (plain_env []) ?T [column_x] [r] = Inr (?key (table_get (hd ?T) r 0))" for r
    by (simp add: row_group_key_def eval_column_x)
  then have keys: "mapM (row_group_key (plain_env []) ?T (co_group_by group_core)) [[1], [2], [3]] =
      Inr [?key (VInt 1), ?key (VInt 2), ?key (VInt 1)]"
    using cells by (simp add: group_core_def)
  have ne: "?key (VInt 1) \<noteq> ?key (VInt 2)"
    by (simp add: group_key_def append_group_key_def show_i64_def show_int_def show_nat.simps)
  show ?thesis
    using grouping_correct [OF wd(1), of group_core "plain_env []" "[SelectColumn column_x None]" ?T "[]"]
      ne cells group_column_x [OF wd(2)] group_column_x [OF wd(3)]
    unfolding keys by (simp add: firsts_repeated with_key_def group_core_def rows_to_cols_eq unwrap_or_def)
qed

end
