(* ===== verification/Exec.thy ===== *)
theory Exec
  imports Grouping
begin

text \<open>
  Running a statement (\<open>execution.rs\<close>, \<open>execute\<close>, \<open>run_statement\<close>, \<open>run_core\<close>): sources are looked
  up, each core is bound, joined, filtered, projected and cut, UNION arms are merged, and the
  result is ordered and limited.
\<close>

section \<open>Tables\<close>

definition resolve_table_ref :: "env \<Rightarrow> sub table_ref \<Rightarrow> qoq_table outcome" where
  "resolve_table_ref E tref =
     (case tref of
        Named name alias \<Rightarrow>
          (case find (\<lambda>(n, _). eq_ignore_ascii_case n name) (en_sources E) of
             Some (_, q) \<Rightarrow> Inr (from_query_data (unwrap_or alias name) q)
           | None \<Rightarrow> Inl (TableNotFound name))
      | Derived select alias \<Rightarrow> and_then select (\<lambda>q. Inr (from_query_data alias q)))"

definition resolve_tables :: "env \<Rightarrow> sub select_core \<Rightarrow> table_set outcome" where
  "resolve_tables E core =
     (case co_from core of
        None \<Rightarrow> Inr []
      | Some tref \<Rightarrow>
          and_then (resolve_table_ref E tref) (\<lambda>t.
            and_then (mapM (\<lambda>j. resolve_table_ref E (jn_table j)) (co_joins core)) (\<lambda>ts. Inr (t # ts))))"

section \<open>Cores\<close>

record core_result =
  cr_columns :: "ustr list"
  cr_row_count :: nat
  cr_data :: columns
  cr_sort_keys :: columns

fun no_from_row :: "env \<Rightarrow> sub select_column list \<Rightarrow> cfml_value list outcome" where
  "no_from_row E [] = Inr []"
| "no_from_row E (sc # scs) =
     (case sc_expr sc of
        Star _ \<Rightarrow> Inl StarRequiresFrom
      | e \<Rightarrow> and_then (eval E [] e (Row [])) (\<lambda>v. and_then (no_from_row E scs) (\<lambda>vs. Inr (v # vs))))"

definition run_no_from :: "env \<Rightarrow> sub select_core \<Rightarrow> sub order_by_expr list \<Rightarrow> core_result outcome" where
  "run_no_from E core obs =
     and_then (no_from_row E (co_columns core)) (\<lambda>row.
       and_then (derive_column_names (en_rt E) (co_columns core)) (\<lambda>columns.
         and_then (mapM (\<lambda>ob. order_key E ob [] (Row []) row) obs) (\<lambda>key.
           Inr \<lparr> cr_columns = columns, cr_row_count = 1, cr_data = map (\<lambda>v. [v]) row,
                 cr_sort_keys = map (\<lambda>v. [v]) key \<rparr>)))"

definition apply_distinct ::
  "runtime \<Rightarrow> bool \<Rightarrow> columns \<times> columns \<times> nat \<Rightarrow> (columns \<times> columns \<times> nat) outcome" where
  "apply_distinct R dist = (\<lambda>(data, keys, n).
     if dist then dedup_cols_and_keys R data keys n else Inr (data, keys, n))"

definition apply_top :: "nat option \<Rightarrow> columns \<times> columns \<times> nat \<Rightarrow> columns \<times> columns \<times> nat" where
  "apply_top top_n = (\<lambda>(data, keys, n).
     case top_n of
       Some m \<Rightarrow> if m < n then (truncate_cols data m, truncate_cols keys m, m) else (data, keys, n)
     | None \<Rightarrow> (data, keys, n))"

text \<open>The rows of a bound core, before DISTINCT and TOP.\<close>

definition core_rows ::
  "env \<Rightarrow> table_set \<Rightarrow> sub select_core \<Rightarrow> sub select_column list \<Rightarrow> sub order_by_expr list
    \<Rightarrow> (columns \<times> columns \<times> nat) outcome" where
  "core_rows E T core cols obs =
     (let R = en_rt E; reg = en_registry E;
          compiled_where = map_option compile (co_where core);
          has_agg = (list_ex (\<lambda>c. expr_has_aggregate R reg (sc_expr c)) cols
            \<or> unwrap_or (map_option (expr_has_aggregate R reg) (co_having core)) False);
          can_fused = (\<not> has_agg \<and> co_group_by core = [] \<and> co_having core = None
            \<and> co_joins core = [] \<and> length T = 1)
      in if can_fused then exec_no_join_fused E cols compiled_where T obs
         else and_then (build_core_intersections E core T) (\<lambda>isecs.
                and_then (filter_where E isecs compiled_where T) (\<lambda>filtered.
                  if has_agg \<or> co_group_by core \<noteq> [] then exec_aggregate E core cols filtered T obs
                  else exec_simple E cols filtered T obs)))"

definition run_core :: "env \<Rightarrow> sub select_core \<Rightarrow> sub order_by_expr list \<Rightarrow> core_result outcome" where
  "run_core E core_in obs_in =
     and_then (resolve_tables E core_in) (\<lambda>T.
       if T = [] then run_no_from E core_in obs_in
       else and_then (expand_columns (co_columns core_in) T) (\<lambda>expanded.
         let (core, cols, obs) = bind_core (en_rt E) T (core_in, expanded, obs_in)
         in and_then (derive_column_names (en_rt E) cols) (\<lambda>columns.
              and_then (core_rows E T core cols obs) (\<lambda>rows.
                and_then (apply_distinct (en_rt E) (co_distinct core) rows) (\<lambda>rows'.
                  let (data, keys, n) = apply_top (co_top core) rows'
                  in Inr \<lparr> cr_columns = columns, cr_row_count = n, cr_data = data, cr_sort_keys = keys \<rparr>)))))"

section \<open>Statements\<close>

fun union_loop ::
  "env \<Rightarrow> ustr list \<Rightarrow> columns \<Rightarrow> nat \<Rightarrow> sub union_arm list \<Rightarrow> (columns \<times> nat) outcome" where
  "union_loop E columns data n [] = Inr (data, n)"
| "union_loop E columns data n (u # us) =
     and_then (run_core E (un_select u) []) (\<lambda>arm.
       if length (cr_columns arm) \<noteq> length columns
       then Inl (UnionMismatch (length columns) (length (cr_columns arm)))
       else and_then (extend_cols data (cr_data arm)) (\<lambda>data'.
              union_loop E columns data' (n + cr_row_count arm) us))"

definition finish ::
  "env \<Rightarrow> ustr list \<Rightarrow> columns \<Rightarrow> columns \<Rightarrow> sub order_by_expr list \<Rightarrow> limit_clause option \<Rightarrow> nat \<Rightarrow> query_data outcome" where
  "finish E columns data sort_keys obs limit n =
     and_then (sort_cols (en_rt E) data sort_keys obs n) (\<lambda>sorted_data.
       and_then (apply_limit_cols sorted_data limit n) (\<lambda>(data', n').
         Inr (build_query columns data' n')))"

text \<open>\<open>run_statement\<close>, on a statement whose nested sub-selects have been run.\<close>

definition run_select ::
  "env \<Rightarrow> sub select_core \<Rightarrow> sub union_arm list \<Rightarrow> sub order_by_expr list \<Rightarrow> limit_clause option \<Rightarrow> query_data outcome" where
  "run_select E body unions obs limit =
     and_then (run_core E body (if unions = [] then obs else [])) (\<lambda>res.
       if unions = [] then finish E (cr_columns res) (cr_data res) (cr_sort_keys res) obs limit (cr_row_count res)
       else and_then (union_loop E (cr_columns res) (cr_data res) (cr_row_count res) unions) (\<lambda>(data, n).
              and_then (if list_ex (\<lambda>u. \<not> un_all u) unions then dedup_cols (en_rt E) data n else Inr (data, n))
                (\<lambda>(data', n').
                  and_then (build_output_sort_keys E data' n' (cr_columns res) obs) (\<lambda>sort_keys.
                    finish E (cr_columns res) data' sort_keys obs limit n'))))"

primrec run_statement :: "env \<Rightarrow> select_statement \<Rightarrow> query_data outcome" where
  "run_statement E (SelectStatement body unions obs limit) =
     run_select E (map_select_core (run_statement E) body) (map (map_union_arm (run_statement E)) unions)
       (map (map_order_by_expr (run_statement E)) obs) limit"

definition execute :: "env \<Rightarrow> select_statement \<Rightarrow> query_data outcome" where
  "execute E stmt =
     run_statement (E\<lparr>en_parallel := is_parallel_safe (en_rt E) (en_registry E) stmt\<rparr>) stmt"

section \<open>Shapes\<close>

text \<open>Result columns and sort keys as a stage hands them on: \<open>m\<close> rows of each.\<close>

definition counted :: "nat \<Rightarrow> nat \<Rightarrow> nat \<Rightarrow> columns \<times> columns \<times> nat \<Rightarrow> bool" where
  "counted wd wk m = (\<lambda>(data, keys, n).
     length data = wd \<and> length keys = wk \<and> wf_cols m data \<and> wf_cols m keys)"

lemma rows_to_cols_shape [simp]: "length (rows_to_cols rows w) = w" "wf_cols (length rows) (rows_to_cols rows w)"
  by (auto simp: rows_to_cols_eq wf_cols_def list_all_iff)

lemma length_chunks_exact_div: "0 < w \<Longrightarrow> length (chunks_exact w xs) = length xs div w"
proof (induction w xs rule: chunks_exact.induct)
  case (1 w xs)
  then show ?case by (cases "length xs < w") (simp_all add: chunks_exact.simps [of w xs] le_div_geq)
qed

lemma length_inters_iter: "length (inters_iter x) = inters_len x"
  by (simp add: inters_iter_def inters_len_def length_chunks_exact_div)

text \<open>Chunks of whole rows hold together as many rows as the store.\<close>

lemma chunk_row_counts:
  "0 < k \<Longrightarrow> 0 < w \<Longrightarrow> sum_list (map (\<lambda>c. length c div w) (chunks (k * w) xs)) = length xs div w"
proof (induction "k * w" xs rule: chunks.induct)
  case (1 xs)
  show ?case
  proof (cases "length xs \<le> k * w")
    case True
    then show ?thesis using 1 by (simp add: chunks.simps [of _ xs])
  next
    case False
    then have "length xs div w = k + (length xs - k * w) div w"
      using 1(3) by (metis add.commute div_mult_self1 le_add_diff_inverse2 less_imp_le_nat mult.commute nat_neq_iff not_le)
    moreover have "xs \<noteq> []" using False by auto
    ultimately show ?thesis using 1 False by (simp add: chunks.simps [of _ xs] min_def)
  qed
qed

lemma par_chunks_count:
  assumes "length (in_flat x) \<le> usize_max"
  shows "sum_list (map (\<lambda>c. length (inters_iter c)) (par_chunks_rows (chunk_rows E n) x)) = inters_len x"
proof (cases "in_width x = 0")
  case True
  then show ?thesis by (simp add: par_chunks_rows_def Let_def inters_iter_def comp_def inters_len_def)
next
  case False
  let ?w = "in_width x" and ?k = "max (chunk_rows E n) 1"
  have "(\<Sum>c\<leftarrow>par_chunks_rows (chunk_rows E n) x. length (inters_iter c)) =
      (\<Sum>c\<leftarrow>chunks (min (?k * ?w) usize_max) (in_flat x). length c div ?w)"
    using False max_absorb1 [of 1 ?w] by (simp add: par_chunks_rows_def Let_def comp_def length_inters_iter inters_len_def saturating_mul_def)
  also have "\<dots> = length (in_flat x) div ?w"
  proof (cases "?k * ?w \<le> usize_max")
    case True
    then have "min (?k * ?w) usize_max = ?k * ?w" by simp
    then show ?thesis using chunk_row_counts [of ?k ?w "in_flat x"] False by simp
  next
    case False
    then have "min (?k * ?w) usize_max = usize_max" "0 < usize_max" by (simp_all add: usize_max_def)
    then show ?thesis
      using assms by (cases "in_flat x = []") (simp_all add: chunks.simps [of _ "in_flat x"])
  qed
  finally show ?thesis using False by (simp add: inters_len_def)
qed

lemma exec_simple_sequential:
  assumes "\<not> runs_parallel E (inters_len x)" "exec_simple E cols x T obs = Inr (data, keys, n)"
  shows "n = inters_len x \<and> counted (length cols) (length obs) n (data, keys, n)"
proof -
  obtain rks where rks: "mapM (project_row E T cols obs) (inters_iter x) = Inr rks"
    "data = rows_to_cols (map fst rks) (length cols)" "keys = rows_to_cols (map snd rks) (length obs)" "n = inters_len x"
    using assms by (cases "mapM (project_row E T cols obs) (inters_iter x)")
      (auto simp: exec_simple_def Let_def simple_loop_rows push_all_eq)
  have "length rks = n" using mapM_length [OF rks(1)] length_inters_iter rks(4) by simp
  then show ?thesis
    using rks rows_to_cols_shape(2) [of "map fst rks"] rows_to_cols_shape(2) [of "map snd rks"] by (simp add: counted_def)
qed

lemma exec_simple_chunks:
  assumes "runs_parallel E (inters_len x)" "exec_simple E cols x T obs = Inr (data, keys, n)"
  shows "n = inters_len x \<and> (\<exists>m. m = sum_list (map (\<lambda>c. length (inters_iter c)) (par_chunks_rows (chunk_rows E (inters_len x)) x)) \<and>
    counted (length cols) (length obs) m (data, keys, n))"
proof -
  let ?f = "project_row (pure_engine E) T cols obs" and ?cs = "par_chunks_rows (chunk_rows E (inters_len x)) x"
  let ?cols = "\<lambda>rks. (rows_to_cols (map fst rks) (length cols), rows_to_cols (map snd rks) (length obs))"
  have loop: "mapM (\<lambda>chunk. simple_loop (pure_engine E) T cols obs (replicate (length cols) []) (replicate (length obs) [])
      (inters_iter chunk)) cs = and_then (mapM (\<lambda>chunk. mapM ?f (inters_iter chunk)) cs) (\<lambda>rkss. Inr (map ?cols rkss))" for cs
    by (induction cs) (auto simp: simple_loop_rows push_all_eq and_then_def split: sum.splits)
  have ext: "extend_all (replicate (length cols) []) (map fst (map ?cols rkss)) =
        Inr (rows_to_cols (map fst (concat rkss)) (length cols))"
      "extend_all (replicate (length obs) []) (map snd (map ?cols rkss)) =
        Inr (rows_to_cols (map snd (concat rkss)) (length obs))" for rkss
    using extend_all_rows [of "length cols" "map (map fst) rkss"] extend_all_rows [of "length obs" "map (map snd) rkss"]
    by (simp_all add: comp_def map_concat)
  have eq: "exec_simple E cols x T obs = and_then (mapM (\<lambda>chunk. mapM ?f (inters_iter chunk)) ?cs) (\<lambda>rkss.
      Inr (rows_to_cols (map fst (concat rkss)) (length cols), rows_to_cols (map snd (concat rkss)) (length obs), inters_len x))"
    using assms(1) by (simp only: exec_simple_def Let_def if_True loop and_then_assoc and_then_simps ext)
  obtain rkss where rkss: "mapM (\<lambda>chunk. mapM ?f (inters_iter chunk)) ?cs = Inr rkss"
    and cols: "data = rows_to_cols (map fst (concat rkss)) (length cols)" "keys = rows_to_cols (map snd (concat rkss)) (length obs)"
      "n = inters_len x"
    using assms(2) [unfolded eq] by (auto simp: flow)
  have "map length rkss = map (\<lambda>c. length (inters_iter c)) ?cs"
    using rkss mapM_length by (auto simp: mapM_Inr_iff intro!: nth_equalityI)
  then have "length (concat rkss) = sum_list (map (\<lambda>c. length (inters_iter c)) ?cs)" by (simp add: length_concat)
  then show ?thesis
    using cols rows_to_cols_shape(2) [of "map fst (concat rkss)"] rows_to_cols_shape(2) [of "map snd (concat rkss)"]
    by (intro conjI exI [of _ "length (concat rkss)"]) (simp_all only: counted_def length_map rows_to_cols_shape prod.case simp_thms)
qed

lemma exec_simple_counted:
  assumes "exec_simple E cols x T obs = Inr (data, keys, n)"
  shows "\<exists>m. counted (length cols) (length obs) m (data, keys, n) \<and> (length (in_flat x) \<le> usize_max \<longrightarrow> m = n)"
proof (cases "runs_parallel E (inters_len x)")
  case True
  then show ?thesis using exec_simple_chunks [OF True assms] par_chunks_count [of x E "inters_len x"] by blast
next
  case False
  then show ?thesis using exec_simple_sequential [OF False assms] by blast
qed

lemma extend_cols_shape:
  "wf_cols a data \<Longrightarrow> wf_cols b cols \<Longrightarrow> length data = length cols \<Longrightarrow>
   \<exists>d. extend_cols data cols = Inr d \<and> length d = length data \<and> wf_cols (a + b) d \<and> rows_of d (a + b) = rows_of data a @ rows_of cols b"
proof -
  assume wf: "wf_cols a data" "wf_cols b cols" "length data = length cols"
  let ?d = "map2 (@) data cols"
  have len: "length (data ! c) = a" "length (cols ! c) = b" if "c < length data" for c
    using wf that by (auto intro: wf_cols_length)
  have "wf_cols (a + b) ?d"
    using len wf(3) by (auto simp: wf_cols_def list_all_iff in_set_conv_nth)
  moreover have "row_at ?d i = (if i < a then row_at data i else row_at cols (i - a))" for i
    using len wf(3) by (auto simp: row_at_def nth_append intro!: nth_equalityI)
  then have "rows_of ?d (a + b) = rows_of data a @ rows_of cols b"
    by (auto simp: nth_append intro!: nth_equalityI)
  ultimately show ?thesis
    using wf(3) by (intro exI [of _ ?d]) (auto simp: extend_cols_zip)
qed

lemma fill_slots_shape:
  assumes "list_all (pred_option (\<lambda>c. length c = m)) out" "wf_cols m built" "length built = length (filter Option.is_none out)"
  shows "length (fill_slots out built) = length out \<and> wf_cols m (fill_slots out built)"
  using assms by (induction out built rule: fill_slots.induct) (auto simp: wf_cols_def)

lemma passthrough_shape:
  "passthrough_col T rs e = Inr pc \<Longrightarrow>
   pred_option (\<lambda>c. length c = length rs) pc \<and> (Option.is_none pc \<longleftrightarrow> \<not> is_passthrough e)"
  by (cases e) (auto simp: passthrough_col_def is_passthrough_def flow)

lemma mapM_wf: "mapM f es = Inr data \<Longrightarrow> (\<And>e c. e \<in> set es \<Longrightarrow> f e = Inr c \<Longrightarrow> length c = m) \<Longrightarrow> wf_cols m data \<and> length data = length es"
  by (simp add: mapM_Inr_iff wf_cols_def list_all_length) (metis nth_mem)

lemma eval_cols_shape:
  assumes "eval_cols E T es rs = Inr data"
  shows "wf_cols (length rs) data \<and> length data = length es"
proof (cases "runs_parallel E (length rs)")
  case True
  let ?f = "\<lambda>r. mapM (\<lambda>e. eval (pure_engine E) T e (Row [r])) es" and ?css = "chunks (chunk_rows E (length rs)) rs"
  have "mapM (eval_chunk (pure_engine E) T es) cs =
      and_then (mapM (mapM ?f) cs) (\<lambda>rss. Inr (map (\<lambda>rs. rows_to_cols rs (length es)) rss))" for cs
    by (induction cs) (auto simp: eval_chunk_rows and_then_def split: sum.splits)
  then have eq: "eval_cols E T es rs = and_then (visit (mapM ?f) ?css) (\<lambda>rs. Inr (rows_to_cols rs (length es)))"
    using True by (simp add: eval_cols_def visit_def and_then_assoc extend_all_rows)
  have "visit (mapM ?f) ?css = mapM ?f rs"
    by (simp only: visit_mapM concat_chunks [OF chunk_rows_pos])
  then obtain rows where rows: "mapM ?f rs = Inr rows" "data = rows_to_cols rows (length es)"
    using assms [unfolded eq] by (cases "mapM ?f rs") simp_all
  then show ?thesis using rows_to_cols_shape(2) [of rows "length es"] mapM_length [OF rows(1)] by simp
next
  case False
  then have "mapM (\<lambda>e. mapM (\<lambda>r. eval E T e (Row [r])) rs) es = Inr data" using assms by (simp add: eval_cols_def)
  then show ?thesis by (rule mapM_wf) (rule mapM_length)
qed

lemma build_cols_shape:
  assumes "build_cols_for_exprs E es rs T = Inr data"
  shows "wf_cols (length rs) data \<and> length data = length es"
proof -
  obtain out built where out: "mapM (passthrough_col T rs) es = Inr out"
    and built: "(if filter (\<lambda>e. \<not> is_passthrough e) es = [] then Inr []
       else eval_cols E T (filter (\<lambda>e. \<not> is_passthrough e) es) rs) = Inr built" "data = fill_slots out built"
    using assms by (auto simp: build_cols_for_exprs_def Let_def flow)
  have len: "length out = length es" using mapM_length [OF out] .
  have pc: "pred_option (\<lambda>c. length c = length rs) (out ! i)" "Option.is_none (out ! i) \<longleftrightarrow> \<not> is_passthrough (es ! i)"
    if "i < length es" for i
    using out that passthrough_shape [of T rs "es ! i" "out ! i"] by (simp_all add: mapM_Inr_iff)
  have "map Option.is_none out = map (\<lambda>e. \<not> is_passthrough e) es"
    using len pc(2) by (auto intro: nth_equalityI)
  from arg_cong [OF this, of "\<lambda>bs. length (filter id bs)"]
  have "length (filter Option.is_none out) = length (filter (\<lambda>e. \<not> is_passthrough e) es)"
    by (simp add: filter_map comp_def)
  moreover have "wf_cols (length rs) built" "length built = length (filter (\<lambda>e. \<not> is_passthrough e) es)"
    using built(1) eval_cols_shape [of E T "filter (\<lambda>e. \<not> is_passthrough e) es" rs built]
    by (cases "filter (\<lambda>e. \<not> is_passthrough e) es = []"; simp add: wf_cols_def)+
  moreover have "list_all (pred_option (\<lambda>c. length c = length rs)) out"
    using pc(1) len by (simp add: list_all_length)
  ultimately show ?thesis
    using fill_slots_shape [of "length rs" out built] len built(2) by simp
qed

lemma fused_counted:
  assumes "exec_no_join_fused E cols w T obs = Inr (data, keys, n)"
  shows "counted (length cols) (length obs) n (data, keys, n)"
proof -
  let ?es = "filter (\<lambda>e. int_alias e = None) (map ob_expr obs)"
  obtain t T' rs built where T: "T = t # T'"
    and data: "build_cols_for_exprs E (map sc_expr cols) rs T = Inr data" "n = length rs"
    and built: "(if ?es = [] then Inr [] else build_cols_for_exprs E ?es rs T) = Inr built"
      "keys = fill_slots (map (\<lambda>ob. alias_key data n (int_alias (ob_expr ob))) obs) built"
    using assms by (cases T) (auto simp: exec_no_join_fused_def Let_def flow)
  note d = build_cols_shape [OF data(1), folded data(2)]
  have "wf_cols n built \<and> length built = length ?es"
    using built(1) build_cols_shape [of E ?es rs T built] data(2) by (cases "?es = []") (simp_all add: wf_cols_def)
  moreover have slots: "list_all (pred_option (\<lambda>c. length c = n)) (map (\<lambda>ob. alias_key data n (int_alias (ob_expr ob))) obs)"
    using d by (auto simp: list_all_iff alias_key_def unwrap_or_def get_def wf_cols_def pred_option_def)
  moreover have "length (filter Option.is_none (map (\<lambda>ob. alias_key data n (int_alias (ob_expr ob))) obs)) = length ?es"
    by (simp add: filter_map comp_def alias_key_def Option.is_none_def)
  ultimately show ?thesis
    using d built(2) fill_slots_shape [OF slots, of built] by (simp add: counted_def)
qed

lemma aggregate_counted:
  assumes "exec_aggregate E core cols x T obs = Inr (data, keys, n)"
  shows "counted (length cols) (length obs) n (data, keys, n)"
proof -
  obtain rks where "data = rows_to_cols (map fst rks) (length cols)" "keys = rows_to_cols (map snd rks) (length obs)" "n = length rks"
    using assms by (auto simp: exec_aggregate_visit flow)
  then show ?thesis
    using rows_to_cols_shape(2) [of "map fst rks"] rows_to_cols_shape(2) [of "map snd rks"] by (simp add: counted_def)
qed

text \<open>Filtering never grows the store.\<close>

lemma keep_loop_length: "keep_loop p keep rows = Inr out \<Longrightarrow> length out \<le> length keep + length (concat rows)"
proof (induction rows arbitrary: keep)
  case (Cons r rows)
  then obtain b where "keep_loop p (if b then keep @ r else keep) rows = Inr out" by (auto simp: flow)
  then show ?case using Cons.IH [of "if b then keep @ r else keep"] by (auto split: if_splits)
qed simp

lemma filter_loop_length:
  "filter_loop p acc rows = Inr out \<Longrightarrow> length (in_flat out) \<le> length (in_flat acc) + length (concat rows)"
proof (induction rows arbitrary: acc)
  case (Cons r rows)
  then obtain b where "filter_loop p (if b then push_row r acc else acc) rows = Inr out" by (auto simp: flow)
  then show ?case using Cons.IH [of "if b then push_row r acc else acc"] by (auto simp: push_row_def split: if_splits)
qed simp

lemma chunks_exact_total: "length (concat (chunks_exact w xs)) \<le> length xs"
proof (induction w xs rule: chunks_exact.induct)
  case (1 w xs)
  then show ?case by (cases "w = 0 \<or> length xs < w") (auto simp: chunks_exact.simps [of w xs])
qed

lemma iter_total: "length (concat (inters_iter x)) \<le> length (in_flat x)"
  by (simp add: inters_iter_def chunks_exact_total)

lemma keep_chunks_length:
  "mapM (\<lambda>chunk. keep_loop p [] (inters_iter chunk)) cs = Inr parts \<Longrightarrow>
   length (concat parts) \<le> length (concat (map in_flat cs))"
proof (induction cs arbitrary: parts)
  case (Cons c cs)
  then obtain k ks where "keep_loop p [] (inters_iter c) = Inr k" "parts = k # ks"
    "mapM (\<lambda>chunk. keep_loop p [] (inters_iter chunk)) cs = Inr ks"
    by (auto simp: flow)
  then show ?case using Cons.IH [of ks] keep_loop_length [of p "[]" "inters_iter c" k] iter_total [of c] by simp
qed simp

lemma par_chunks_flat: "concat (map in_flat (par_chunks_rows k x)) = in_flat x"
proof -
  have "0 < saturating_mul (max k 1) (max (in_width x) 1)"
    by (auto simp: saturating_mul_def usize_max_def max_def)
  then show ?thesis
    by (simp only: par_chunks_rows_def Let_def map_map comp_def intersections.simps concat_chunks map_ident)
qed

lemma filter_where_length:
  assumes "filter_where E x w T = Inr y"
  shows "length (in_flat y) \<le> length (in_flat x)"
proof (cases w)
  case (Some ce)
  show ?thesis
  proof (cases "runs_parallel E (inters_len x)")
    case True
    let ?cs = "par_chunks_rows (chunk_rows E (inters_len x)) x"
    let ?run = "mapM (\<lambda>chunk. keep_loop (where_holds (pure_engine E) T ce) [] (inters_iter chunk)) ?cs"
    obtain parts where "?run = Inr parts" "in_flat y = concat parts"
      using assms True by (cases ?run) (simp_all add: Some filter_where_def, metis intersections.select_convs(2))
    then show ?thesis
      using keep_chunks_length par_chunks_flat by metis
  next
    case False
    then have "filter_loop (where_holds E T ce) (inters_new (in_width x)) (inters_iter x) = Inr y"
      using assms by (simp add: Some filter_where_def)
    from filter_loop_length [OF this] show ?thesis using iter_total [of x] by (simp add: inters_new_def)
  qed
qed (use assms in \<open>simp add: filter_where_def\<close>)

lemma core_rows_counted:
  assumes "core_rows E T core cols obs = Inr (data, keys, n)"
  shows "\<exists>m. counted (length cols) (length obs) m (data, keys, n) \<and>
    ((\<forall>x. build_core_intersections E core T = Inr x \<longrightarrow> length (in_flat x) \<le> usize_max) \<longrightarrow> m = n)"
proof -
  consider (fused) "exec_no_join_fused E cols (map_option compile (co_where core)) T obs = Inr (data, keys, n)"
    | (agg) x where "exec_aggregate E core cols x T obs = Inr (data, keys, n)"
    | (simple) x y where "build_core_intersections E core T = Inr x"
        "filter_where E x (map_option compile (co_where core)) T = Inr y" "exec_simple E cols y T obs = Inr (data, keys, n)"
    using assms by (auto simp: core_rows_def Let_def flow split: if_splits)
  then show ?thesis
  proof cases
    case fused
    then show ?thesis using fused_counted by blast
  next
    case agg
    then show ?thesis using aggregate_counted by blast
  next
    case simple
    obtain m where "counted (length cols) (length obs) m (data, keys, n)" "length (in_flat y) \<le> usize_max \<longrightarrow> m = n"
      using exec_simple_counted [OF simple(3)] by blast
    then show ?thesis
      using filter_where_length [OF simple(2)] simple(1) by (intro exI [of _ m]) auto
  qed
qed

section \<open>Stages keep the shape\<close>

definition rect :: "nat \<Rightarrow> columns \<Rightarrow> bool" where
  "rect w data \<longleftrightarrow> length data = w \<and> (\<exists>m. wf_cols m data)"

lemma rect_mapM:
  assumes "rect w data" "mapM f data = Inr data'" "\<And>c c'. f c = Inr c' \<Longrightarrow> length c' = g (length c)"
  shows "rect w data'"
proof -
  obtain m where "wf_cols m data" "length data = w" using assms(1) by (auto simp: rect_def)
  then have "wf_cols (g m) data' \<and> length data' = w"
    using mapM_wf [OF assms(2), of "g m"] assms(3) wf_cols_length by metis
  then show ?thesis by (auto simp: rect_def)
qed

lemma rect_map: "rect w data \<Longrightarrow> (\<And>c. length (f c) = g (length c)) \<Longrightarrow> rect w (map f data)"
  using rect_mapM [of w data "\<lambda>c. Inr (f c)" "map f data" g] by (simp add: mapM_total)

lemma retain_mask_length: "retain_mask col keep = Inr r \<Longrightarrow> length r = length (filter id (take (length col) keep))"
  by (induction col keep arbitrary: r rule: retain_mask.induct) (auto simp: flow split: if_splits)

lemma take_cells_length: "take_cells slots idx = Inr r \<Longrightarrow> length r = length idx"
  by (induction slots idx arbitrary: r rule: take_cells.induct) (auto simp: flow split: option.splits)

lemma rect_keep_mask: "apply_keep_mask data keep = Inr (data', n) \<Longrightarrow> rect w data \<Longrightarrow> rect w data'"
  using rect_mapM [of w data "\<lambda>col. retain_mask col keep" data' "\<lambda>m. length (filter id (take m keep))"] retain_mask_length
  by (auto simp: apply_keep_mask_def flow)

lemma rect_dedup: "dedup_cols R data n = Inr (data', n') \<Longrightarrow> rect w data \<Longrightarrow> rect w data'"
  using rect_keep_mask by (auto simp: dedup_cols_def flow)

lemma rect_distinct: "apply_distinct R d (data, keys, n) = Inr (data', keys', n') \<Longrightarrow> rect w data \<Longrightarrow> rect w data'"
  using rect_keep_mask by (auto simp: apply_distinct_def dedup_cols_and_keys_def flow split: if_splits)

lemma rect_top: "apply_top m (data, keys, n) = (data', keys', n') \<Longrightarrow> rect w data \<Longrightarrow> rect w data'"
  using rect_map [of w data "take k" "\<lambda>m. min m k" for k]
  by (auto simp: apply_top_def truncate_cols_def split: option.splits if_splits)

lemma rect_sort: "sort_cols R data keys obs n = Inr data' \<Longrightarrow> rect w data \<Longrightarrow> rect w data'"
  using rect_mapM [of w data "\<lambda>col. take_cells (map Some col) idx" data' "\<lambda>m. length idx" for idx] take_cells_length
  by (auto simp: sort_cols_def Let_def split: if_splits)

lemma slice_length: "slice a b c = Inr c' \<Longrightarrow> length c' = b - a"
  by (auto simp: slice_def split: if_splits)

lemma rect_limit: "apply_limit_cols data limit n = Inr (data', n') \<Longrightarrow> rect w data \<Longrightarrow> rect w data'"
  using rect_mapM [of w data "slice a b" data' "\<lambda>m. b - a" for a b, OF _ _ slice_length] rect_map [of w data "take k" "\<lambda>m. min m k" for k]
  by (auto simp: apply_limit_cols_def Let_def flow split: option.splits if_splits)

lemma rect_extend: "extend_cols data cols = Inr d \<Longrightarrow> rect w data \<Longrightarrow> rect w cols \<Longrightarrow> rect w d"
  using extend_cols_shape [of _ data _ cols] by (fastforce simp: rect_def)

lemma rect_query: "rect (length columns) data \<Longrightarrow> wf_query (build_query columns data n)"
  by (cases data) (auto simp: wf_query_def rect_def build_query_def row_count_def wf_cols_def list_all_iff)

lemma derive_length: "derive_column_names R cols = Inr names \<Longrightarrow> length names = length cols"
proof -
  have "derive_loop R i seen cols = Inr names \<Longrightarrow> length names = length cols" for i seen
    by (induction cols arbitrary: i seen names) (auto simp: flow)
  then show "derive_column_names R cols = Inr names \<Longrightarrow> length names = length cols"
    by (simp add: derive_column_names_def)
qed

lemma no_from_length: "no_from_row E cols = Inr row \<Longrightarrow> length row = length cols"
  by (induction cols arbitrary: row) (auto simp: flow split: expr.splits)

lemma run_core_stages:
  assumes "run_core E core obs = Inr r" "resolve_tables E core = Inr T" "T \<noteq> []"
  obtains core' cols obs' rows rows' where
    "derive_column_names (en_rt E) cols = Inr (cr_columns r)" "core_rows E T core' cols obs' = Inr rows"
    "apply_distinct (en_rt E) (co_distinct core') rows = Inr rows'"
    "apply_top (co_top core') rows' = (cr_data r, cr_sort_keys r, cr_row_count r)"
proof -
  obtain expanded where x: "expand_columns (co_columns core) T = Inr expanded"
    using assms by (auto simp: run_core_def flow)
  obtain core' cols obs' where b: "bind_core (en_rt E) T (core, expanded, obs) = (core', cols, obs')"
    by (cases "bind_core (en_rt E) T (core, expanded, obs)") auto
  obtain names rows rows' where "derive_column_names (en_rt E) cols = Inr names" "core_rows E T core' cols obs' = Inr rows"
    "apply_distinct (en_rt E) (co_distinct core') rows = Inr rows'"
    "r = (case apply_top (co_top core') rows' of (data, keys, n) \<Rightarrow>
       \<lparr> cr_columns = names, cr_row_count = n, cr_data = data, cr_sort_keys = keys \<rparr>)"
    using assms x b by (auto simp: run_core_def flow Let_def case_prod_unfold)
  then show thesis
    by (intro that [of cols core' obs' rows rows']) (simp_all add: case_prod_unfold)
qed

lemma run_core_shape:
  assumes r: "run_core E core obs = Inr r"
  shows "rect (length (cr_columns r)) (cr_data r)"
proof -
  obtain T where T: "resolve_tables E core = Inr T" using assms by (auto simp: run_core_def flow)
  show ?thesis
  proof (cases "T = []")
    case True
    then obtain row where "no_from_row E (co_columns core) = Inr row" "cr_data r = map (\<lambda>v. [v]) row"
      "derive_column_names (en_rt E) (co_columns core) = Inr (cr_columns r)"
      using assms T by (auto simp: run_core_def run_no_from_def flow)
    then show ?thesis
      using no_from_length [of E "co_columns core" row] derive_length [of "en_rt E" "co_columns core" "cr_columns r"]
      by (auto simp: rect_def wf_cols_def list_all_iff intro: exI [of _ 1])
  next
    case False
    obtain core' cols obs' rows rows' where st: "derive_column_names (en_rt E) cols = Inr (cr_columns r)"
      "core_rows E T core' cols obs' = Inr rows" "apply_distinct (en_rt E) (co_distinct core') rows = Inr rows'"
      "apply_top (co_top core') rows' = (cr_data r, cr_sort_keys r, cr_row_count r)"
      by (rule run_core_stages [OF r T False])
    obtain data keys n data' keys' n' where rows: "rows = (data, keys, n)" "rows' = (data', keys', n')"
      by (cases rows; cases rows') auto
    have "rect (length cols) data"
      using core_rows_counted [OF st(2) [unfolded rows]] by (auto simp: counted_def rect_def)
    then have "rect (length cols) (cr_data r)"
      using rect_distinct [OF st(3) [unfolded rows]] rect_top [OF st(4) [unfolded rows]] by blast
    then show ?thesis using derive_length [OF st(1)] by simp
  qed
qed

lemma union_loop_shape:
  "union_loop E columns data n us = Inr (data', n') \<Longrightarrow> rect (length columns) data \<Longrightarrow> rect (length columns) data'"
proof (induction us arbitrary: data n)
  case (Cons u us)
  then obtain arm d where arm: "run_core E (un_select u) [] = Inr arm" "length (cr_columns arm) = length columns"
    "extend_cols data (cr_data arm) = Inr d" "union_loop E columns d (n + cr_row_count arm) us = Inr (data', n')"
    by (auto simp: flow split: if_splits)
  have "rect (length columns) d"
    using rect_extend [OF arm(3) Cons.prems(2)] run_core_shape [OF arm(1)] arm(2) by simp
  then show ?case by (rule Cons.IH [OF arm(4)])
qed simp

lemma finish_shape:
  assumes "finish E columns data keys obs limit n = Inr q" "rect (length columns) data"
  shows "wf_query q"
proof -
  obtain d d' n' where q: "sort_cols (en_rt E) data keys obs n = Inr d" "apply_limit_cols d limit n = Inr (d', n')"
    "q = build_query columns d' n'"
    using assms(1) by (auto simp: finish_def flow)
  show ?thesis
    unfolding q(3) by (rule rect_query, rule rect_limit [OF q(2)], rule rect_sort [OF q(1) assms(2)])
qed

lemma run_select_shape:
  assumes "run_select E body unions obs limit = Inr q"
  shows "wf_query q"
proof -
  obtain r where r: "run_core E body (if unions = [] then obs else []) = Inr r" using assms by (auto simp: run_select_def flow)
  note shape = run_core_shape [OF r]
  show ?thesis
  proof (cases "unions = []")
    case True
    then show ?thesis using assms r by (intro finish_shape [OF _ shape]) (simp add: run_select_def)
  next
    case False
    then obtain d n d' n' ks where u: "union_loop E (cr_columns r) (cr_data r) (cr_row_count r) unions = Inr (d, n)"
      "(if list_ex (\<lambda>u. \<not> un_all u) unions then dedup_cols (en_rt E) d n else Inr (d, n)) = Inr (d', n')"
      "finish E (cr_columns r) d' ks obs limit n' = Inr q"
      using assms r by (auto simp: run_select_def flow)
    have "rect (length (cr_columns r)) d'"
      using union_loop_shape [OF u(1) shape] u(2) rect_dedup by (cases "list_ex (\<lambda>u. \<not> un_all u) unions") auto
    then show ?thesis by (rule finish_shape [OF u(3)])
  qed
qed

section \<open>Total stages\<close>

abbreviation one_kind_cols :: "columns \<Rightarrow> bool" where
  "one_kind_cols \<equiv> list_all (\<lambda>col. one_kind (set col))"

lemma one_kind_subset: "one_kind V \<Longrightarrow> W \<subseteq> V \<Longrightarrow> one_kind W"
  unfolding one_kind_def by blast

lemma one_kind_cols_gather:
  assumes "one_kind_cols keys" "wf_cols n keys" "set idx \<subseteq> {..<n}"
  shows "one_kind_cols (gather idx keys)"
proof -
  have "one_kind (set (map ((!) col) idx))" if "col \<in> set keys" for col
  proof (rule one_kind_subset)
    show "one_kind (set col)" using assms(1) that by (simp add: list_all_iff)
    show "set (map ((!) col) idx) \<subseteq> set col"
      using assms(3) wf_cols_length [OF assms(2) that] by auto
  qed
  then show ?thesis by (simp add: list_all_iff gather_def)
qed

lemma distinct_counted:
  assumes "counted wd wk n (data, keys, n)"
  shows "\<exists>data' keys' n'. apply_distinct R d (data, keys, n) = Inr (data', keys', n') \<and>
    counted wd wk n' (data', keys', n') \<and> (one_kind_cols keys \<longrightarrow> one_kind_cols keys')"
proof (cases d)
  case True
  let ?idx = "kept (insert_mask {} (map (group_key R) (rows_of data n)))"
  have wf: "wf_cols n data" "wf_cols n keys" using assms by (simp_all add: counted_def)
  have "set ?idx \<subseteq> {..<n}" using kept_bound [of "insert_mask {} (map (group_key R) (rows_of data n))"] by simp
  then have "one_kind_cols keys \<longrightarrow> one_kind_cols (gather ?idx keys)"
    using one_kind_cols_gather [OF _ wf(2)] by blast
  moreover have "counted wd wk (length ?idx) (gather ?idx data, gather ?idx keys, length ?idx)"
    using assms wf_gather [of ?idx data] wf_gather [of ?idx keys] by (simp add: counted_def)
  ultimately show ?thesis using dedup_cols_rows(2) [OF wf] True by (simp add: apply_distinct_def)
qed (use assms in \<open>simp add: apply_distinct_def\<close>)

lemma top_counted:
  assumes "counted wd wk n (data, keys, n)" "apply_top tp (data, keys, n) = (data', keys', n')"
  shows "counted wd wk n' (data', keys', n')"
  using assms by (auto simp: apply_top_def counted_def truncate_cols_def wf_cols_def list_all_iff split: option.splits if_splits)

lemma top_one_kind:
  assumes "one_kind_cols keys" "apply_top tp (data, keys, n) = (data', keys', n')"
  shows "one_kind_cols keys'"
proof -
  have "one_kind_cols (map (take m) keys)" for m
    using assms(1) one_kind_subset [OF _ set_take_subset] by (simp add: list_all_iff)
  then show ?thesis
    using assms by (auto simp: apply_top_def truncate_cols_def split: option.splits if_splits)
qed

lemma sort_total:
  assumes "wf_cols n data"
  shows "\<exists>d. sort_cols R data keys obs n = Inr d \<and> wf_cols n d"
proof (cases "obs = [] \<or> n < 2")
  case False
  let ?idx = "sort_by (order_cmp R keys 0 (map ob_direction obs)) [0..<n]"
  have "length ?idx = n" by simp
  then show ?thesis
    using False sort_cols_gather [OF assms, of obs R keys] wf_gather [of ?idx data] by simp
qed (use assms in \<open>simp add: sort_cols_def\<close>)

lemma finish_total:
  assumes "wf_cols n data" "pred_option (\<lambda>l. lm_offset l \<le> usize_max) limit"
  shows "\<exists>q. finish E columns data keys obs limit n = Inr q"
proof -
  obtain d where d: "sort_cols (en_rt E) data keys obs n = Inr d" "wf_cols n d" using sort_total [OF assms(1)] by blast
  have "\<exists>r. apply_limit_cols d limit n = Inr r"
    using assms(2) apply_limit_gather [OF d(2)] by (cases limit) (auto simp: apply_limit_cols_def)
  then show ?thesis by (auto simp: finish_def d(1))
qed

section \<open>Properties\<close>

text \<open>C9: Results are well formed. Whatever the statement, its sub-selects, joins, grouping, DISTINCT,
  UNION and LIMIT, a query that succeeds returns one vector per output column, all of one length.\<close>

theorem execute_well_formed:
  assumes "execute E stmt = Inr q"
  shows "wf_query q"
proof (cases stmt)
  case (SelectStatement body unions obs limit)
  then show ?thesis using assms run_select_shape by (auto simp: execute_def)
qed

definition select_one :: select_statement where
  "select_one = SelectStatement (SelectCore False None [SelectColumn (Literal (VInt 1)) (Some (str ''n''))] None [] None [] None) [] [] None"

lemma execute_select_one: "execute (plain_env []) select_one = Inr \<lparr> q_columns = [str ''n''], q_data = [[VInt 1]] \<rparr>"
  by (simp add: execute_def select_one_def run_select_def run_core_def resolve_tables_def run_no_from_def derive_column_names_def
     finish_def sort_cols_def apply_limit_cols_def build_query_def base_name_def)

theorem execute_well_formed_witness:
  "wf_query \<lparr> q_columns = [str ''n''], q_data = [[VInt 1]] \<rparr>"
  by (rule execute_well_formed [OF execute_select_one])

text \<open>C15: After the rows are built nothing panics, for sort keys each of one kind of value (strings;
  whole numbers and booleans; numbers; dates; with NULLs). Once the rows of a core have been
  computed, with a store of row combinations whose size is a machine number, DISTINCT and TOP
  return; the comparator that ORDER BY then gives to the standard library's sort is a total order,
  which that sort requires and may panic without; and sorting, LIMIT and the construction of the
  result return: no index or slice is out of range, whatever the clauses.\<close>

theorem result_stages_total:
  assumes "unicode_laws (en_rt E)" and "core_rows E T core cols obs = Inr rows"
    and "\<forall>x. build_core_intersections E core T = Inr x \<longrightarrow> length (in_flat x) \<le> usize_max"
    and "list_all (\<lambda>col. one_kind (set col)) (fst (snd rows))"
    and "pred_option (\<lambda>l. lm_offset l \<le> usize_max) limit"
  shows "\<exists>data keys n q.
    and_then (apply_distinct (en_rt E) d rows) (\<lambda>rows'. Inr (apply_top tp rows')) = Inr (data, keys, n) \<and>
    comparator_on UNIV (order_cmp (en_rt E) keys 0 (map ob_direction obs)) \<and>
    finish E columns data keys obs limit n = Inr q"
proof -
  obtain data keys n where rows: "rows = (data, keys, n)" by (cases rows)
  have "counted (length cols) (length obs) n (data, keys, n)"
    using core_rows_counted [OF assms(2) [unfolded rows]] assms(3) by blast
  from distinct_counted [OF this, of "en_rt E" d] assms(4) obtain d1 k1 n1 where
    1: "apply_distinct (en_rt E) d rows = Inr (d1, k1, n1)" "counted (length cols) (length obs) n1 (d1, k1, n1)"
      "one_kind_cols k1"
    by (auto simp: rows)
  obtain d2 k2 n2 where 2: "apply_top tp (d1, k1, n1) = (d2, k2, n2)" by (cases "apply_top tp (d1, k1, n1)")
  have "wf_cols n2 d2" using top_counted [OF 1(2) 2] by (simp add: counted_def)
  then obtain q where "finish E columns d2 k2 obs limit n2 = Inr q" using finish_total [OF _ assms(5)] by blast
  moreover have "comparator_on UNIV (order_cmp (en_rt E) k2 0 (map ob_direction obs))"
    by (rule order_cmp_comparator [OF assms(1) top_one_kind [OF 1(3) 2]])
  ultimately show ?thesis using 1(1) 2 by simp
qed

lemma core_rows_example:
  "core_rows (plain_env []) [column_table ''a'' [VInt 7]] (SelectCore False None [] None [] None [] None)
     [SelectColumn column_x None] [OrderByExpr column_x Desc] = Inr ([[VInt 7]], [[VInt 7]], 1)"
  by (simp add: core_rows_def Let_def exec_no_join_fused_def survivors_of_def column_x_def build_cols_for_exprs_def
      passthrough_col_def source_column_def column_table_def passthrough_cell_def is_passthrough_def int_alias_def
      alias_key_def unwrap_or_def)

theorem result_stages_total_witness:
  "\<exists>data keys n q. and_then (apply_distinct (en_rt (plain_env [])) True ([[VInt 7]], [[VInt 7]], 1))
      (\<lambda>rows'. Inr (apply_top (Some 5) rows')) = Inr (data, keys, n) \<and>
    comparator_on UNIV (order_cmp (en_rt (plain_env [])) keys 0 (map ob_direction [OrderByExpr column_x Desc])) \<and>
    finish (plain_env []) [str ''x''] data keys [OrderByExpr column_x Desc] (Some (LimitClause 3 2)) n = Inr q"
  by (rule result_stages_total [OF _ core_rows_example])
     (simp_all add: build_single inters_of_def seed_def column_table_def usize_max_def one_kind_def int_cells_def)

text \<open>C25: UNION. The arms are appended in order: if each arm has run and reports its rows truly, the
  result is the rows of the first core followed by those of the arms, duplicates included; the first
  arm with another number of columns is the error, naming both numbers.\<close>

theorem union_rows:
  assumes "mapM (\<lambda>u. run_core E (un_select u) []) us = Inr arms" "rect (length columns) data" "wf_cols n data"
    and "\<forall>a \<in> set arms. wf_cols (cr_row_count a) (cr_data a)"
  shows "case find (\<lambda>a. length (cr_columns a) \<noteq> length columns) arms of
      Some a \<Rightarrow> union_loop E columns data n us = Inl (UnionMismatch (length columns) (length (cr_columns a)))
    | None \<Rightarrow> \<exists>d m. union_loop E columns data n us = Inr (d, m) \<and> m = n + sum_list (map cr_row_count arms) \<and>
        rows_of d m = rows_of data n @ concat (map (\<lambda>a. rows_of (cr_data a) (cr_row_count a)) arms)"
  using assms
proof (induction us arbitrary: arms data n)
  case (Cons u us)
  then obtain arm arms' where arm: "run_core E (un_select u) [] = Inr arm" "arms = arm # arms'"
    "mapM (\<lambda>u. run_core E (un_select u) []) us = Inr arms'" by (auto simp: flow)
  show ?case
  proof (cases "length (cr_columns arm) = length columns")
    case True
    have "length data = length (cr_data arm)"
      using Cons.prems(2) run_core_shape [OF arm(1)] True by (simp add: rect_def)
    then obtain d where d: "extend_cols data (cr_data arm) = Inr d" "length d = length data"
      "wf_cols (n + cr_row_count arm) d"
      "rows_of d (n + cr_row_count arm) = rows_of data n @ rows_of (cr_data arm) (cr_row_count arm)"
      using extend_cols_shape [OF Cons.prems(3), of "cr_row_count arm" "cr_data arm"] Cons.prems(4) arm(2) by auto
    have "rect (length columns) d" using d Cons.prems(2) by (auto simp: rect_def)
    from Cons.IH [OF arm(3) this d(3)] Cons.prems(4) show ?thesis
      by (auto simp: arm(1,2) True d(1,4) add.assoc split: option.splits)
  qed (simp add: arm(1,2))
qed simp

theorem union_rows_witness:
  "\<exists>d. union_loop (plain_env []) [str ''n''] [[VInt 7]] 1 [Union_arm True (SelectCore False None
        [SelectColumn (Literal (VInt 1)) (Some (str ''n''))] None [] None [] None)] = Inr (d, 2) \<and>
     rows_of d 2 = [[VInt 7], [VInt 1]]"
proof -
  let ?core = "SelectCore False None [SelectColumn (Literal (VInt 1)) (Some (str ''n''))] None [] None [] None :: sub select_core"
  let ?arm = "\<lparr> cr_columns = [str ''n''], cr_row_count = 1, cr_data = [[VInt 1]], cr_sort_keys = [] \<rparr>"
  have "mapM (\<lambda>u. run_core (plain_env []) (un_select u) []) [Union_arm True ?core] = Inr [?arm]"
    by (simp add: run_core_def resolve_tables_def run_no_from_def derive_column_names_def base_name_def)
  from union_rows [OF this, of "[str ''n'']" "[[VInt 7]]" 1] show ?thesis
    by (auto simp: rect_def wf_cols_def rows_of_def row_at_def upt_rec simp del: union_loop.simps)
qed

end
