(* ===== verification/Lexer.thy ===== *)
theory Lexer
  imports Values
begin

text \<open>
  The SQL tokenizer (\<open>cfml-qoq/src/lexer.rs\<close>): a vector of characters and a position, one
  definition per method and one terminating function per loop.
\<close>

section \<open>Tokens\<close>

text \<open>The groups of the enumeration as the source lists them.\<close>

datatype (plugins only: code size) keyword =
    KSelect | KFrom | KWhere | KAnd | KOr | KNot | KIn | KBetween | KLike | KEscape | KIs
   | KNull | KTrue | KFalse | KAs | KOn | KOrder | KBy | KAsc | KDesc | KGroup | KHaving
   | KLimit | KOffset | KTop | KDistinct | KCase | KWhen | KThen | KElse | KEnd | KExists
   | KCast | KConvert

datatype (plugins only: code size) join_word =
    JJoin | JInner | JLeft | JRight | JFull | JOuter | JCross | JUnion | JAll

datatype (plugins only: code size) symbol =
    SEq | SNeq | SNeq2 | SLt | SLte | SGt | SGte | SPlus | SMinus | SStar | SSlash | SMod
   | SConcat | SAmp | SPipe | SCaret | SLParen | SRParen | SComma | SDot | SParam

datatype token =
    Keyword keyword
  | JoinWord join_word
  | TIdentifier ustr | TString ustr | TNumber ustr | TNamedParam ustr
  | Symbol symbol
  | TEof | TError ustr

abbreviation TSelect :: token where "TSelect \<equiv> Keyword KSelect"
abbreviation TFrom :: token where "TFrom \<equiv> Keyword KFrom"
abbreviation TWhere :: token where "TWhere \<equiv> Keyword KWhere"
abbreviation TAnd :: token where "TAnd \<equiv> Keyword KAnd"
abbreviation TOr :: token where "TOr \<equiv> Keyword KOr"
abbreviation TNot :: token where "TNot \<equiv> Keyword KNot"
abbreviation TIn :: token where "TIn \<equiv> Keyword KIn"
abbreviation TBetween :: token where "TBetween \<equiv> Keyword KBetween"
abbreviation TLike :: token where "TLike \<equiv> Keyword KLike"
abbreviation TEscape :: token where "TEscape \<equiv> Keyword KEscape"
abbreviation TIs :: token where "TIs \<equiv> Keyword KIs"
abbreviation TNull :: token where "TNull \<equiv> Keyword KNull"
abbreviation TTrue :: token where "TTrue \<equiv> Keyword KTrue"
abbreviation TFalse :: token where "TFalse \<equiv> Keyword KFalse"
abbreviation TAs :: token where "TAs \<equiv> Keyword KAs"
abbreviation TOn :: token where "TOn \<equiv> Keyword KOn"
abbreviation TOrder :: token where "TOrder \<equiv> Keyword KOrder"
abbreviation TBy :: token where "TBy \<equiv> Keyword KBy"
abbreviation TAsc :: token where "TAsc \<equiv> Keyword KAsc"
abbreviation TDesc :: token where "TDesc \<equiv> Keyword KDesc"
abbreviation TGroup :: token where "TGroup \<equiv> Keyword KGroup"
abbreviation THaving :: token where "THaving \<equiv> Keyword KHaving"
abbreviation TLimit :: token where "TLimit \<equiv> Keyword KLimit"
abbreviation TOffset :: token where "TOffset \<equiv> Keyword KOffset"
abbreviation TTop :: token where "TTop \<equiv> Keyword KTop"
abbreviation TDistinct :: token where "TDistinct \<equiv> Keyword KDistinct"
abbreviation TCase :: token where "TCase \<equiv> Keyword KCase"
abbreviation TWhen :: token where "TWhen \<equiv> Keyword KWhen"
abbreviation TThen :: token where "TThen \<equiv> Keyword KThen"
abbreviation TElse :: token where "TElse \<equiv> Keyword KElse"
abbreviation TEnd :: token where "TEnd \<equiv> Keyword KEnd"
abbreviation TExists :: token where "TExists \<equiv> Keyword KExists"
abbreviation TCast :: token where "TCast \<equiv> Keyword KCast"
abbreviation TConvert :: token where "TConvert \<equiv> Keyword KConvert"

abbreviation TJoin :: token where "TJoin \<equiv> JoinWord JJoin"
abbreviation TInner :: token where "TInner \<equiv> JoinWord JInner"
abbreviation TLeft :: token where "TLeft \<equiv> JoinWord JLeft"
abbreviation TRight :: token where "TRight \<equiv> JoinWord JRight"
abbreviation TFull :: token where "TFull \<equiv> JoinWord JFull"
abbreviation TOuter :: token where "TOuter \<equiv> JoinWord JOuter"
abbreviation TCross :: token where "TCross \<equiv> JoinWord JCross"
abbreviation TUnion :: token where "TUnion \<equiv> JoinWord JUnion"
abbreviation TAll :: token where "TAll \<equiv> JoinWord JAll"

abbreviation TEq :: token where "TEq \<equiv> Symbol SEq"
abbreviation TNeq :: token where "TNeq \<equiv> Symbol SNeq"
abbreviation TNeq2 :: token where "TNeq2 \<equiv> Symbol SNeq2"
abbreviation TLt :: token where "TLt \<equiv> Symbol SLt"
abbreviation TLte :: token where "TLte \<equiv> Symbol SLte"
abbreviation TGt :: token where "TGt \<equiv> Symbol SGt"
abbreviation TGte :: token where "TGte \<equiv> Symbol SGte"
abbreviation TPlus :: token where "TPlus \<equiv> Symbol SPlus"
abbreviation TMinus :: token where "TMinus \<equiv> Symbol SMinus"
abbreviation TStar :: token where "TStar \<equiv> Symbol SStar"
abbreviation TSlash :: token where "TSlash \<equiv> Symbol SSlash"
abbreviation TMod :: token where "TMod \<equiv> Symbol SMod"
abbreviation TConcat :: token where "TConcat \<equiv> Symbol SConcat"
abbreviation TAmp :: token where "TAmp \<equiv> Symbol SAmp"
abbreviation TPipe :: token where "TPipe \<equiv> Symbol SPipe"
abbreviation TCaret :: token where "TCaret \<equiv> Symbol SCaret"
abbreviation TLParen :: token where "TLParen \<equiv> Symbol SLParen"
abbreviation TRParen :: token where "TRParen \<equiv> Symbol SRParen"
abbreviation TComma :: token where "TComma \<equiv> Symbol SComma"
abbreviation TDot :: token where "TDot \<equiv> Symbol SDot"
abbreviation TParam :: token where "TParam \<equiv> Symbol SParam"

record lexer =
  lx_chars :: ustr
  lx_pos :: nat

definition lexer_new :: "ustr \<Rightarrow> lexer" where
  "lexer_new input = \<lparr> lx_chars = input, lx_pos = 0 \<rparr>"

definition peek :: "lexer \<Rightarrow> uchar option" where
  "peek lx = get (lx_chars lx) (lx_pos lx)"

definition peek_at :: "lexer \<Rightarrow> nat \<Rightarrow> uchar option" where
  "peek_at lx k = get (lx_chars lx) (lx_pos lx + k)"

text \<open>\<open>advance\<close> moves the position even at the end of the input.\<close>

definition advance :: "lexer \<Rightarrow> uchar option \<times> lexer" where
  "advance lx = (get (lx_chars lx) (lx_pos lx), lx\<lparr>lx_pos := lx_pos lx + 1\<rparr>)"

definition skip_one :: "lexer \<Rightarrow> lexer" where
  "skip_one lx = snd (advance lx)"

text \<open>The input not yet consumed; it shrinks with every character taken.\<close>

definition rest :: "lexer \<Rightarrow> ustr" where
  "rest lx = drop (lx_pos lx) (lx_chars lx)"

abbreviation remaining :: "lexer \<Rightarrow> nat" where
  "remaining lx \<equiv> length (rest lx)"

lemma peek_rest: "peek lx = (case rest lx of [] \<Rightarrow> None | c # _ \<Rightarrow> Some c)"
  by (auto simp: peek_def rest_def get_def neq_Nil_conv Cons_nth_drop_Suc [symmetric] split: list.split
      dest: arg_cong [of _ _ length])

lemma rest_skip_one [simp]: "rest (skip_one lx) = tl (rest lx)"
  by (simp add: skip_one_def advance_def rest_def drop_Suc tl_drop)

lemma chars_skip_one [simp]: "lx_chars (skip_one lx) = lx_chars lx"
  by (simp add: skip_one_def advance_def)

lemma advance_eq: "advance lx = (peek lx, skip_one lx)"
  by (simp add: advance_def peek_def skip_one_def)

lemma peek_at_rest: "peek_at lx k = get (rest lx) k"
  by (simp add: peek_at_def rest_def get_def add.commute) (auto simp: add.commute)

lemma peek_Some_iff: "peek lx = Some c \<longleftrightarrow> (\<exists>r. rest lx = c # r)"
  by (simp add: peek_rest split: list.split)

lemma peek_None_iff: "peek lx = None \<longleftrightarrow> rest lx = []"
  by (simp add: peek_rest split: list.split)

section \<open>Whitespace and comments\<close>

abbreviation newline :: uchar where
  "newline \<equiv> 10"

function skip_line_comment :: "lexer \<Rightarrow> lexer" where
  "skip_line_comment lx =
     (case peek lx of
        None \<Rightarrow> lx
      | Some c \<Rightarrow> if c = newline then skip_one lx else skip_line_comment (skip_one lx))"
  by auto
termination
  by (relation "measure remaining") (auto simp: peek_Some_iff)

function skip_block_comment :: "lexer \<Rightarrow> lexer" where
  "skip_block_comment lx =
     (case peek lx of
        None \<Rightarrow> skip_one lx
      | Some c \<Rightarrow>
          if c = ch CHR ''*'' \<and> peek (skip_one lx) = Some (ch CHR ''/'')
          then skip_one (skip_one lx)
          else skip_block_comment (skip_one lx))"
  by auto
termination
  by (relation "measure remaining") (auto simp: peek_Some_iff)

declare skip_line_comment.simps [simp del] skip_block_comment.simps [simp del]

lemma skip_line_comment_rest:
  "rest (skip_line_comment lx) = tl (dropWhile (\<lambda>c. c \<noteq> newline) (rest lx))"
  by (induction lx rule: skip_line_comment.induct)
     (subst skip_line_comment.simps, auto simp: peek_rest split: list.splits)

lemma skip_line_comment_chars [simp]: "lx_chars (skip_line_comment lx) = lx_chars lx"
  by (induction lx rule: skip_line_comment.induct)
     (subst skip_line_comment.simps, auto split: option.splits)

lemma skip_block_comment_len: "remaining (skip_block_comment lx) \<le> remaining lx"
proof (induction lx rule: skip_block_comment.induct)
  case (1 lx)
  then show ?case
    by (subst skip_block_comment.simps) (auto simp: peek_rest split: list.splits intro: le_trans)
qed

lemma skip_block_comment_chars [simp]: "lx_chars (skip_block_comment lx) = lx_chars lx"
  by (induction lx rule: skip_block_comment.induct)
     (subst skip_block_comment.simps, auto split: option.splits)

function skip_trivia :: "lexer \<Rightarrow> lexer" where
  "skip_trivia lx =
     (case peek lx of
        None \<Rightarrow> lx
      | Some c \<Rightarrow>
          if is_ascii_whitespace c then skip_trivia (skip_one lx)
          else if c = ch CHR ''-'' \<and> peek_at lx 1 = Some (ch CHR ''-'')
          then skip_trivia (skip_line_comment lx)
          else if c = ch CHR ''/'' \<and> peek_at lx 1 = Some (ch CHR ''*'')
          then skip_trivia (skip_block_comment (skip_one (skip_one lx)))
          else lx)"
  by auto
termination
proof (relation "measure remaining")
  fix lx c
  assume *: "peek lx = Some c"
  then obtain r where r: "rest lx = c # r"
    by (auto simp: peek_Some_iff)
  show "(skip_one lx, lx) \<in> measure remaining"
    using r by simp
  show "(skip_block_comment (skip_one (skip_one lx)), lx) \<in> measure remaining"
    using skip_block_comment_len [of "skip_one (skip_one lx)"] r by simp
  show "(skip_line_comment lx, lx) \<in> measure remaining"
    if "c = ch CHR ''-'' \<and> peek_at lx 1 = Some (ch CHR ''-'')"
    using r that length_dropWhile_le [of "\<lambda>c. c \<noteq> newline" r]
    by (simp add: skip_line_comment_rest)
qed auto

declare skip_trivia.simps [simp del]

lemma skip_trivia_len: "remaining (skip_trivia lx) \<le> remaining lx"
proof (induction lx rule: skip_trivia.induct)
  case (1 lx)
  show ?case
  proof (cases "peek lx")
    case None
    then show ?thesis
      by (subst skip_trivia.simps) simp
  next
    case (Some c)
    have "remaining (skip_one k) \<le> remaining k" "remaining (skip_line_comment k) \<le> remaining k" for k
      using length_dropWhile_le [of "\<lambda>c. c \<noteq> newline" "rest k"]
      by (auto simp: skip_line_comment_rest)
    then show ?thesis
      using 1 Some skip_block_comment_len [of "skip_one (skip_one lx)"]
      by (subst skip_trivia.simps) (auto intro: le_trans)
  qed
qed

lemma skip_trivia_chars [simp]: "lx_chars (skip_trivia lx) = lx_chars lx"
  by (induction lx rule: skip_trivia.induct) (subst skip_trivia.simps, auto split: option.splits)

section \<open>Literals, identifiers and parameters\<close>

function read_number_loop :: "bool \<Rightarrow> ustr \<Rightarrow> lexer \<Rightarrow> ustr \<times> lexer" where
  "read_number_loop seen_dot s lx =
     (case peek lx of
        None \<Rightarrow> (s, lx)
      | Some c \<Rightarrow>
          if is_ascii_digit c then read_number_loop seen_dot (s @ [c]) (skip_one lx)
          else if c = ch CHR ''.'' \<and> \<not> seen_dot then read_number_loop True (s @ [c]) (skip_one lx)
          else (s, lx))"
  by auto
termination
  by (relation "measure (\<lambda>(_, _, lx). remaining lx)") (auto simp: peek_Some_iff)

definition read_number :: "uchar \<Rightarrow> lexer \<Rightarrow> token \<times> lexer" where
  "read_number first lx =
     (let (s, lx') = read_number_loop (first = ch CHR ''.'') [first] lx in (TNumber s, lx'))"

text \<open>The loop shared by \<open>read_string\<close> and \<open>read_quoted_ident\<close>: up to the closing
  character, a doubled one standing for itself. \<open>None\<close> when the input ends first.\<close>

function read_delimited :: "uchar \<Rightarrow> ustr \<Rightarrow> lexer \<Rightarrow> ustr option \<times> lexer" where
  "read_delimited close s lx =
     (case peek lx of
        None \<Rightarrow> (None, skip_one lx)
      | Some c \<Rightarrow>
          if c = close
          then if peek (skip_one lx) = Some close
               then read_delimited close (s @ [close]) (skip_one (skip_one lx))
               else (Some s, skip_one lx)
          else read_delimited close (s @ [c]) (skip_one lx))"
  by auto
termination
  by (relation "measure (\<lambda>(_, _, lx). remaining lx)") (auto simp: peek_Some_iff)

definition read_string :: "lexer \<Rightarrow> token \<times> lexer" where
  "read_string lx =
     (case read_delimited (ch CHR 0x27) [] lx of
        (Some s, lx') \<Rightarrow> (TString s, lx')
      | (None, lx') \<Rightarrow> (TError (str ''unterminated string literal''), lx'))"

definition read_quoted_ident :: "uchar \<Rightarrow> lexer \<Rightarrow> token \<times> lexer" where
  "read_quoted_ident close lx =
     (case read_delimited close [] lx of
        (Some s, lx') \<Rightarrow> (TIdentifier s, lx')
      | (None, lx') \<Rightarrow> (TError (str ''unterminated quoted identifier''), lx'))"

function read_while :: "(uchar \<Rightarrow> bool) \<Rightarrow> ustr \<Rightarrow> lexer \<Rightarrow> ustr \<times> lexer" where
  "read_while p s lx =
     (case peek lx of
        None \<Rightarrow> (s, lx)
      | Some c \<Rightarrow> if p c then read_while p (s @ [c]) (skip_one lx) else (s, lx))"
  by auto
termination
  by (relation "measure (\<lambda>(_, _, lx). remaining lx)") (auto simp: peek_Some_iff)

declare read_number_loop.simps [simp del] read_delimited.simps [simp del] read_while.simps [simp del]

definition keyword_table :: "(ustr \<times> token) list" where
  "keyword_table =
     [(str ''SELECT'', TSelect), (str ''FROM'', TFrom), (str ''WHERE'', TWhere), (str ''AND'', TAnd),
      (str ''OR'', TOr), (str ''NOT'', TNot), (str ''IN'', TIn), (str ''BETWEEN'', TBetween),
      (str ''LIKE'', TLike), (str ''ESCAPE'', TEscape), (str ''IS'', TIs), (str ''NULL'', TNull),
      (str ''TRUE'', TTrue), (str ''FALSE'', TFalse), (str ''AS'', TAs), (str ''ON'', TOn),
      (str ''ORDER'', TOrder), (str ''BY'', TBy), (str ''ASC'', TAsc), (str ''DESC'', TDesc),
      (str ''GROUP'', TGroup), (str ''HAVING'', THaving), (str ''LIMIT'', TLimit),
      (str ''OFFSET'', TOffset), (str ''TOP'', TTop), (str ''DISTINCT'', TDistinct),
      (str ''CASE'', TCase), (str ''WHEN'', TWhen), (str ''THEN'', TThen), (str ''ELSE'', TElse),
      (str ''END'', TEnd), (str ''EXISTS'', TExists), (str ''CAST'', TCast),
      (str ''CONVERT'', TConvert), (str ''JOIN'', TJoin), (str ''INNER'', TInner),
      (str ''LEFT'', TLeft), (str ''RIGHT'', TRight), (str ''FULL'', TFull), (str ''OUTER'', TOuter),
      (str ''CROSS'', TCross), (str ''UNION'', TUnion), (str ''ALL'', TAll)]"

definition keyword_or_identifier :: "runtime \<Rightarrow> ustr \<Rightarrow> token" where
  "keyword_or_identifier R s =
     (case map_of keyword_table (rt_upper R s) of Some t \<Rightarrow> t | None \<Rightarrow> TIdentifier s)"

definition is_word_char :: "runtime \<Rightarrow> uchar \<Rightarrow> bool" where
  "is_word_char R c \<longleftrightarrow> rt_alphanumeric R c \<or> c = ch CHR ''_'' \<or> c = ch CHR ''$''"

definition read_identifier_or_keyword :: "runtime \<Rightarrow> uchar \<Rightarrow> lexer \<Rightarrow> token \<times> lexer" where
  "read_identifier_or_keyword R first lx =
     (let (s, lx') = read_while (is_word_char R) [first] lx in (keyword_or_identifier R s, lx'))"

definition read_named_param :: "runtime \<Rightarrow> lexer \<Rightarrow> token \<times> lexer" where
  "read_named_param R lx =
     (let (name, lx') = read_while (\<lambda>c. rt_alphanumeric R c \<or> c = ch CHR ''_'') [] lx
      in (if name = [] then TError (str ''expected name after '' @ [39] @ str '':'' @ [39]) else TNamedParam name, lx'))"

section \<open>The tokenizer\<close>

definition scan_token :: "runtime \<Rightarrow> uchar \<Rightarrow> lexer \<Rightarrow> token \<times> lexer" where
  "scan_token R c lx =
     (let two = (\<lambda>d t e. if peek lx = Some d then (t, skip_one lx) else e)
      in
      if c = ch CHR ''='' then (TEq, lx)
      else if c = ch CHR ''<'' then two (ch CHR ''>'') TNeq (two (ch CHR ''='') TLte (TLt, lx))
      else if c = ch CHR ''>'' then two (ch CHR ''='') TGte (TGt, lx)
      else if c = ch CHR ''!'' then two (ch CHR ''='') TNeq2 (TError (str ''unexpected '' @ [39] @ str ''!'' @ [39]), lx)
      else if c = ch CHR ''+'' then (TPlus, lx)
      else if c = ch CHR ''-'' then (TMinus, lx)
      else if c = ch CHR ''*'' then (TStar, lx)
      else if c = ch CHR ''/'' then (TSlash, lx)
      else if c = ch CHR ''%'' then (TMod, lx)
      else if c = ch CHR ''|'' then two (ch CHR ''|'') TConcat (TPipe, lx)
      else if c = ch CHR ''&'' then (TAmp, lx)
      else if c = ch CHR ''^'' then (TCaret, lx)
      else if c = ch CHR ''('' then (TLParen, lx)
      else if c = ch CHR '')'' then (TRParen, lx)
      else if c = ch CHR '','' then (TComma, lx)
      else if c = ch CHR ''.''
      then (if (case peek lx of Some d \<Rightarrow> is_ascii_digit d | None \<Rightarrow> False)
            then read_number (ch CHR ''.'') lx else (TDot, lx))
      else if c = ch CHR ''?'' then (TParam, lx)
      else if c = ch CHR '':'' then read_named_param R lx
      else if c = ch CHR 0x27 then read_string lx
      else if c = ch CHR 0x22 then read_quoted_ident (ch CHR 0x22) lx
      else if c = ch CHR 0x60 then read_quoted_ident (ch CHR 0x60) lx
      else if c = ch CHR ''['' then read_quoted_ident (ch CHR '']'') lx
      else if is_ascii_digit c then read_number c lx
      else if rt_alphabetic R c \<or> c = ch CHR ''_'' then read_identifier_or_keyword R c lx
      else (TError (str ''unexpected character '' @ [39, c, 39]), lx))"

definition next_token :: "runtime \<Rightarrow> lexer \<Rightarrow> token \<times> lexer" where
  "next_token R lx =
     (let lx1 = skip_trivia lx
      in case advance lx1 of
           (None, lx2) \<Rightarrow> (TEof, lx2)
         | (Some c, lx2) \<Rightarrow> scan_token R c lx2)"

section \<open>What the loops compute\<close>

lemma read_while_spec:
  "fst (read_while p s lx) = s @ takeWhile p (rest lx)"
  "rest (snd (read_while p s lx)) = dropWhile p (rest lx)"
proof (induction p s lx rule: read_while.induct)
  case (1 p s lx)
  {
    case 1
    from \<open>\<And>c. \<lbrakk>peek lx = Some c; p c\<rbrakk> \<Longrightarrow> fst (read_while p (s @ [c]) (skip_one lx)) = _\<close>
    show ?case
      by (subst read_while.simps) (auto simp: peek_rest split: list.splits)
  next
    case 2
    from \<open>\<And>c. \<lbrakk>peek lx = Some c; p c\<rbrakk> \<Longrightarrow> rest (snd (read_while p (s @ [c]) (skip_one lx))) = _\<close>
    show ?case
      by (subst read_while.simps) (auto simp: peek_rest split: list.splits)
  }
qed

lemma read_while_chars [simp]: "lx_chars (snd (read_while p s lx)) = lx_chars lx"
  by (induction p s lx rule: read_while.induct) (subst read_while.simps, auto split: option.splits)

lemma read_number_loop_len: "remaining (snd (read_number_loop b s lx)) \<le> remaining lx"
proof (induction b s lx rule: read_number_loop.induct)
  case (1 b s lx)
  then show ?case
    by (subst read_number_loop.simps) (auto simp: peek_rest split: list.splits intro: le_trans)
qed

lemma read_number_loop_chars [simp]: "lx_chars (snd (read_number_loop b s lx)) = lx_chars lx"
  by (induction b s lx rule: read_number_loop.induct)
     (subst read_number_loop.simps, auto split: option.splits)

lemma read_delimited_len: "remaining (snd (read_delimited d s lx)) \<le> remaining lx"
proof (induction d s lx rule: read_delimited.induct)
  case (1 d s lx)
  then show ?case
    by (subst read_delimited.simps) (auto simp: peek_rest split: list.splits intro: le_trans)
qed

lemma read_delimited_chars [simp]: "lx_chars (snd (read_delimited d s lx)) = lx_chars lx"
  by (induction d s lx rule: read_delimited.induct)
     (subst read_delimited.simps, auto split: option.splits)

text \<open>Writing a string between delimiters: the delimiter itself is doubled.\<close>

definition double_char :: "uchar \<Rightarrow> ustr \<Rightarrow> ustr" where
  "double_char d s = concat (map (\<lambda>c. if c = d then [d, d] else [c]) s)"

lemma read_delimited_double:
  assumes "rest lx = double_char d w @ d # r" "r = [] \<or> hd r \<noteq> d"
  shows "fst (read_delimited d s lx) = Some (s @ w) \<and> rest (snd (read_delimited d s lx)) = r"
  using assms
proof (induction w arbitrary: s lx)
  case Nil
  then show ?case
    by (subst (1 2) read_delimited.simps)
       (cases r; auto simp: peek_rest double_char_def)
next
  case (Cons c w)
  show ?case
  proof (cases "c = d")
    case True
    then have "read_delimited d s lx = read_delimited d (s @ [d]) (skip_one (skip_one lx))"
      using Cons.prems by (subst read_delimited.simps) (simp add: peek_rest double_char_def)
    then show ?thesis
      using Cons True by (simp add: double_char_def)
  next
    case False
    then have "read_delimited d s lx = read_delimited d (s @ [c]) (skip_one lx)"
      using Cons.prems by (subst read_delimited.simps) (simp add: peek_rest double_char_def)
    then show ?thesis
      using Cons False by (simp add: double_char_def)
  qed
qed

section \<open>Progress\<close>

definition advances :: "lexer \<Rightarrow> lexer \<Rightarrow> bool" where
  "advances lx lx' \<longleftrightarrow> lx_chars lx' = lx_chars lx \<and> remaining lx' \<le> remaining lx"

lemma advances_refl [simp]: "advances lx lx"
  by (simp add: advances_def)

lemma advances_skip_one [simp]: "advances lx (skip_one lx)"
  by (simp add: advances_def)

lemma advances_read [simp]:
  "advances lx (snd (read_number d lx))"
  "advances lx (snd (read_string lx))"
  "advances lx (snd (read_quoted_ident d lx))"
  "advances lx (snd (read_identifier_or_keyword R c lx))"
  "advances lx (snd (read_named_param R lx))"
proof -
  have del: "advances lx (snd (read_delimited d s lx))" for d s
    by (simp add: advances_def read_delimited_len)
  show "advances lx (snd (read_string lx))" "advances lx (snd (read_quoted_ident d lx))"
    using del [of "ch CHR 0x27" "[]"] del [of d "[]"]
    by (auto simp: read_string_def read_quoted_ident_def case_prod_beta split: option.split)
qed (simp_all add: advances_def read_number_def read_identifier_or_keyword_def read_named_param_def
      case_prod_beta read_number_loop_len read_while_spec length_dropWhile_le)

lemma scan_token_advances: "advances lx (snd (scan_token R c lx))"
  unfolding scan_token_def Let_def
  by (simp only: if_distrib [of snd] snd_conv advances_read advances_refl advances_skip_one
      if_distrib [of "advances lx"] if_True simp_thms if_cancel)

lemma keyword_not_Eof: "keyword_or_identifier R s \<noteq> TEof"
proof -
  have "(k, TEof) \<notin> set keyword_table" for k
    by (simp add: keyword_table_def)
  then have "map_of keyword_table k \<noteq> Some TEof" for k
    using map_of_SomeD by metis
  from this [of "rt_upper R s"] show ?thesis
    by (auto simp: keyword_or_identifier_def split: option.split)
qed

lemma scan_token_not_Eof: "fst (scan_token R c lx) \<noteq> TEof"
proof -
  have "fst (read_number d lx) \<noteq> TEof" "fst (read_string lx) \<noteq> TEof" "fst (read_quoted_ident d lx) \<noteq> TEof"
    "fst (read_identifier_or_keyword R c lx) \<noteq> TEof" "fst (read_named_param R lx) \<noteq> TEof" for d
    by (simp_all add: read_number_def read_string_def read_quoted_ident_def keyword_not_Eof
        read_identifier_or_keyword_def read_named_param_def case_prod_beta split: option.split)
  then show ?thesis
    unfolding scan_token_def Let_def by (simp split: if_split)
qed

lemma next_token_cases:
  assumes "next_token R lx = (t, lx')"
  obtains (eof) "t = TEof" "rest (skip_trivia lx) = []" "lx' = skip_one (skip_trivia lx)"
    | (tok) c r where "rest (skip_trivia lx) = c # r" "scan_token R c (skip_one (skip_trivia lx)) = (t, lx')"
        "t \<noteq> TEof"
proof (cases "rest (skip_trivia lx)")
  case Nil
  then have "peek (skip_trivia lx) = None"
    by (simp add: peek_rest)
  then show ?thesis
    using assms Nil eof by (simp add: next_token_def advance_eq Let_def)
next
  case (Cons c r)
  then have "scan_token R c (skip_one (skip_trivia lx)) = (t, lx')"
    using assms by (simp add: next_token_def advance_eq Let_def peek_rest)
  then show ?thesis
    using Cons tok scan_token_not_Eof [of R c "skip_one (skip_trivia lx)"] by simp
qed

lemma next_token_advances:
  assumes "next_token R lx = (t, lx')"
  shows "lx_chars lx' = lx_chars lx" "remaining lx' \<le> remaining lx"
    "t \<noteq> TEof \<Longrightarrow> remaining lx' < remaining lx" "t = TEof \<Longrightarrow> rest lx' = []"
proof -
  from assms have "lx_chars lx' = lx_chars lx \<and> remaining lx' \<le> remaining lx \<and>
    (t \<noteq> TEof \<longrightarrow> remaining lx' < remaining lx) \<and> (t = TEof \<longrightarrow> rest lx' = [])"
  proof (cases rule: next_token_cases)
    case (tok c r)
    then show ?thesis
      using scan_token_advances [of "skip_one (skip_trivia lx)" R c] skip_trivia_len [of lx]
      by (simp add: advances_def)
  qed simp
  then show "lx_chars lx' = lx_chars lx" "remaining lx' \<le> remaining lx"
    "t \<noteq> TEof \<Longrightarrow> remaining lx' < remaining lx" "t = TEof \<Longrightarrow> rest lx' = []"
    by blast+
qed

lemma next_token_at_end: "rest lx = [] \<Longrightarrow> fst (next_token R lx) = TEof"
  by (cases "next_token R lx") (use skip_trivia_len [of lx] in \<open>auto elim: next_token_cases\<close>)

section \<open>Token sources\<close>

text \<open>What the parser needs of its tokenizer: every token other than the end marker uses up
  some input, and the end marker is final.\<close>

locale token_source =
  fixes next_tok :: "'s \<Rightarrow> token \<times> 's" and left :: "'s \<Rightarrow> nat"
  assumes shrink: "next_tok s = (t, s') \<Longrightarrow> t \<noteq> TEof \<Longrightarrow> left s' < left s"
    and final: "next_tok s = (TEof, s') \<Longrightarrow> fst (next_tok s') = TEof"
begin

definition after :: "nat \<Rightarrow> 's \<Rightarrow> 's" where
  "after n s = ((snd \<circ> next_tok) ^^ n) s"

lemma after_Suc: "after (Suc n) s = after n (snd (next_tok s))"
  by (simp add: after_def funpow_swap1)

lemma end_reached: "\<exists>n \<le> left s. fst (next_tok (after n s)) = TEof"
proof (induction "left s" arbitrary: s rule: less_induct)
  case less
  show ?case
  proof (cases "fst (next_tok s) = TEof")
    case True
    then show ?thesis
      by (intro exI [of _ 0]) (simp add: after_def)
  next
    case False
    then have "left (snd (next_tok s)) < left s"
      by (intro shrink [of s "fst (next_tok s)"]) simp_all
    then show ?thesis
      using less [of "snd (next_tok s)"] after_Suc by (metis Suc_leI le_less_trans)
  qed
qed

lemma end_stays: "fst (next_tok s) = TEof \<Longrightarrow> fst (next_tok (after n s)) = TEof"
proof (induction n arbitrary: s)
  case (Suc n)
  then show ?case
    using final [of s "snd (next_tok s)"] by (cases "next_tok s") (simp add: after_Suc)
qed (simp add: after_def)

end

interpretation sql_lexer: token_source "next_token R" remaining for R
  by unfold_locales (use next_token_advances next_token_at_end in blast)+

section \<open>Properties\<close>

lemma skip_trivia_none:
  "rest lx = c # r \<Longrightarrow> \<not> is_ascii_whitespace c \<Longrightarrow> c \<noteq> ch CHR ''-'' \<Longrightarrow> c \<noteq> ch CHR ''/'' \<Longrightarrow>
   skip_trivia lx = lx"
  by (subst skip_trivia.simps) (simp add: peek_rest)

lemma next_token_scan:
  "rest lx = c # r \<Longrightarrow> \<not> is_ascii_whitespace c \<Longrightarrow> c \<noteq> ch CHR ''-'' \<Longrightarrow> c \<noteq> ch CHR ''/'' \<Longrightarrow>
   next_token R lx = scan_token R c (skip_one lx)"
  by (simp add: next_token_def skip_trivia_none advance_eq peek_rest)

text \<open>C37: The lexer terminates. From any input of \<open>n\<close> characters the end marker is produced after at most \<open>n\<close>
  other tokens, and from then on every call produces it.\<close>

theorem tokens_end:
  "\<exists>n \<le> length input. \<forall>m. fst (next_token R (((snd \<circ> next_token R) ^^ (n + m)) (lexer_new input))) = TEof"
proof -
  obtain n where n: "n \<le> remaining (lexer_new input)"
    "fst (next_token R (sql_lexer.after R n (lexer_new input))) = TEof"
    using sql_lexer.end_reached by blast
  have "sql_lexer.after R m (sql_lexer.after R n lx) = ((snd \<circ> next_token R) ^^ (n + m)) lx" for m lx
    by (simp add: sql_lexer.after_def add.commute [of n] funpow_add)
  then show ?thesis
    using n sql_lexer.end_stays [OF n(2)]
    by (intro exI [of _ n]) (simp add: lexer_new_def rest_def)
qed

text \<open>A string literal denotes the string it was written from: for every string, quoting
  it with its quotes doubled and reading it back gives one string token with that string, and
  leaves exactly what followed.\<close>

lemma string_literal_roundtrip:
  assumes "rest lx = [39] @ double_char 39 w @ [39] @ r" "r = [] \<or> hd r \<noteq> 39"
  shows "fst (next_token R lx) = TString w \<and> rest (snd (next_token R lx)) = r"
proof -
  have "next_token R lx = read_string (skip_one lx)"
    using assms(1) next_token_scan [of lx 39 "double_char 39 w @ [39] @ r" R]
    by (simp add: is_ascii_whitespace_def scan_token_def)
  moreover have "fst (read_delimited 39 [] (skip_one lx)) = Some w"
    "rest (snd (read_delimited 39 [] (skip_one lx))) = r"
    using read_delimited_double [of "skip_one lx" 39 w r "[]"] assms by simp_all
  ultimately show ?thesis
    by (simp add: read_string_def case_prod_beta)
qed

text \<open>A quoted identifier, in double quotes, back quotes or brackets with the closing
  character doubled, denotes the name it was written from, whatever characters or keywords it
  contains.\<close>

lemma quoted_identifier_roundtrip:
  assumes "(first, close) \<in> {(34, 34), (96, 96), (91, 93)}"
    and "rest lx = [first] @ double_char close w @ [close] @ r" "r = [] \<or> hd r \<noteq> close"
  shows "fst (next_token R lx) = TIdentifier w \<and> rest (snd (next_token R lx)) = r"
proof -
  have "next_token R lx = read_quoted_ident close (skip_one lx)"
    using assms(1,2) next_token_scan [of lx first "double_char close w @ [close] @ r" R]
    by (elim insertE emptyE) (simp_all add: is_ascii_whitespace_def scan_token_def is_ascii_digit_def)
  moreover have "fst (read_delimited close [] (skip_one lx)) = Some w"
    "rest (snd (read_delimited close [] (skip_one lx))) = r"
    using read_delimited_double [of "skip_one lx" close w r "[]"] assms(2,3) by simp_all
  ultimately show ?thesis
    by (simp add: read_quoted_ident_def case_prod_beta)
qed

text \<open>An unquoted word becomes a keyword exactly when its upper-case form is in the keyword
  table, and otherwise an identifier in its original spelling; the whole word is taken.\<close>

lemma word_token:
  assumes "unicode_laws R" "is_ascii_letter c"
    and "rest lx = (c # w) @ r" "\<forall>d \<in> set w. is_word_char R d" "r = [] \<or> \<not> is_word_char R (hd r)"
  shows "fst (next_token R lx) =
      (case map_of keyword_table (rt_upper R (c # w)) of Some t \<Rightarrow> t | None \<Rightarrow> TIdentifier (c # w)) \<and>
    rest (snd (next_token R lx)) = r"
proof -
  have c: "rt_alphabetic R c" "65 \<le> c" "c \<le> 122" "c \<noteq> 91" "c \<noteq> 94" "c \<noteq> 96" "c \<noteq> 95" "c \<noteq> 92"
    using assms(1,2) by (auto simp: unicode_lawsD is_ascii_letter_def is_ascii_char_def)
  have "next_token R lx = scan_token R c (skip_one lx)"
    using assms(3) c by (intro next_token_scan) (auto simp: is_ascii_whitespace_def)
  also have "\<dots> = read_identifier_or_keyword R c (skip_one lx)"
    using c by (simp add: scan_token_def is_ascii_digit_def)
  finally have "next_token R lx = read_identifier_or_keyword R c (skip_one lx)" .
  moreover have "takeWhile (is_word_char R) (w @ r) = w" "dropWhile (is_word_char R) (w @ r) = r"
    using assms(4,5) by (cases r; simp)+
  ultimately show ?thesis
    using read_while_spec [of "is_word_char R" "[c]" "skip_one lx"] assms(3)
    by (simp add: read_identifier_or_keyword_def keyword_or_identifier_def case_prod_beta
        split: option.split)
qed

fun has_close :: "ustr \<Rightarrow> bool" where
  "has_close (x # y # s) = ((x = ch CHR ''*'' \<and> y = ch CHR ''/'') \<or> has_close (y # s))"
| "has_close s = False"

lemma skip_block_comment_rest:
  assumes "rest lx = body @ ch CHR ''*'' # ch CHR ''/'' # r" "\<not> has_close body"
  shows "rest (skip_block_comment lx) = r"
  using assms
proof (induction body arbitrary: lx rule: has_close.induct)
  case (1 x y s)
  then show ?case
    by (subst skip_block_comment.simps) (simp add: peek_rest)
next
  case "2_1"
  then show ?case
    by (subst skip_block_comment.simps) (simp add: peek_rest)
next
  case "2_2"
  then have "skip_block_comment lx = skip_block_comment (skip_one lx)"
    by (subst skip_block_comment.simps) (simp add: peek_rest)
  with "2_2" show ?case
    by (subst (asm) skip_block_comment.simps) (simp add: peek_rest)
qed

text \<open>A line comment up to its newline and a block comment up to its first closing mark are
  invisible: the next token is the next token of the input after the comment.\<close>

lemma comments_are_skipped:
  assumes "(rest lx = str ''--'' @ body @ [newline] @ r \<and> newline \<notin> set body) \<or>
    (rest lx = str ''/*'' @ body @ str ''*/'' @ r \<and> \<not> has_close body)"
  shows "\<exists>lx'. lx_chars lx' = lx_chars lx \<and> rest lx' = r \<and> next_token R lx = next_token R lx'"
  using assms
proof
  assume *: "rest lx = str ''--'' @ body @ [newline] @ r \<and> newline \<notin> set body"
  then have "skip_trivia lx = skip_trivia (skip_line_comment lx)"
    by (subst skip_trivia.simps) (simp add: peek_rest peek_at_rest is_ascii_whitespace_def)
  moreover have "dropWhile (\<lambda>c. c \<noteq> newline) (body @ newline # r) = newline # r"
    using * by (subst dropWhile_append2) auto
  ultimately show ?thesis
    using * by (intro exI [of _ "skip_line_comment lx"]) (simp add: next_token_def skip_line_comment_rest)
next
  assume *: "rest lx = str ''/*'' @ body @ str ''*/'' @ r \<and> \<not> has_close body"
  then have "skip_trivia lx = skip_trivia (skip_block_comment (skip_one (skip_one lx)))"
    by (subst skip_trivia.simps) (simp add: peek_rest peek_at_rest is_ascii_whitespace_def)
  moreover have "rest (skip_block_comment (skip_one (skip_one lx))) = r"
    using * by (intro skip_block_comment_rest [of _ body]) simp_all
  ultimately show ?thesis
    by (intro exI [of _ "skip_block_comment (skip_one (skip_one lx))"]) (simp add: next_token_def)
qed

end
