(* ===== verification/Parser.thy ===== *)
theory Parser
  imports Lexer Ast
begin

text \<open>
  The recursive-descent parser (\<open>cfml-qoq/src/parser.rs\<close>): the state is the lexer, the current
  token, the counter of positional parameters and the nesting depth; one definition per method.

  The methods call each other in a circle only through \<open>parse_expr\<close> and
  \<open>parse_select_statement\<close>, so every method takes these two as arguments and the circle is closed
  at the end, with fuel for the nesting. A loop has fuel for its iterations. Running out of fuel is
  the error \<open>OutOfFuel\<close>, which the source does not have and which is shown never to be returned.
  The native stack is not part of the model: where the source recurses without counting a level,
  as for a chain of signs (\<open>unary_loop\<close>), the model returns and the program may overflow its stack.
\<close>

section \<open>State and results\<close>

record parser =
  ps_lexer :: lexer
  ps_current :: token
  ps_param_index :: nat
  ps_depth :: nat

text \<open>The messages of the source, by what they report.\<close>

datatype parse_error =
    NestingTooDeep
  | Expected token token
  | ExpectedIdentifier token
  | NotNonNegative ustr
  | ExpectedInteger token
  | ExpectedSelect token
  | LexError ustr
  | UnexpectedAfter token
  | ExpectedAfterNot token
  | UnexpectedInExpression token
  | CaseNeedsWhen
  | InvalidNumber ustr
  | OutOfFuel

type_synonym 'a parse_fn = "parser \<Rightarrow> parse_error + 'a \<times> parser"

type_synonym pexpr = "select_statement expr"

definition max_nesting_depth :: nat where "max_nesting_depth = 512"

definition ret :: "'a \<Rightarrow> 'a parse_fn" where
  "ret x st = Inr (x, st)"

definition then_p :: "'a parse_fn \<Rightarrow> ('a \<Rightarrow> 'b parse_fn) \<Rightarrow> 'b parse_fn" where
  "then_p p k st = and_then (p st) (\<lambda>(x, st'). k x st')"

definition p_advance :: "runtime \<Rightarrow> parser \<Rightarrow> parser" where
  "p_advance R st = (let (t, lx) = next_token R (ps_lexer st) in st\<lparr>ps_lexer := lx, ps_current := t\<rparr>)"

definition parser_new :: "runtime \<Rightarrow> ustr \<Rightarrow> parser" where
  "parser_new R input =
     (let (t, lx) = next_token R (lexer_new input)
      in \<lparr> ps_lexer = lx, ps_current = t, ps_param_index = 0, ps_depth = 0 \<rparr>)"

text \<open>\<open>enter_depth()?\<close>, the parser, \<open>depth -= 1\<close>.\<close>

definition enter_depth :: "parser \<Rightarrow> parse_error + parser" where
  "enter_depth st =
     (if max_nesting_depth \<le> ps_depth st then Inl NestingTooDeep else Inr (st\<lparr>ps_depth := ps_depth st + 1\<rparr>))"

definition nested :: "'a parse_fn \<Rightarrow> 'a parse_fn" where
  "nested p st =
     and_then (enter_depth st) (\<lambda>st1. and_then (p st1) (\<lambda>(x, st2). Inr (x, st2\<lparr>ps_depth := ps_depth st2 - 1\<rparr>)))"

text \<open>\<open>if self.eat(tok) { p } else { q }\<close>.\<close>

definition if_eat :: "runtime \<Rightarrow> token \<Rightarrow> 'a parse_fn \<Rightarrow> 'a parse_fn \<Rightarrow> 'a parse_fn" where
  "if_eat R tok p q st = (if ps_current st = tok then p (p_advance R st) else q st)"

definition eat :: "runtime \<Rightarrow> token \<Rightarrow> bool parse_fn" where
  "eat R tok = if_eat R tok (ret True) (ret False)"

definition expect :: "runtime \<Rightarrow> token \<Rightarrow> unit parse_fn" where
  "expect R tok st = (if ps_current st = tok then Inr ((), p_advance R st) else Inl (Expected tok (ps_current st)))"

definition parse_ident :: "runtime \<Rightarrow> ustr parse_fn" where
  "parse_ident R st =
     (case ps_current st of TIdentifier s \<Rightarrow> Inr (s, p_advance R st) | other \<Rightarrow> Inl (ExpectedIdentifier other))"

definition parse_uint :: "runtime \<Rightarrow> nat parse_fn" where
  "parse_uint R st =
     (case ps_current st of
        TNumber s \<Rightarrow>
          (case parse_usize s of Some v \<Rightarrow> Inr (v, p_advance R st) | None \<Rightarrow> Inl (NotNonNegative s))
      | other \<Rightarrow> Inl (ExpectedInteger other))"

section \<open>Loops\<close>

text \<open>What is left to read, an upper bound on the tokens a loop can eat.\<close>

definition todo :: "parser \<Rightarrow> nat" where
  "todo st = (if ps_current st = TEof then 0 else Suc (remaining (ps_lexer st)))"

text \<open>\<open>while self.eat(tok) { .. p .. }\<close>, collecting.\<close>

fun many_loop :: "runtime \<Rightarrow> token \<Rightarrow> 'a parse_fn \<Rightarrow> nat \<Rightarrow> 'a list parse_fn" where
  "many_loop R tok p 0 st = Inl OutOfFuel"
| "many_loop R tok p (Suc n) st =
     (if ps_current st = tok
      then then_p p (\<lambda>x. then_p (many_loop R tok p n) (\<lambda>xs. ret (x # xs))) (p_advance R st)
      else Inr ([], st))"

definition many :: "runtime \<Rightarrow> token \<Rightarrow> 'a parse_fn \<Rightarrow> 'a list parse_fn" where
  "many R tok p st = many_loop R tok p (Suc (todo st)) st"

definition comma_list :: "runtime \<Rightarrow> 'a parse_fn \<Rightarrow> 'a list parse_fn" where
  "comma_list R p = then_p p (\<lambda>x. then_p (many R TComma p) (\<lambda>xs. ret (x # xs)))"

text \<open>\<open>left = bin(left, op, right)\<close> as long as an operator of the level follows.\<close>

fun left_loop :: "runtime \<Rightarrow> (token \<Rightarrow> binary_op option) \<Rightarrow> pexpr parse_fn \<Rightarrow> nat \<Rightarrow> pexpr \<Rightarrow> pexpr parse_fn" where
  "left_loop R ops p 0 left st = Inl OutOfFuel"
| "left_loop R ops p (Suc n) left st =
     (case ops (ps_current st) of
        None \<Rightarrow> Inr (left, st)
      | Some op \<Rightarrow> then_p p (\<lambda>right. left_loop R ops p n (Binary left op right)) (p_advance R st))"

definition left_assoc :: "runtime \<Rightarrow> (token \<Rightarrow> binary_op option) \<Rightarrow> pexpr parse_fn \<Rightarrow> pexpr parse_fn" where
  "left_assoc R ops p = then_p p (\<lambda>left st. left_loop R ops p (Suc (todo st)) left st)"

text \<open>\<open>if self.eat(tok) { Some(p?) } else { None }\<close>.\<close>

definition optional :: "runtime \<Rightarrow> token \<Rightarrow> 'a parse_fn \<Rightarrow> 'a option parse_fn" where
  "optional R tok p = if_eat R tok (then_p p (\<lambda>x. ret (Some x))) (ret None)"

section \<open>Primary expressions\<close>

definition number_literal :: "ustr \<Rightarrow> parse_error + cfml_value" where
  "number_literal s =
     (let double = (case parse_f64 s of Some d \<Rightarrow> Inr (VDouble d) | None \<Rightarrow> Inl (InvalidNumber s))
      in if ch CHR ''.'' \<in> set s then double
         else case parse_i64 s of Some n \<Rightarrow> Inr (VInt n) | None \<Rightarrow> double)"

definition parse_expr_list :: "runtime \<Rightarrow> pexpr parse_fn \<Rightarrow> pexpr list parse_fn" where
  "parse_expr_list R pe = comma_list R pe"

definition parse_function_args :: "runtime \<Rightarrow> pexpr parse_fn \<Rightarrow> (pexpr list \<times> bool) parse_fn" where
  "parse_function_args R pe =
     then_p (eat R TDistinct) (\<lambda>dist st.
       if ps_current st = TRParen then Inr (([], dist), st)
       else then_p (comma_list R pe) (\<lambda>args. ret (args, dist)) st)"

definition parse_type_name :: "runtime \<Rightarrow> ustr parse_fn" where
  "parse_type_name R =
     (let skip_uint = (\<lambda>st. case parse_uint R st of Inr (_, st') \<Rightarrow> Inr ((), st') | Inl _ \<Rightarrow> Inr ((), st))
      in then_p (parse_ident R) (\<lambda>name.
           if_eat R TLParen
             (then_p skip_uint (\<lambda>_.
                then_p (if_eat R TComma skip_uint (ret ())) (\<lambda>_.
                  then_p (expect R TRParen) (\<lambda>_. ret (rt_lower R name)))))
             (ret (rt_lower R name))))"

definition parse_case :: "runtime \<Rightarrow> pexpr parse_fn \<Rightarrow> pexpr parse_fn" where
  "parse_case R pe =
     then_p (expect R TCase) (\<lambda>_.
       then_p (\<lambda>st. if ps_current st = TWhen then Inr (None, st) else then_p pe (\<lambda>e. ret (Some e)) st) (\<lambda>operand.
         then_p (many R TWhen (then_p pe (\<lambda>w. then_p (expect R TThen) (\<lambda>_. then_p pe (\<lambda>t. ret (w, t)))))) (\<lambda>whens.
           if whens = [] then (\<lambda>st. Inl CaseNeedsWhen)
           else then_p (optional R TElse pe) (\<lambda>els.
                  then_p (expect R TEnd) (\<lambda>_. ret (Case operand whens els))))))"

definition parse_cast :: "runtime \<Rightarrow> pexpr parse_fn \<Rightarrow> pexpr parse_fn" where
  "parse_cast R pe =
     then_p (expect R TCast) (\<lambda>_. then_p (expect R TLParen) (\<lambda>_. then_p pe (\<lambda>e.
       then_p (expect R TAs) (\<lambda>_. then_p (parse_type_name R) (\<lambda>ty.
         then_p (expect R TRParen) (\<lambda>_. ret (Cast e ty)))))))"

definition parse_convert :: "runtime \<Rightarrow> pexpr parse_fn \<Rightarrow> pexpr parse_fn" where
  "parse_convert R pe =
     then_p (expect R TConvert) (\<lambda>_. then_p (expect R TLParen) (\<lambda>_. then_p pe (\<lambda>e.
       then_p (expect R TComma) (\<lambda>_. then_p (parse_type_name R) (\<lambda>ty.
         then_p (expect R TRParen) (\<lambda>_. ret (Cast e ty)))))))"

definition parse_call :: "runtime \<Rightarrow> pexpr parse_fn \<Rightarrow> ustr \<Rightarrow> pexpr parse_fn" where
  "parse_call R pe name =
     then_p (parse_function_args R pe) (\<lambda>(args, dist).
       then_p (expect R TRParen) (\<lambda>_. ret (Function name args dist)))"

definition parse_name :: "runtime \<Rightarrow> pexpr parse_fn \<Rightarrow> ustr \<Rightarrow> pexpr parse_fn" where
  "parse_name R pe name =
     if_eat R TLParen (parse_call R pe name)
       (if_eat R TDot
          (if_eat R TStar (ret (Star (Some name))) (then_p (parse_ident R) (\<lambda>col. ret (Column (Some name) col))))
          (ret (Column None name)))"

definition parse_parens :: "runtime \<Rightarrow> pexpr parse_fn \<Rightarrow> select_statement parse_fn \<Rightarrow> pexpr parse_fn" where
  "parse_parens R pe ps st =
     (if ps_current st = TSelect
      then then_p ps (\<lambda>select. then_p (expect R TRParen) (\<lambda>_. ret (ScalarSubquery select))) st
      else then_p pe (\<lambda>e. then_p (expect R TRParen) (\<lambda>_. ret e)) st)"

definition parse_primary :: "runtime \<Rightarrow> pexpr parse_fn \<Rightarrow> select_statement parse_fn \<Rightarrow> pexpr parse_fn" where
  "parse_primary R pe ps st =
     (let st' = p_advance R st
      in case ps_current st of
           TNumber s \<Rightarrow> and_then (number_literal s) (\<lambda>v. Inr (Literal v, st'))
         | TString s \<Rightarrow> Inr (Literal (VString s), st')
         | TNamedParam name \<Rightarrow> Inr (Param (Named_param name), st')
         | TIdentifier name \<Rightarrow> parse_name R pe name st'
         | Keyword k \<Rightarrow>
             (if k = KNull then Inr (Literal VNull, st')
              else if k = KTrue then Inr (Literal (VBool True), st')
              else if k = KFalse then Inr (Literal (VBool False), st')
              else if k = KCase then parse_case R pe st
              else if k = KCast then parse_cast R pe st
              else if k = KConvert then parse_convert R pe st
              else Inl (UnexpectedInExpression (Keyword k)))
         | Symbol s \<Rightarrow>
             (if s = SStar then Inr (Star None, st')
              else if s = SParam
              then Inr (Param (Positional (ps_param_index st')), st'\<lparr>ps_param_index := ps_param_index st' + 1\<rparr>)
              else if s = SLParen then parse_parens R pe ps st'
              else Inl (UnexpectedInExpression (Symbol s)))
         | JoinWord j \<Rightarrow>
             (if j = JLeft then then_p (expect R TLParen) (\<lambda>_. parse_call R pe (str ''left'')) st'
              else if j = JRight then then_p (expect R TLParen) (\<lambda>_. parse_call R pe (str ''right'')) st'
              else Inl (UnexpectedInExpression (JoinWord j)))
         | other \<Rightarrow> Inl (UnexpectedInExpression other))"

section \<open>Operators\<close>

fun unary_loop :: "runtime \<Rightarrow> pexpr parse_fn \<Rightarrow> nat \<Rightarrow> pexpr parse_fn" where
  "unary_loop R primary 0 st = Inl OutOfFuel"
| "unary_loop R primary (Suc n) st =
     (if ps_current st = TMinus then then_p (unary_loop R primary n) (\<lambda>e. ret (Unary Neg e)) (p_advance R st)
      else if ps_current st = TPlus then then_p (unary_loop R primary n) (\<lambda>e. ret (Unary Plus e)) (p_advance R st)
      else primary st)"

definition parse_unary :: "runtime \<Rightarrow> pexpr parse_fn \<Rightarrow> select_statement parse_fn \<Rightarrow> pexpr parse_fn" where
  "parse_unary R pe ps st = unary_loop R (parse_primary R pe ps) (Suc (todo st)) st"

definition term_op :: "token \<Rightarrow> binary_op option" where
  "term_op t =
     (if t = TStar then Some Mul else if t = TSlash then Some Div else if t = TMod then Some Mod
      else if t = TAmp then Some BitAnd else None)"

definition parse_term :: "runtime \<Rightarrow> pexpr parse_fn \<Rightarrow> select_statement parse_fn \<Rightarrow> pexpr parse_fn" where
  "parse_term R pe ps = left_assoc R term_op (parse_unary R pe ps)"

definition additive_op :: "token \<Rightarrow> binary_op option" where
  "additive_op t =
     (if t = TPlus then Some Add else if t = TMinus then Some Sub else if t = TPipe then Some BitOr
      else if t = TCaret then Some BitXor else None)"

definition parse_additive :: "runtime \<Rightarrow> pexpr parse_fn \<Rightarrow> select_statement parse_fn \<Rightarrow> pexpr parse_fn" where
  "parse_additive R pe ps = left_assoc R additive_op (parse_term R pe ps)"

definition parse_concat :: "runtime \<Rightarrow> pexpr parse_fn \<Rightarrow> select_statement parse_fn \<Rightarrow> pexpr parse_fn" where
  "parse_concat R pe ps = left_assoc R (\<lambda>t. if t = TConcat then Some Concat else None) (parse_additive R pe ps)"

definition parse_like :: "runtime \<Rightarrow> pexpr parse_fn \<Rightarrow> select_statement parse_fn \<Rightarrow> pexpr \<Rightarrow> bool \<Rightarrow> pexpr parse_fn" where
  "parse_like R pe ps left negated =
     then_p (expect R TLike) (\<lambda>_. then_p (parse_concat R pe ps) (\<lambda>pat.
       then_p (optional R TEscape (parse_concat R pe ps)) (\<lambda>esc. ret (Like left negated pat esc None))))"

definition parse_between :: "runtime \<Rightarrow> pexpr parse_fn \<Rightarrow> select_statement parse_fn \<Rightarrow> pexpr \<Rightarrow> bool \<Rightarrow> pexpr parse_fn" where
  "parse_between R pe ps left negated =
     then_p (expect R TBetween) (\<lambda>_. then_p (parse_concat R pe ps) (\<lambda>low.
       then_p (expect R TAnd) (\<lambda>_. then_p (parse_concat R pe ps) (\<lambda>high.
         ret (Between left negated low high)))))"

definition parse_in :: "runtime \<Rightarrow> pexpr parse_fn \<Rightarrow> select_statement parse_fn \<Rightarrow> pexpr \<Rightarrow> bool \<Rightarrow> pexpr parse_fn" where
  "parse_in R pe ps left negated =
     then_p (expect R TIn) (\<lambda>_. then_p (expect R TLParen) (\<lambda>_ st.
       if ps_current st = TSelect
       then then_p ps (\<lambda>select. then_p (expect R TRParen) (\<lambda>_. ret (InSubquery left negated select))) st
       else then_p (parse_expr_list R pe) (\<lambda>es. then_p (expect R TRParen) (\<lambda>_. ret (InList left negated es))) st))"

definition comparison_op :: "token \<Rightarrow> binary_op option" where
  "comparison_op t =
     (if t = TEq then Some Eq else if t = TNeq \<or> t = TNeq2 then Some Neq else if t = TLt then Some Lt
      else if t = TLte then Some Lte else if t = TGt then Some Gt else if t = TGte then Some Gte else None)"

definition predicate_tail :: "runtime \<Rightarrow> pexpr parse_fn \<Rightarrow> select_statement parse_fn \<Rightarrow> pexpr \<Rightarrow> pexpr parse_fn" where
  "predicate_tail R pe ps left st =
     (case comparison_op (ps_current st) of
        Some op \<Rightarrow> then_p (parse_concat R pe ps) (\<lambda>right. ret (Binary left op right)) (p_advance R st)
      | None \<Rightarrow>
          (let t = ps_current st
           in if t = TIs
              then then_p (eat R TNot) (\<lambda>negated. then_p (expect R TNull) (\<lambda>_. ret (IsNull left negated))) (p_advance R st)
              else if t = TIn then parse_in R pe ps left False st
              else if t = TBetween then parse_between R pe ps left False st
              else if t = TLike then parse_like R pe ps left False st
              else if t = TNot
              then (let st' = p_advance R st; t' = ps_current st'
                    in if t' = TIn then parse_in R pe ps left True st'
                       else if t' = TBetween then parse_between R pe ps left True st'
                       else if t' = TLike then parse_like R pe ps left True st'
                       else Inl (ExpectedAfterNot t'))
              else Inr (left, st)))"

definition parse_predicate :: "runtime \<Rightarrow> pexpr parse_fn \<Rightarrow> select_statement parse_fn \<Rightarrow> pexpr parse_fn" where
  "parse_predicate R pe ps = then_p (parse_concat R pe ps) (predicate_tail R pe ps)"

definition parse_not :: "runtime \<Rightarrow> pexpr parse_fn \<Rightarrow> select_statement parse_fn \<Rightarrow> pexpr parse_fn" where
  "parse_not R pe ps =
     if_eat R TNot (then_p (parse_predicate R pe ps) (\<lambda>e. ret (Unary Not_op e))) (parse_predicate R pe ps)"

definition parse_and :: "runtime \<Rightarrow> pexpr parse_fn \<Rightarrow> select_statement parse_fn \<Rightarrow> pexpr parse_fn" where
  "parse_and R pe ps = left_assoc R (\<lambda>t. if t = TAnd then Some And else None) (parse_not R pe ps)"

definition parse_or :: "runtime \<Rightarrow> pexpr parse_fn \<Rightarrow> select_statement parse_fn \<Rightarrow> pexpr parse_fn" where
  "parse_or R pe ps = left_assoc R (\<lambda>t. if t = TOr then Some Or else None) (parse_and R pe ps)"

section \<open>Clauses\<close>

definition parse_limit :: "runtime \<Rightarrow> limit_clause parse_fn" where
  "parse_limit R =
     then_p (parse_uint R) (\<lambda>first.
       if_eat R TComma (then_p (parse_uint R) (\<lambda>cnt. ret (LimitClause first cnt)))
         (if_eat R TOffset (then_p (parse_uint R) (\<lambda>offset. ret (LimitClause offset first)))
            (ret (LimitClause 0 first))))"

definition parse_order_by_item :: "runtime \<Rightarrow> pexpr parse_fn \<Rightarrow> select_statement order_by_expr parse_fn" where
  "parse_order_by_item R pe =
     then_p pe (\<lambda>e. then_p (if_eat R TAsc (ret Asc) (if_eat R TDesc (ret Desc) (ret Asc))) (\<lambda>d.
       ret (OrderByExpr e d)))"

definition parse_order_by :: "runtime \<Rightarrow> pexpr parse_fn \<Rightarrow> select_statement order_by_expr list parse_fn" where
  "parse_order_by R pe = comma_list R (parse_order_by_item R pe)"

definition is_identifier :: "token \<Rightarrow> bool" where
  "is_identifier t = (case t of TIdentifier _ \<Rightarrow> True | _ \<Rightarrow> False)"

definition parse_optional_alias :: "runtime \<Rightarrow> ustr option parse_fn" where
  "parse_optional_alias R =
     if_eat R TAs (then_p (parse_ident R) (\<lambda>s. ret (Some s)))
       (\<lambda>st. if is_identifier (ps_current st) then then_p (parse_ident R) (\<lambda>s. ret (Some s)) st else Inr (None, st))"

definition parse_table_ref :: "runtime \<Rightarrow> select_statement parse_fn \<Rightarrow> select_statement table_ref parse_fn" where
  "parse_table_ref R ps =
     if_eat R TLParen
       (then_p ps (\<lambda>select. then_p (expect R TRParen) (\<lambda>_. then_p (eat R TAs) (\<lambda>_.
          then_p (parse_ident R) (\<lambda>alias. ret (Derived select alias))))))
       (then_p (parse_ident R) (\<lambda>first. then_p (many R TDot (parse_ident R)) (\<lambda>segments.
          then_p (parse_optional_alias R) (\<lambda>alias.
            ret (Named (first @ concat (map (\<lambda>s. ch CHR ''.'' # s) segments)) alias)))))"

definition parse_join_with_on ::
  "runtime \<Rightarrow> pexpr parse_fn \<Rightarrow> select_statement parse_fn \<Rightarrow> join_type \<Rightarrow> select_statement join_clause parse_fn" where
  "parse_join_with_on R pe ps jt =
     then_p (parse_table_ref R ps) (\<lambda>table. then_p (expect R TOn) (\<lambda>_. then_p pe (\<lambda>on.
       ret (JoinClause jt table (Some on)))))"

definition cross_join :: "runtime \<Rightarrow> select_statement parse_fn \<Rightarrow> select_statement join_clause parse_fn" where
  "cross_join R ps = then_p (parse_table_ref R ps) (\<lambda>table. ret (JoinClause Cross table None))"

definition outer_join ::
  "runtime \<Rightarrow> pexpr parse_fn \<Rightarrow> select_statement parse_fn \<Rightarrow> join_type \<Rightarrow> select_statement join_clause parse_fn" where
  "outer_join R pe ps jt =
     then_p (eat R TOuter) (\<lambda>_. then_p (expect R TJoin) (\<lambda>_. parse_join_with_on R pe ps jt))"

text \<open>The body of the loop of \<open>parse_from\<close>; \<open>None\<close> is the \<open>break\<close>.\<close>

definition parse_join ::
  "runtime \<Rightarrow> pexpr parse_fn \<Rightarrow> select_statement parse_fn \<Rightarrow> select_statement join_clause option parse_fn" where
  "parse_join R pe ps st =
     (let t = ps_current st; st' = p_advance R st; some = (\<lambda>p. then_p p (\<lambda>j. ret (Some j)))
      in if t = TComma then some (cross_join R ps) st'
         else if t = TCross then some (then_p (expect R TJoin) (\<lambda>_. cross_join R ps)) st'
         else if t = TJoin \<or> t = TInner
         then some (then_p (eat R TInner) (\<lambda>_. then_p (expect R TJoin) (\<lambda>_. parse_join_with_on R pe ps Inner))) st
         else if t = TLeft then some (outer_join R pe ps Left) st'
         else if t = TRight then some (outer_join R pe ps Right) st'
         else if t = TFull then some (outer_join R pe ps Full) st'
         else Inr (None, st))"

fun join_loop ::
  "runtime \<Rightarrow> pexpr parse_fn \<Rightarrow> select_statement parse_fn \<Rightarrow> nat \<Rightarrow> select_statement join_clause list parse_fn" where
  "join_loop R pe ps 0 st = Inl OutOfFuel"
| "join_loop R pe ps (Suc n) st =
     then_p (parse_join R pe ps) (\<lambda>j.
       case j of
         None \<Rightarrow> ret []
       | Some jn \<Rightarrow> then_p (join_loop R pe ps n) (\<lambda>joins. ret (jn # joins))) st"

definition parse_from ::
  "runtime \<Rightarrow> pexpr parse_fn \<Rightarrow> select_statement parse_fn
    \<Rightarrow> (select_statement table_ref option \<times> select_statement join_clause list) parse_fn" where
  "parse_from R pe ps =
     then_p (parse_table_ref R ps) (\<lambda>seed st.
       then_p (join_loop R pe ps (Suc (todo st))) (\<lambda>joins. ret (Some seed, joins)) st)"

definition parse_select_column :: "runtime \<Rightarrow> pexpr parse_fn \<Rightarrow> select_statement select_column parse_fn" where
  "parse_select_column R pe =
     then_p pe (\<lambda>e. then_p (parse_optional_alias R) (\<lambda>alias. ret (SelectColumn e alias)))"

definition parse_select_columns :: "runtime \<Rightarrow> pexpr parse_fn \<Rightarrow> select_statement select_column list parse_fn" where
  "parse_select_columns R pe = comma_list R (parse_select_column R pe)"

definition parse_select_core ::
  "runtime \<Rightarrow> pexpr parse_fn \<Rightarrow> select_statement parse_fn \<Rightarrow> select_statement select_core parse_fn" where
  "parse_select_core R pe ps =
     then_p (expect R TSelect) (\<lambda>_.
     then_p (eat R TDistinct) (\<lambda>dist.
     then_p (optional R TTop (parse_uint R)) (\<lambda>top_n.
     then_p (parse_select_columns R pe) (\<lambda>columns.
     then_p (if_eat R TFrom (parse_from R pe ps) (ret (None, []))) (\<lambda>(tables, joins).
     then_p (optional R TWhere pe) (\<lambda>where_clause.
     then_p (if_eat R TGroup (then_p (expect R TBy) (\<lambda>_. parse_expr_list R pe)) (ret [])) (\<lambda>group_by.
     then_p (optional R THaving pe) (\<lambda>having.
       ret (SelectCore dist top_n columns tables joins where_clause group_by having)))))))))"

definition parse_union :: "runtime \<Rightarrow> pexpr parse_fn \<Rightarrow> select_statement parse_fn \<Rightarrow> select_statement union_arm parse_fn" where
  "parse_union R pe ps =
     then_p (if_eat R TAll (ret True) (then_p (eat R TDistinct) (\<lambda>_. ret False))) (\<lambda>all1.
       then_p (parse_select_core R pe ps) (\<lambda>select. ret (Union_arm all1 select)))"

definition clear_top :: "'sel select_core \<Rightarrow> 'sel select_core" where
  "clear_top c = SelectCore (co_distinct c) None (co_columns c) (co_from c) (co_joins c) (co_where c) (co_group_by c) (co_having c)"

text \<open>TOP of the first core becomes the LIMIT of the statement unless there is one.\<close>

definition lift_top :: "'sel select_core \<Rightarrow> limit_clause option \<Rightarrow> 'sel select_core \<times> limit_clause option" where
  "lift_top body limit =
     (case (limit, co_top body) of
        (None, Some n) \<Rightarrow> (clear_top body, Some (LimitClause 0 n))
      | _ \<Rightarrow> (body, limit))"

definition parse_select_statement_inner ::
  "runtime \<Rightarrow> pexpr parse_fn \<Rightarrow> select_statement parse_fn \<Rightarrow> select_statement parse_fn" where
  "parse_select_statement_inner R pe ps =
     then_p (parse_select_core R pe ps) (\<lambda>body.
     then_p (many R TUnion (parse_union R pe ps)) (\<lambda>unions.
     then_p (if_eat R TOrder (then_p (expect R TBy) (\<lambda>_. parse_order_by R pe)) (ret [])) (\<lambda>order_by.
     then_p (optional R TLimit (parse_limit R)) (\<lambda>limit.
       let (body', limit') = lift_top body limit in ret (SelectStatement body' unions order_by limit')))))"

section \<open>Nesting\<close>

fun parse_expr :: "runtime \<Rightarrow> nat \<Rightarrow> pexpr parse_fn"
  and parse_select_statement :: "runtime \<Rightarrow> nat \<Rightarrow> select_statement parse_fn"
where
  "parse_expr R 0 st = Inl OutOfFuel"
| "parse_expr R (Suc n) st = nested (parse_or R (parse_expr R n) (parse_select_statement R n)) st"
| "parse_select_statement R 0 st = Inl OutOfFuel"
| "parse_select_statement R (Suc n) st =
     nested (parse_select_statement_inner R (parse_expr R n) (parse_select_statement R n)) st"

definition parse_statement :: "runtime \<Rightarrow> parser \<Rightarrow> parse_error + select_statement" where
  "parse_statement R st =
     (if ps_current st \<noteq> TSelect then Inl (ExpectedSelect (ps_current st))
      else and_then (parse_select_statement R (Suc max_nesting_depth) st) (\<lambda>(stmt, st').
        case ps_current st' of
          TError e \<Rightarrow> Inl (LexError e)
        | TEof \<Rightarrow> Inr stmt
        | t \<Rightarrow> Inl (UnexpectedAfter t)))"

definition parse :: "runtime \<Rightarrow> ustr \<Rightarrow> parse_error + select_statement" where
  "parse R sql = parse_statement R (parser_new R sql)"

section \<open>Positional parameters\<close>

text \<open>The indices of the positional parameters in the order of the text; nested sub-selects are
  replaced by their own list.\<close>

primrec expr_params :: "nat list expr \<Rightarrow> nat list" where
  "expr_params (Star t) = []"
| "expr_params (Column t n) = []"
| "expr_params (ResolvedColumn ti ci n) = []"
| "expr_params (Literal v) = []"
| "expr_params (Binary l op r) = expr_params l @ expr_params r"
| "expr_params (Unary op e) = expr_params e"
| "expr_params (Function name args d) = concat (map expr_params args)"
| "expr_params (Case operand whens els) =
     case_option [] id (map_option expr_params operand) @
     concat (map (\<lambda>(w, t). w @ t) (map (map_prod expr_params expr_params) whens)) @
     case_option [] id (map_option expr_params els)"
| "expr_params (Cast e ty) = expr_params e"
| "expr_params (IsNull e n) = expr_params e"
| "expr_params (InList e n es) = expr_params e @ concat (map expr_params es)"
| "expr_params (InSubquery e n q) = expr_params e @ q"
| "expr_params (Between e n lo hi) = expr_params e @ expr_params lo @ expr_params hi"
| "expr_params (Like e n p esc c) = expr_params e @ expr_params p @ case_option [] id (map_option expr_params esc)"
| "expr_params (ScalarSubquery q) = q"
| "expr_params (Param p) = (case p of Positional i \<Rightarrow> [i] | Named_param _ \<Rightarrow> [])"

definition table_params :: "nat list table_ref \<Rightarrow> nat list" where
  "table_params t = (case t of Named _ _ \<Rightarrow> [] | Derived q _ \<Rightarrow> q)"

definition join_params :: "nat list join_clause \<Rightarrow> nat list" where
  "join_params j = table_params (jn_table j) @ case_option [] expr_params (jn_on j)"

definition core_params :: "nat list select_core \<Rightarrow> nat list" where
  "core_params c =
     concat (map (\<lambda>sc. expr_params (sc_expr sc)) (co_columns c)) @ case_option [] table_params (co_from c) @
     concat (map join_params (co_joins c)) @ case_option [] expr_params (co_where c) @
     concat (map expr_params (co_group_by c)) @ case_option [] expr_params (co_having c)"

primrec stmt_params :: "select_statement \<Rightarrow> nat list" where
  "stmt_params (SelectStatement body unions obs limit) =
     core_params (map_select_core stmt_params body) @
     concat (map (\<lambda>u. core_params (un_select u)) (map (map_union_arm stmt_params) unions)) @
     concat (map (\<lambda>ob. expr_params (ob_expr ob)) (map (map_order_by_expr stmt_params) obs))"

abbreviation pparams :: "pexpr \<Rightarrow> nat list" where
  "pparams e \<equiv> expr_params (map_expr stmt_params e)"

abbreviation jparams :: "select_statement join_clause \<Rightarrow> nat list" where
  "jparams j \<equiv> join_params (map_join_clause stmt_params j)"

lemma core_params_map:
  "core_params (SelectCore d tn (map (map_select_column stmt_params) cols) (map_option (map_table_ref stmt_params) t)
     (map (map_join_clause stmt_params) js) (map_option (map_expr stmt_params) w) (map (map_expr stmt_params) gs)
     (map_option (map_expr stmt_params) hv)) =
     concat (map (\<lambda>sc. pparams (sc_expr sc)) cols) @ case_option [] (\<lambda>t. table_params (map_table_ref stmt_params t)) t @
     concat (map jparams js) @ case_option [] pparams w @ concat (map pparams gs) @ case_option [] pparams hv"
  by (simp add: core_params_def case_map_option select_column.map_sel comp_def cong: option.case_cong)

section \<open>Reasoning about parsers\<close>

text \<open>
  \<open>runs_at n acc p h st\<close>: with fuel \<open>n\<close> for the nesting that is left, \<open>p\<close> does not run out of
  fuel at \<open>st\<close>; when it succeeds, the depth is what it was, nothing is unread, and if \<open>acc\<close> are the
  parameters numbered so far then those of the value, \<open>h\<close>, continue the numbering.
\<close>

definition runs_at :: "nat \<Rightarrow> nat list \<Rightarrow> 'a parse_fn \<Rightarrow> ('a \<Rightarrow> nat list) \<Rightarrow> parser \<Rightarrow> bool" where
  "runs_at n acc p h st \<longleftrightarrow>
     (max_nesting_depth < n + ps_depth st \<longrightarrow> ps_depth st \<le> max_nesting_depth \<longrightarrow>
      (case p st of
         Inl e \<Rightarrow> e \<noteq> OutOfFuel
       | Inr (x, st') \<Rightarrow>
           ps_depth st' = ps_depth st \<and> todo st' \<le> todo st \<and> ps_param_index st \<le> ps_param_index st' \<and>
           (\<forall>i \<le> ps_param_index st. acc = [i..<ps_param_index st] \<longrightarrow> h x = [i..<ps_param_index st'])))"

definition runs :: "nat \<Rightarrow> nat list \<Rightarrow> 'a parse_fn \<Rightarrow> ('a \<Rightarrow> nat list) \<Rightarrow> bool" where
  "runs n acc p h \<longleftrightarrow> (\<forall>st. runs_at n acc p h st)"

definition reads :: "nat \<Rightarrow> 'a parse_fn \<Rightarrow> ('a \<Rightarrow> nat list) \<Rightarrow> bool" where
  "reads n p g \<longleftrightarrow> (\<forall>acc. runs n acc p (\<lambda>x. acc @ g x))"

lemma p_advance_simps [simp]:
  "ps_depth (p_advance R st) = ps_depth st" "ps_param_index (p_advance R st) = ps_param_index st"
  by (simp_all add: p_advance_def case_prod_beta)

lemma todo_advance: "ps_current st \<noteq> TEof \<Longrightarrow> todo (p_advance R st) < todo st"
  using next_token_advances(2,3) [of R "ps_lexer st"]
  by (cases "next_token R (ps_lexer st)") (auto simp: todo_def p_advance_def)

named_theorems running \<open>rules for parsers\<close>

lemma runs_at_then:
  assumes "runs_at n acc p f st"
    and "\<And>x st'. p st = Inr (x, st') \<Longrightarrow> todo st' \<le> todo st \<Longrightarrow> runs_at n (f x) (k x) h st'"
  shows "runs_at n acc (then_p p k) h st"
proof (cases "p st")
  case (Inl e)
  then show ?thesis using assms(1) by (simp add: runs_at_def then_p_def)
next
  case (Inr r)
  then obtain x st' where "p st = Inr (x, st')" by (cases r) auto
  then show ?thesis
    using assms(1) assms(2) [of x st']
    by (cases "k x st'") (auto simp: runs_at_def then_p_def)
qed

lemma runs_at_cong: "p st = q st \<Longrightarrow> runs_at n acc p h st \<longleftrightarrow> runs_at n acc q h st"
  by (simp add: runs_at_def)

lemma runs_then [running]:
  "runs n acc p f \<Longrightarrow> (\<And>x. runs n (f x) (k x) h) \<Longrightarrow> runs n acc (then_p p k) h"
  by (auto simp: runs_def intro: runs_at_then)

lemma runs_ret [running]: "h x = acc \<Longrightarrow> runs n acc (ret x) h"
  by (auto simp: runs_def runs_at_def ret_def)

lemma runs_value [running]: "h x = acc \<Longrightarrow> runs n acc (\<lambda>st. Inr (x, st)) h"
  by (auto simp: runs_def runs_at_def)

lemma runs_error [running]: "e \<noteq> OutOfFuel \<Longrightarrow> runs n acc (\<lambda>st. Inl e) h"
  by (simp add: runs_def runs_at_def)

lemma runs_branch [running]: "runs n acc p h \<Longrightarrow> runs n acc q h \<Longrightarrow> runs n acc (\<lambda>st. if P st then p st else q st) h"
  by (simp add: runs_def runs_at_def)

lemma runs_if [running]: "runs n acc p h \<Longrightarrow> runs n acc q h \<Longrightarrow> runs n acc (if b then p else q) h"
  by simp

lemma runs_advance:
  assumes "q st = p (p_advance R st)" "ps_current st \<noteq> TEof" "runs_at n acc p h (p_advance R st)"
  shows "runs_at n acc q h st"
proof (cases "p (p_advance R st)")
  case (Inr r)
  have "todo (snd r) \<le> todo (p_advance R st) \<Longrightarrow> todo (snd r) \<le> todo st"
    using todo_advance [OF assms(2), of R] by linarith
  then show ?thesis using assms(3) Inr by (cases r) (simp add: runs_at_def assms(1))
qed (use assms(3) in \<open>simp add: runs_at_def assms(1)\<close>)

lemma runs_at_advance:
  "P st = q (p_advance R st) \<Longrightarrow> ps_current st \<noteq> TEof \<Longrightarrow> runs n acc q h \<Longrightarrow> runs_at n acc P h st"
  by (rule runs_advance [of _ st q R]) (simp_all add: runs_def)

lemma runs_at_stay: "P st = q st \<Longrightarrow> runs n acc q h \<Longrightarrow> runs_at n acc P h st"
  by (simp add: runs_def runs_at_def)

lemma runs_if_eat [running]:
  "tok \<noteq> TEof \<Longrightarrow> runs n acc p h \<Longrightarrow> runs n acc q h \<Longrightarrow> runs n acc (if_eat R tok p q) h"
  unfolding runs_def
proof (rule allI)
  fix st assume *: "tok \<noteq> TEof" "\<forall>st. runs_at n acc p h st" "\<forall>st. runs_at n acc q h st"
  show "runs_at n acc (if_eat R tok p q) h st"
  proof (cases "ps_current st = tok")
    case True
    show ?thesis by (rule runs_advance [of _ _ p R]) (use True * in \<open>simp_all add: if_eat_def\<close>)
  next
    case False
    then show ?thesis using *(3) by (simp add: runs_at_def if_eat_def)
  qed
qed

lemma runs_eat [running]: "tok \<noteq> TEof \<Longrightarrow> runs n acc (eat R tok) (\<lambda>_. acc)"
  unfolding eat_def by (rule running | simp)+

lemma runs_expect [running]: "tok \<noteq> TEof \<Longrightarrow> runs n acc (expect R tok) (\<lambda>_. acc)"
  using less_imp_le [OF todo_advance] by (simp add: runs_def runs_at_def expect_def)

lemma runs_ident [running]: "runs n acc (parse_ident R) (\<lambda>_. acc)"
  using less_imp_le [OF todo_advance] by (simp add: runs_def runs_at_def parse_ident_def split: token.split)

lemma runs_uint [running]: "runs n acc (parse_uint R) (\<lambda>_. acc)"
  using less_imp_le [OF todo_advance] by (simp add: runs_def runs_at_def parse_uint_def split: token.split option.split)

lemma runs_reads: "reads n p g \<Longrightarrow> runs n acc p (\<lambda>x. acc @ g x)"
  by (simp add: reads_def)

lemma reads_at: "reads n p g \<Longrightarrow> runs_at n acc p (\<lambda>x. acc @ g x) st"
  by (simp add: reads_def runs_def)

lemma readsI: "(\<And>acc. runs n acc p (\<lambda>x. acc @ g x)) \<Longrightarrow> reads n p g"
  by (simp add: reads_def)

lemma runs_optional [running]:
  "tok \<noteq> TEof \<Longrightarrow> reads n p g \<Longrightarrow> runs n acc (optional R tok p) (\<lambda>o1. acc @ case_option [] g o1)"
  unfolding optional_def by (rule running runs_reads | assumption | simp)+

lemma many_loop_runs:
  assumes "tok \<noteq> TEof" "reads n p g"
  shows "todo st < m \<Longrightarrow> runs_at n acc (many_loop R tok p m) (\<lambda>xs. acc @ concat (map g xs)) st"
proof (induction m arbitrary: acc st)
  case (Suc m)
  show ?case
  proof (cases "ps_current st = tok")
    case True
    let ?k = "then_p p (\<lambda>x. then_p (many_loop R tok p m) (\<lambda>xs. ret (x # xs)))"
    have less: "todo (p_advance R st) < m"
      using todo_advance [of st R] True assms(1) Suc.prems by simp
    have step: "runs_at n acc ?k (\<lambda>xs. acc @ concat (map g xs)) (p_advance R st)"
    proof (rule runs_at_then)
      show "runs_at n acc p (\<lambda>x. acc @ g x) (p_advance R st)" using assms(2) by (simp add: reads_def runs_def)
      fix x st' assume "todo st' \<le> todo (p_advance R st)"
      then have "todo st' < m" using less by linarith
      then show "runs_at n (acc @ g x) (then_p (many_loop R tok p m) (\<lambda>xs. ret (x # xs))) (\<lambda>xs. acc @ concat (map g xs)) st'"
        by (intro runs_at_then [OF Suc.IH]) (simp_all add: runs_at_def ret_def)
    qed
    show ?thesis by (rule runs_advance [OF _ _ step]) (use True assms(1) in simp_all)
  qed (simp add: runs_at_def)
qed simp

lemma runs_many [running]:
  "tok \<noteq> TEof \<Longrightarrow> reads n p g \<Longrightarrow> runs n acc (many R tok p) (\<lambda>xs. acc @ concat (map g xs))"
  unfolding runs_def by (rule allI, rule runs_at_cong [THEN iffD2, OF many_def], rule many_loop_runs) simp_all

lemma runs_comma_list [running]: "reads n p g \<Longrightarrow> runs n acc (comma_list R p) (\<lambda>xs. acc @ concat (map g xs))"
  unfolding comma_list_def by (rule running runs_reads | assumption | simp)+

lemma left_loop_runs:
  assumes "ops TEof = None" "reads n p pparams"
  shows "todo st < m \<Longrightarrow> runs_at n (acc @ pparams left) (left_loop R ops p m left) (\<lambda>e. acc @ pparams e) st"
proof (induction m arbitrary: left st)
  case (Suc m)
  show ?case
  proof (cases "ops (ps_current st)")
    case (Some op)
    let ?k = "then_p p (\<lambda>right. left_loop R ops p m (Binary left op right))"
    have ne: "ps_current st \<noteq> TEof" using Some assms(1) by auto
    have step: "runs_at n (acc @ pparams left) ?k (\<lambda>e. acc @ pparams e) (p_advance R st)"
    proof (rule runs_at_then)
      show "runs_at n (acc @ pparams left) p (\<lambda>x. (acc @ pparams left) @ pparams x) (p_advance R st)"
        by (rule reads_at [OF assms(2)])
      fix right st' assume "todo st' \<le> todo (p_advance R st)"
      then have "todo st' < m" using todo_advance [OF ne, of R] Suc.prems by simp
      from Suc.IH [OF this, of "Binary left op right"]
      show "runs_at n ((acc @ pparams left) @ pparams right) (left_loop R ops p m (Binary left op right)) (\<lambda>e. acc @ pparams e) st'"
        by simp
    qed
    show ?thesis by (rule runs_advance [OF _ ne step]) (simp add: Some)
  qed (simp add: runs_at_def)
qed simp

lemma reads_left_assoc:
  assumes "ops TEof = None" "reads n p pparams"
  shows "reads n (left_assoc R ops p) pparams"
proof (rule readsI)
  fix acc
  have "runs n (acc @ pparams left) (\<lambda>st. left_loop R ops p (Suc (todo st)) left st) (\<lambda>e. acc @ pparams e)" for left
    unfolding runs_def
  proof
    fix st
    have "runs_at n (acc @ pparams left) (left_loop R ops p (Suc (todo st)) left) (\<lambda>e. acc @ pparams e) st"
      by (rule left_loop_runs) (use assms in simp_all)
    then show "runs_at n (acc @ pparams left) (\<lambda>st. left_loop R ops p (Suc (todo st)) left st) (\<lambda>e. acc @ pparams e) st"
      by (simp only: runs_at_def)
  qed
  then show "runs n acc (left_assoc R ops p) (\<lambda>e. acc @ pparams e)"
    unfolding left_assoc_def by (rule runs_then [OF runs_reads [OF assms(2)]])
qed

lemma unary_loop_runs:
  assumes "reads n p pparams"
  shows "todo st < m \<Longrightarrow> runs_at n acc (unary_loop R p m) (\<lambda>e. acc @ pparams e) st"
proof (induction m arbitrary: st)
  case (Suc m)
  have step: "runs_at n acc (unary_loop R p (Suc m)) (\<lambda>e. acc @ pparams e) st"
    if "unary_loop R p (Suc m) st = then_p (unary_loop R p m) (\<lambda>e. ret (Unary op e)) (p_advance R st)"
      "ps_current st \<noteq> TEof" for op
  proof (rule runs_advance [of "unary_loop R p (Suc m)" st "then_p (unary_loop R p m) (\<lambda>e. ret (Unary op e))" R, OF that])
    have "todo (p_advance R st) < m" using todo_advance [OF that(2), of R] Suc.prems by simp
    from Suc.IH [OF this] show "runs_at n acc (then_p (unary_loop R p m) (\<lambda>e. ret (Unary op e))) (\<lambda>e. acc @ pparams e) (p_advance R st)"
      by (rule runs_at_then) (simp add: runs_at_def ret_def)
  qed
  show ?case
    using assms step by (cases "ps_current st = TMinus \<or> ps_current st = TPlus") (auto simp: reads_def runs_def runs_at_def)
qed simp

section \<open>Every method\<close>

lemma runs_type_name [running]: "runs n acc (parse_type_name R) (\<lambda>_. acc)"
proof -
  have skip: "runs n acc (\<lambda>st. case parse_uint R st of Inr (_, st') \<Rightarrow> Inr ((), st') | Inl _ \<Rightarrow> Inr ((), st)) (\<lambda>_. acc)"
    unfolding runs_def
  proof
    fix st
    have "runs_at n acc (parse_uint R) (\<lambda>_. acc) st" using runs_uint by (simp add: runs_def)
    then show "runs_at n acc (\<lambda>st. case parse_uint R st of Inr (_, st') \<Rightarrow> Inr ((), st') | Inl _ \<Rightarrow> Inr ((), st)) (\<lambda>_. acc) st"
      by (cases "parse_uint R st") (auto simp: runs_at_def)
  qed
  show ?thesis
    unfolding parse_type_name_def Let_def by (rule running skip | simp)+
qed

text \<open>The circle of the methods: what holds of \<open>parse_expr\<close> and \<open>parse_select_statement\<close> one level
  deeper gives the same of every method.\<close>

locale nested_parsers =
  fixes R :: runtime and n :: nat and pe :: "pexpr parse_fn" and ps :: "select_statement parse_fn"
  assumes pe: "reads n pe pparams" and ps: "reads n ps stmt_params"
begin

lemmas steps = running runs_reads [OF pe] runs_reads [OF ps]

lemma reads_expr_list: "reads n (parse_expr_list R pe) (\<lambda>es. concat (map pparams es))"
  unfolding parse_expr_list_def by (rule readsI steps pe)+

lemma reads_function_args: "reads n (parse_function_args R pe) (\<lambda>r. concat (map pparams (fst r)))"
  unfolding parse_function_args_def by (rule readsI steps pe | simp)+

lemma reads_call: "reads n (parse_call R pe name) pparams"
  unfolding parse_call_def split_def by (rule readsI steps runs_reads [OF reads_function_args] | simp add: comp_def)+

lemma reads_name: "reads n (parse_name R pe name) pparams"
  unfolding parse_name_def by (rule readsI steps runs_reads [OF reads_call] | simp)+

lemma reads_parens: "reads n (parse_parens R pe ps) pparams"
proof -
  have "parse_parens R pe ps = (\<lambda>st. if ps_current st = TSelect
      then then_p ps (\<lambda>select. then_p (expect R TRParen) (\<lambda>_. ret (ScalarSubquery select))) st
      else then_p pe (\<lambda>e. then_p (expect R TRParen) (\<lambda>_. ret e)) st)"
    by (rule ext) (simp add: parse_parens_def)
  then show ?thesis by (simp only:) (rule readsI steps | simp)+
qed

lemma reads_when: "reads n (then_p pe (\<lambda>w. then_p (expect R TThen) (\<lambda>_. then_p pe (\<lambda>t. ret (w, t)))))
    (\<lambda>(w, t). pparams w @ pparams t)"
  by (rule readsI steps | simp)+

lemma runs_operand:
  "runs n acc (\<lambda>st. if ps_current st = TWhen then Inr (None, st) else then_p pe (\<lambda>e. ret (Some e)) st)
     (\<lambda>o1. acc @ case_option [] pparams o1)"
  by (rule steps | simp)+

lemma case_params:
  "pparams (Case operand whens els) = case_option [] pparams operand @
     concat (map (\<lambda>(w, t). pparams w @ pparams t) whens) @ case_option [] pparams els"
  by (auto simp: comp_def split_def split: option.split)

lemma reads_case: "reads n (parse_case R pe) pparams"
  unfolding parse_case_def
  by (rule readsI steps pe reads_when runs_operand | simp only: case_params append_assoc | simp)+

lemma reads_cast: "reads n (parse_cast R pe) pparams" "reads n (parse_convert R pe) pparams"
  unfolding parse_cast_def parse_convert_def by (rule readsI steps | simp)+

lemma runs_number: "runs n acc (\<lambda>st. and_then (number_literal s) (\<lambda>v. Inr (Literal v, st))) (\<lambda>e. acc @ pparams e)"
proof (cases "number_literal s")
  case (Inl e)
  then have "e \<noteq> OutOfFuel" by (auto simp: number_literal_def Let_def split: if_splits option.splits)
  then show ?thesis by (simp add: Inl runs_error)
qed (simp add: runs_value)

lemma runs_positional:
  "runs n acc (\<lambda>st. Inr (Param (Positional (ps_param_index st)), st\<lparr>ps_param_index := ps_param_index st + 1\<rparr>)) (\<lambda>e. acc @ pparams e)"
  by (auto simp: runs_def runs_at_def todo_def)

lemma runs_primary_keyword:
  assumes st: "ps_current st = Keyword k"
  shows "runs_at n acc (parse_primary R pe ps) (\<lambda>e. acc @ pparams e) st"
proof -
  have "todo (p_advance R st) \<le> todo st" using less_imp_le [OF todo_advance] st by simp
  then have lit: "parse_primary R pe ps st = Inr (Literal v, p_advance R st) \<Longrightarrow> ?thesis" for v
    by (simp add: runs_at_def)
  consider "k = KNull" | "k = KTrue" | "k = KFalse" | "k = KCase" | "k = KCast" | "k = KConvert"
    | "k \<notin> {KNull, KTrue, KFalse, KCase, KCast, KConvert}" by blast
  then show ?thesis
  proof cases
    case 4
    show ?thesis by (rule runs_at_stay [OF _ runs_reads [OF reads_case]]) (simp add: parse_primary_def st 4)
  next
    case 5
    show ?thesis by (rule runs_at_stay [OF _ runs_reads [OF reads_cast(1)]]) (simp add: parse_primary_def st 5)
  next
    case 6
    show ?thesis by (rule runs_at_stay [OF _ runs_reads [OF reads_cast(2)]]) (simp add: parse_primary_def st 6)
  next
    case 7
    then show ?thesis by (simp add: runs_at_def parse_primary_def st)
  qed (rule lit, simp add: parse_primary_def st)+
qed

lemma runs_primary_symbol:
  assumes st: "ps_current st = Symbol s"
  shows "runs_at n acc (parse_primary R pe ps) (\<lambda>e. acc @ pparams e) st"
proof -
  consider "s = SStar" | "s = SParam" | "s = SLParen" | "s \<notin> {SStar, SParam, SLParen}" by blast
  then show ?thesis
  proof cases
    case 1
    show ?thesis
      by (rule runs_at_advance [where q = "\<lambda>st. Inr (Star None, st)"]) (simp_all add: parse_primary_def st 1 runs_value)
  next
    case 2
    show ?thesis
      by (rule runs_at_advance [OF _ _ runs_positional]) (simp_all add: parse_primary_def st 2)
  next
    case 3
    show ?thesis
      by (rule runs_at_advance [OF _ _ runs_reads [OF reads_parens]]) (simp_all add: parse_primary_def st 3)
  next
    case 4
    then show ?thesis by (simp add: runs_at_def parse_primary_def st)
  qed
qed

lemma runs_primary_join_word:
  assumes st: "ps_current st = JoinWord j"
  shows "runs_at n acc (parse_primary R pe ps) (\<lambda>e. acc @ pparams e) st"
proof -
  have call: "runs n acc (then_p (expect R TLParen) (\<lambda>_. parse_call R pe name)) (\<lambda>e. acc @ pparams e)" for name
    by (rule steps runs_reads [OF reads_call] | simp)+
  consider "j = JLeft" | "j = JRight" | "j \<notin> {JLeft, JRight}" by blast
  then show ?thesis
  proof cases
    case 3
    then show ?thesis by (simp add: runs_at_def parse_primary_def st)
  qed (rule runs_at_advance [OF _ _ call], simp_all add: parse_primary_def st)+
qed

lemma reads_primary: "reads n (parse_primary R pe ps) pparams"
proof (rule readsI, unfold runs_def, rule allI)
  fix acc st
  show "runs_at n acc (parse_primary R pe ps) (\<lambda>e. acc @ pparams e) st"
  proof (cases "ps_current st")
    case (TNumber s)
    then show ?thesis by (intro runs_at_advance [OF _ _ runs_number [of _ s]]) (simp_all add: parse_primary_def)
  next
    case (TString s)
    then show ?thesis
      by (intro runs_at_advance [where q = "\<lambda>st. Inr (Literal (VString s), st)"]) (simp_all add: parse_primary_def runs_value)
  next
    case (TNamedParam s)
    then show ?thesis
      by (intro runs_at_advance [where q = "\<lambda>st. Inr (Param (Named_param s), st)"]) (simp_all add: parse_primary_def runs_value)
  next
    case (TIdentifier s)
    then show ?thesis
      by (intro runs_at_advance [OF _ _ runs_reads [OF reads_name [of s]]]) (simp_all add: parse_primary_def)
  qed (simp_all add: runs_primary_keyword runs_primary_symbol runs_primary_join_word, simp_all add: runs_at_def parse_primary_def)
qed

lemma reads_unary: "reads n (parse_unary R pe ps) pparams"
proof (rule readsI, unfold runs_def, rule allI)
  fix acc st
  have "runs_at n acc (unary_loop R (parse_primary R pe ps) (Suc (todo st))) (\<lambda>e. acc @ pparams e) st"
    by (rule unary_loop_runs [OF reads_primary]) simp
  then show "runs_at n acc (parse_unary R pe ps) (\<lambda>e. acc @ pparams e) st"
    by (simp only: runs_at_def parse_unary_def)
qed

lemma reads_concat: "reads n (parse_concat R pe ps) pparams"
  unfolding parse_concat_def parse_additive_def parse_term_def
  by (intro reads_left_assoc reads_unary) (simp_all add: additive_op_def term_op_def)

lemmas deeper = steps runs_reads [OF reads_concat] reads_concat

lemma runs_predicates:
  "runs n (acc @ pparams left) (parse_like R pe ps left b) (\<lambda>e. acc @ pparams e)"
  "runs n (acc @ pparams left) (parse_between R pe ps left b) (\<lambda>e. acc @ pparams e)"
  "runs n (acc @ pparams left) (parse_in R pe ps left b) (\<lambda>e. acc @ pparams e)"
  unfolding parse_like_def parse_between_def parse_in_def
  by (rule deeper runs_reads [OF reads_expr_list] | simp add: comp_def split: option.split)+

lemma runs_predicate_tail: "runs n (acc @ pparams left) (predicate_tail R pe ps left) (\<lambda>e. acc @ pparams e)"
  unfolding runs_def
proof
  fix st :: parser
  let ?acc = "acc @ pparams left" and ?h = "\<lambda>e. acc @ pparams e" and ?t = "ps_current st"
  have compare: "runs n ?acc (then_p (parse_concat R pe ps) (\<lambda>right. ret (Binary left op right))) ?h" for op
    by (rule deeper | simp)+
  have is_null: "runs n ?acc (then_p (eat R TNot) (\<lambda>b. then_p (expect R TNull) (\<lambda>_. ret (IsNull left b)))) ?h"
    by (rule deeper | simp)+
  have negated: "runs n ?acc (\<lambda>st'. if ps_current st' = TIn then parse_in R pe ps left True st'
      else if ps_current st' = TBetween then parse_between R pe ps left True st'
      else if ps_current st' = TLike then parse_like R pe ps left True st'
      else Inl (ExpectedAfterNot (ps_current st'))) ?h"
    using runs_predicates by (simp add: runs_def runs_at_def)
  show "runs_at n ?acc (predicate_tail R pe ps left) ?h st"
  proof (cases "comparison_op ?t")
    case (Some op)
    show ?thesis
      by (rule runs_at_advance [OF _ _ compare [of op]])
         (use Some in \<open>auto simp: predicate_tail_def comparison_op_def split: option.splits\<close>)
  next
    case None
    then consider "?t = TIs" | "?t = TIn" | "?t = TBetween" | "?t = TLike" | "?t = TNot"
      | "?t \<notin> {TIs, TIn, TBetween, TLike, TNot}" by blast
    then show ?thesis
    proof cases
      case 1
      show ?thesis by (rule runs_at_advance [OF _ _ is_null]) (simp_all add: predicate_tail_def None 1 [symmetric], simp add: 1)
    next
      case 2
      show ?thesis by (rule runs_at_stay [OF _ runs_predicates(3)]) (use None 2 in \<open>simp add: predicate_tail_def\<close>)
    next
      case 3
      show ?thesis by (rule runs_at_stay [OF _ runs_predicates(2)]) (use None 3 in \<open>simp add: predicate_tail_def\<close>)
    next
      case 4
      show ?thesis by (rule runs_at_stay [OF _ runs_predicates(1)]) (use None 4 in \<open>simp add: predicate_tail_def\<close>)
    next
      case 5
      show ?thesis by (rule runs_at_advance [OF _ _ negated]) (use None 5 in \<open>simp_all add: predicate_tail_def Let_def\<close>)
    next
      case 6
      then show ?thesis by (simp add: runs_at_def predicate_tail_def None Let_def)
    qed
  qed
qed

lemma reads_not: "reads n (parse_not R pe ps) pparams"
  unfolding parse_not_def parse_predicate_def
  by (rule readsI deeper runs_predicate_tail | simp)+

lemma reads_or: "reads n (parse_or R pe ps) pparams"
  unfolding parse_or_def parse_and_def by (intro reads_left_assoc reads_not) simp_all

lemma runs_limit: "runs n acc (parse_limit R) (\<lambda>_. acc)"
  unfolding parse_limit_def by (rule steps | simp)+

lemma reads_order_by: "reads n (parse_order_by R pe) (\<lambda>obs. concat (map (\<lambda>ob. expr_params (ob_expr (map_order_by_expr stmt_params ob))) obs))"
proof -
  have item: "reads n (parse_order_by_item R pe) (\<lambda>ob. expr_params (ob_expr (map_order_by_expr stmt_params ob)))"
    unfolding parse_order_by_item_def by (rule readsI steps | simp)+
  show ?thesis unfolding parse_order_by_def by (rule readsI, rule runs_comma_list, rule item)
qed

lemma runs_alias: "runs n acc (parse_optional_alias R) (\<lambda>_. acc)"
  unfolding parse_optional_alias_def by (rule steps | simp)+

lemma reads_table_ref: "reads n (parse_table_ref R ps) (\<lambda>t. table_params (map_table_ref stmt_params t))"
proof -
  have "reads n (parse_ident R) (\<lambda>_. [])" by (rule readsI) (simp add: runs_ident)
  note segs = runs_many [OF _ this]
  show ?thesis
    unfolding parse_table_ref_def by (rule readsI segs steps runs_alias | simp add: table_params_def)+
qed

lemma reads_joins:
  "reads n (parse_join_with_on R pe ps jt) jparams" "reads n (cross_join R ps) jparams"
  unfolding parse_join_with_on_def cross_join_def
  by (rule readsI steps runs_reads [OF reads_table_ref] | simp add: join_params_def)+

lemma parse_join_cases:
  "parse_join R pe ps st = Inr (None, st) \<or>
   ps_current st \<noteq> TEof \<and> (\<exists>q. parse_join R pe ps st = q (p_advance R st) \<and> reads n q (case_option [] jparams))"
proof -
  let ?t = "ps_current st" and ?some = "\<lambda>p. then_p p (\<lambda>j. ret (Some j))"
  note joins = readsI steps runs_reads [OF reads_joins(1)] runs_reads [OF reads_joins(2)]
  have cross: "reads n (?some (cross_join R ps)) (case_option [] jparams)"
    "reads n (?some (then_p (expect R TJoin) (\<lambda>_. cross_join R ps))) (case_option [] jparams)"
    by (rule joins | simp)+
  have inner: "reads n (?some (parse_join_with_on R pe ps Inner)) (case_option [] jparams)"
    "reads n (?some (then_p (expect R TJoin) (\<lambda>_. parse_join_with_on R pe ps Inner))) (case_option [] jparams)"
    by (rule joins | simp)+
  have outer: "reads n (?some (outer_join R pe ps jt)) (case_option [] jparams)" for jt
    unfolding outer_join_def by (rule joins | simp)+
  consider "?t = TComma" | "?t = TCross" | "?t = TJoin" | "?t = TInner" | "?t = TLeft" | "?t = TRight" | "?t = TFull"
    | "?t \<notin> {TComma, TCross, TJoin, TInner, TLeft, TRight, TFull}" by blast
  then show ?thesis
  proof cases
    case 3
    then have "parse_join R pe ps st = ?some (parse_join_with_on R pe ps Inner) (p_advance R st)"
      by (simp add: parse_join_def then_p_def eat_def if_eat_def expect_def ret_def)
    then show ?thesis using inner(1) 3 by auto
  next
    case 4
    then have "parse_join R pe ps st = ?some (then_p (expect R TJoin) (\<lambda>_. parse_join_with_on R pe ps Inner)) (p_advance R st)"
      by (simp add: parse_join_def then_p_def eat_def if_eat_def ret_def)
    then show ?thesis using inner(2) 4 by auto
  qed (use cross outer in \<open>auto simp: parse_join_def Let_def\<close>)
qed

lemma join_loop_runs: "todo st < m \<Longrightarrow> runs_at n acc (join_loop R pe ps m) (\<lambda>js. acc @ concat (map jparams js)) st"
proof (induction m arbitrary: acc st)
  case (Suc m)
  let ?k = "\<lambda>j. case j of None \<Rightarrow> ret [] | Some jn \<Rightarrow> then_p (join_loop R pe ps m) (\<lambda>js. ret (jn # js))"
  from parse_join_cases [of st] show ?case
  proof (elim disjE conjE exE)
    fix q assume ne: "ps_current st \<noteq> TEof" and q: "parse_join R pe ps st = q (p_advance R st)"
      "reads n q (case_option [] jparams)"
    have "runs_at n acc (then_p q ?k) (\<lambda>js. acc @ concat (map jparams js)) (p_advance R st)"
    proof (rule runs_at_then [OF reads_at [OF q(2)]])
      fix j st' assume "todo st' \<le> todo (p_advance R st)"
      then have "todo st' < m" using todo_advance [OF ne, of R] Suc.prems by simp
      note rest = runs_at_then [OF Suc.IH [OF this]]
      show "runs_at n (acc @ case_option [] jparams j) (?k j) (\<lambda>js. acc @ concat (map jparams js)) st'"
      proof (cases j)
        case (Some jn)
        show ?thesis unfolding Some option.case by (rule rest) (simp add: runs_at_def ret_def)
      qed (simp add: runs_at_def ret_def)
    qed
    from runs_advance [OF _ ne this] show ?thesis by (simp add: then_p_def q(1))
  qed (simp add: runs_at_def then_p_def ret_def)
qed simp

lemma reads_column: "reads n (parse_select_columns R pe) (\<lambda>cs. concat (map (\<lambda>sc. pparams (sc_expr sc)) cs))"
proof -
  have item: "reads n (parse_select_column R pe) (\<lambda>sc. pparams (sc_expr sc))"
    unfolding parse_select_column_def by (rule readsI steps runs_alias | simp)+
  show ?thesis unfolding parse_select_columns_def by (rule readsI, rule runs_comma_list, rule item)
qed

lemma reads_from:
  "reads n (parse_from R pe ps)
     (\<lambda>r. case_option [] (\<lambda>t. table_params (map_table_ref stmt_params t)) (fst r) @ concat (map jparams (snd r)))"
proof (rule readsI)
  fix acc
  have loop: "runs n acc (\<lambda>st. join_loop R pe ps (Suc (todo st)) st) (\<lambda>js. acc @ concat (map jparams js))" for acc
    unfolding runs_def
  proof
    fix st :: parser
    have "runs_at n acc (join_loop R pe ps (Suc (todo st))) (\<lambda>js. acc @ concat (map jparams js)) st"
      by (rule join_loop_runs) simp
    then show "runs_at n acc (\<lambda>st. join_loop R pe ps (Suc (todo st)) st) (\<lambda>js. acc @ concat (map jparams js)) st"
      by (simp only: runs_at_def)
  qed
  have "parse_from R pe ps = then_p (parse_table_ref R ps) (\<lambda>seed.
      then_p (\<lambda>st. join_loop R pe ps (Suc (todo st)) st) (\<lambda>joins. ret (Some seed, joins)))"
    by (simp only: parse_from_def then_p_def [abs_def])
  then show "runs n acc (parse_from R pe ps)
      (\<lambda>r. acc @ case_option [] (\<lambda>t. table_params (map_table_ref stmt_params t)) (fst r) @ concat (map jparams (snd r)))"
    by (simp only:) (rule runs_then [OF runs_reads [OF reads_table_ref]], rule runs_then [OF loop], rule runs_ret, simp)
qed

lemma reads_core: "reads n (parse_select_core R pe ps) (\<lambda>c. core_params (map_select_core stmt_params c))"
proof -
  have top_n: "reads n (parse_uint R) (\<lambda>_. [])" by (rule readsI) (simp add: runs_uint)
  have top_opt: "runs n acc (optional R TTop (parse_uint R)) (\<lambda>_. acc)" for acc
    using runs_optional [OF _ top_n, of TTop acc R] by (simp add: option.case_eq_if)
  have tables: "runs n acc (if_eat R TFrom (parse_from R pe ps) (ret (None, [])))
      (\<lambda>r. acc @ case_option [] (\<lambda>t. table_params (map_table_ref stmt_params t)) (fst r) @ concat (map jparams (snd r)))" for acc
    by (rule running runs_reads [OF reads_from] | simp)+
  have group: "runs n acc (if_eat R TGroup (then_p (expect R TBy) (\<lambda>_. parse_expr_list R pe)) (ret []))
      (\<lambda>es. acc @ concat (map pparams es))" for acc
    by (rule running runs_reads [OF reads_expr_list] | simp)+
  show ?thesis
    unfolding parse_select_core_def split_def
    by (rule readsI top_opt tables group runs_reads [OF reads_column] steps pe
       | simp add: core_params_map)+
qed

lemma reads_union: "reads n (parse_union R pe ps) (\<lambda>u. core_params (un_select (map_union_arm stmt_params u)))"
proof -
  have all1: "runs n acc (if_eat R TAll (ret True) (then_p (eat R TDistinct) (\<lambda>_. ret False))) (\<lambda>_. acc)" for acc
    by (rule running | simp)+
  show ?thesis
    unfolding parse_union_def by (rule readsI all1 runs_reads [OF reads_core] running | simp)+
qed

lemma lift_top_params: "core_params (map_select_core f (fst (lift_top body limit))) = core_params (map_select_core f body)"
proof -
  have "core_params (map_select_core f (clear_top body)) = core_params (map_select_core f body)"
    by (cases body) (simp add: clear_top_def core_params_def)
  then show ?thesis by (cases limit; cases "co_top body") (simp_all add: lift_top_def)
qed

lemma reads_statement: "reads n (parse_select_statement_inner R pe ps) stmt_params"
proof -
  have unions: "runs n acc (many R TUnion (parse_union R pe ps))
      (\<lambda>us. acc @ concat (map (\<lambda>u. core_params (un_select (map_union_arm stmt_params u))) us))" for acc
    by (rule runs_many [OF _ reads_union]) simp
  have order: "runs n acc (if_eat R TOrder (then_p (expect R TBy) (\<lambda>_. parse_order_by R pe)) (ret []))
      (\<lambda>obs. acc @ concat (map (\<lambda>ob. expr_params (ob_expr (map_order_by_expr stmt_params ob))) obs))" for acc
    by (rule running runs_reads [OF reads_order_by] | simp)+
  have limit1: "reads n (parse_limit R) (\<lambda>_. [])" by (rule readsI) (simp add: runs_limit)
  have limit: "runs n acc (optional R TLimit (parse_limit R)) (\<lambda>_. acc)" for acc
    using runs_optional [OF _ limit1, of TLimit acc R] by (simp add: option.case_eq_if)
  show ?thesis
    unfolding parse_select_statement_inner_def split_def Let_def
    by (rule readsI unions order limit runs_reads [OF reads_core] running
       | simp add: lift_top_params comp_def)+
qed

end

section \<open>The circle closed\<close>

lemma reads_nested:
  assumes "reads n p g"
  shows "reads (Suc n) (nested p) g"
proof (rule readsI, unfold runs_def, rule allI)
  fix acc st
  have todo: "todo (st\<lparr>ps_depth := d\<rparr>) = todo st" for st :: parser and d by (simp add: todo_def)
  show "runs_at (Suc n) acc (nested p) (\<lambda>x. acc @ g x) st"
    using reads_at [OF assms, of acc "st\<lparr>ps_depth := ps_depth st + 1\<rparr>"]
    by (cases "p (st\<lparr>ps_depth := ps_depth st + 1\<rparr>)") (auto simp: runs_at_def nested_def enter_depth_def todo)
qed

lemma reads_parse: "reads n (parse_expr R n) pparams \<and> reads n (parse_select_statement R n) stmt_params"
proof (induction n)
  case 0
  show ?case by (simp add: reads_def runs_def runs_at_def)
next
  case (Suc n)
  then have np: "nested_parsers n (parse_expr R n) (parse_select_statement R n)"
    by (simp add: nested_parsers_def)
  show ?case
    using reads_nested [OF nested_parsers.reads_or [OF np, of R]] reads_nested [OF nested_parsers.reads_statement [OF np, of R]]
    by (simp add: reads_def runs_def runs_at_def)
qed

interpretation sql_parser: nested_parsers R n "parse_expr R n" "parse_select_statement R n" for R n
  using reads_parse by unfold_locales simp_all

lemma parse_statement_spec:
  "ps_depth st = 0 \<Longrightarrow> ps_param_index st = 0 \<Longrightarrow>
   parse_statement R st \<noteq> Inl OutOfFuel \<and>
   (\<forall>stmt. parse_statement R st = Inr stmt \<longrightarrow> (\<exists>k. stmt_params stmt = [0..<k]))"
  using reads_at [OF conjunct2 [OF reads_parse [of "Suc max_nesting_depth" R]], of "[]" st]
  by (cases "parse_select_statement R (Suc max_nesting_depth) st")
     (auto simp: parse_statement_def runs_at_def split: token.splits simp del: parse_select_statement.simps)

lemma parser_new_simps [simp]: "ps_depth (parser_new R sql) = 0" "ps_param_index (parser_new R sql) = 0"
  by (simp_all add: parser_new_def case_prod_beta)

section \<open>Properties\<close>

text \<open>C16: Parsing ends. On every text the parser returns a statement or one of the errors of the source:
  the fuel for the nesting, one more than the deepest nesting allowed, and the fuel of the loops, the
  length of the text that is left, never run out.\<close>

theorem parse_terminates: "parse R sql \<noteq> Inl OutOfFuel"
  using parse_statement_spec by (simp add: parse_def)

text \<open>C17: Positional parameters. The question marks of a statement are numbered from zero in the order
  of the text, through all clauses, UNION arms and sub-selects, without gaps.\<close>

theorem params_numbered_in_order:
  assumes "parse R sql = Inr stmt"
  shows "stmt_params stmt = [0..<length (stmt_params stmt)]"
proof -
  obtain k where "stmt_params stmt = [0..<k]"
    using assms parse_statement_spec [of "parser_new R sql" R] by (auto simp: parse_def)
  then show ?thesis by simp
qed

lemma parse_two_params:
  "parse ascii_runtime (str ''SELECT ? FROM t WHERE x = ?'') =
   Inr (SelectStatement (SelectCore False None [SelectColumn (Param (Positional 0)) None] (Some (Named (str ''t'') None)) []
     (Some (Binary (Column None (str ''x'')) Eq (Param (Positional 1)))) [] None) [] [] None)"
  by code_simp

theorem params_numbered_in_order_witness:
  "stmt_params (SelectStatement (SelectCore False None [SelectColumn (Param (Positional 0)) None] (Some (Named (str ''t'') None)) []
     (Some (Binary (Column None (str ''x'')) Eq (Param (Positional 1)))) [] None) [] [] None) = [0, 1]"
  using params_numbered_in_order [OF parse_two_params] by (simp add: core_params_def table_params_def upt_rec)

end
