(* ===== verification/Printing.thy ===== *)
theory Printing
  imports Parser
begin

text \<open>
  Statements written as tokens, with every operand in parentheses, and the proof that the parser
  reads them back. The tokens a parser will see are a list; what may follow an expression at each
  level of precedence is a predicate on the next token.
\<close>

section \<open>Token streams\<close>

fun feeds :: "runtime \<Rightarrow> parser \<Rightarrow> token list \<Rightarrow> bool" where
  "feeds R st [] = True"
| "feeds R st (t # ts) = (ps_current st = t \<and> feeds R (p_advance R st) ts)"

lemma p_advance_fields [simp]:
  "p_advance R (st\<lparr>ps_depth := d\<rparr>) = (p_advance R st)\<lparr>ps_depth := d\<rparr>"
  "p_advance R (st\<lparr>ps_param_index := i\<rparr>) = (p_advance R st)\<lparr>ps_param_index := i\<rparr>"
  by (simp_all add: p_advance_def case_prod_beta)

lemma feeds_fields [simp]:
  "feeds R (st\<lparr>ps_depth := d\<rparr>) ts = feeds R st ts"
  "feeds R (st\<lparr>ps_param_index := i\<rparr>) ts = feeds R st ts"
  by (induction ts arbitrary: st) simp_all

lemma feeds_todo: "feeds R st (ts @ rs) \<Longrightarrow> TEof \<notin> set ts \<Longrightarrow> length ts \<le> todo st"
proof (induction ts arbitrary: st)
  case (Cons t ts)
  then have "length ts \<le> todo (p_advance R st)" "ps_current st \<noteq> TEof" by auto
  then show ?case using todo_advance [of st R] by simp
qed simp

text \<open>\<open>parses R look d p ts x\<close>: followed by a token that satisfies \<open>look\<close>, and with room for \<open>d\<close> more
  levels of nesting, \<open>p\<close> reads exactly the tokens \<open>ts\<close> and returns \<open>x\<close>.\<close>

definition parses :: "runtime \<Rightarrow> (token \<Rightarrow> bool) \<Rightarrow> nat \<Rightarrow> 'a parse_fn \<Rightarrow> token list \<Rightarrow> 'a \<Rightarrow> bool" where
  "parses R look d p ts x \<longleftrightarrow> TEof \<notin> set ts \<and>
     (\<forall>st rs. feeds R st (ts @ rs) \<longrightarrow> rs \<noteq> [] \<longrightarrow> look (hd rs) \<longrightarrow> ps_depth st + d \<le> max_nesting_depth \<longrightarrow>
        (\<exists>st'. p st = Inr (x, st') \<and> feeds R st' rs \<and> ps_depth st' = ps_depth st))"

lemma parsesI:
  assumes "TEof \<notin> set ts"
    and "\<And>st t rs. feeds R st (ts @ t # rs) \<Longrightarrow> look t \<Longrightarrow> ps_depth st + d \<le> max_nesting_depth \<Longrightarrow>
      \<exists>st'. p st = Inr (x, st') \<and> feeds R st' (t # rs) \<and> ps_depth st' = ps_depth st"
  shows "parses R look d p ts x"
  unfolding parses_def
proof (intro conjI assms(1) allI impI)
  fix st rs assume "feeds R st (ts @ rs)" "rs \<noteq> []" "look (hd rs)" "ps_depth st + d \<le> max_nesting_depth"
  then show "\<exists>st'. p st = Inr (x, st') \<and> feeds R st' rs \<and> ps_depth st' = ps_depth st"
    using assms(2) [of st "hd rs" "tl rs"] by simp
qed

lemma parsesE:
  assumes "parses R look d p ts x" "feeds R st (ts @ t # rs)" "look t" "ps_depth st + d \<le> max_nesting_depth"
  obtains st' where "p st = Inr (x, st')" "feeds R st' (t # rs)" "ps_depth st' = ps_depth st"
  using assms unfolding parses_def by (metis list.sel(1) list.distinct(1))

lemma parses_no_eof: "parses R look d p ts x \<Longrightarrow> TEof \<notin> set ts"
  by (simp add: parses_def)

lemma parses_weaken:
  assumes "parses R look d p ts x" "\<And>t. look' t \<Longrightarrow> look t" "d \<le> d'"
  shows "parses R look' d' p ts x"
proof (rule parsesI)
  show "TEof \<notin> set ts" using assms(1) by (rule parses_no_eof)
  fix st t rs assume "feeds R st (ts @ t # rs)" "look' t" "ps_depth st + d' \<le> max_nesting_depth"
  then show "\<exists>st'. p st = Inr (x, st') \<and> feeds R st' (t # rs) \<and> ps_depth st' = ps_depth st"
    using assms(2,3) by (elim parsesE [OF assms(1)]) auto
qed

named_theorems parsing \<open>rules for reading tokens\<close>

lemma parses_ret [parsing]: "parses R look d (ret x) [] x"
  by (rule parsesI) (simp_all add: ret_def)

text \<open>In sequence; the first token of the second part follows the first part.\<close>

definition follows :: "(token \<Rightarrow> bool) \<Rightarrow> (token \<Rightarrow> bool) \<Rightarrow> token list \<Rightarrow> bool" where
  "follows look look1 us \<longleftrightarrow> (case us of [] \<Rightarrow> (\<forall>t. look t \<longrightarrow> look1 t) | u # _ \<Rightarrow> look1 u)"

lemma follows_simps [simp]:
  "follows look look1 [] \<longleftrightarrow> (\<forall>t. look t \<longrightarrow> look1 t)" "follows look look1 (u # us) \<longleftrightarrow> look1 u"
  by (simp_all add: follows_def)

lemma parses_then:
  assumes "parses R look1 d p ts x" "parses R look d (k x) us y" "follows look look1 us"
  shows "parses R look d (then_p p k) (ts @ us) y"
proof (rule parsesI)
  show "TEof \<notin> set (ts @ us)" using parses_no_eof [OF assms(1)] parses_no_eof [OF assms(2)] by simp
  fix st t rs assume *: "feeds R st ((ts @ us) @ t # rs)" "look t" "ps_depth st + d \<le> max_nesting_depth"
  obtain t1 r1 where us: "us @ t # rs = t1 # r1" "look1 t1"
    using assms(3) *(2) by (cases us) auto
  obtain st1 where st1: "p st = Inr (x, st1)" "feeds R st1 (t1 # r1)" "ps_depth st1 = ps_depth st"
    using parsesE [OF assms(1), of st t1 r1] *(1,3) us by auto
  obtain st2 where "k x st1 = Inr (y, st2)" "feeds R st2 (t # rs)" "ps_depth st2 = ps_depth st1"
    using parsesE [OF assms(2), of st1 t rs] st1 *(2,3) us(1) by auto
  then show "\<exists>st'. then_p p k st = Inr (y, st') \<and> feeds R st' (t # rs) \<and> ps_depth st' = ps_depth st"
    using st1 by (simp add: then_p_def)
qed

lemma parses_expect [parsing]: "tok \<noteq> TEof \<Longrightarrow> parses R look d (expect R tok) [tok] ()"
  by (rule parsesI) (auto simp: expect_def)

lemma parses_ident [parsing]: "parses R look d (parse_ident R) [TIdentifier s] s"
  by (rule parsesI) (auto simp: parse_ident_def)

lemma parses_uint: "parse_usize s = Some v \<Longrightarrow> parses R look d (parse_uint R) [TNumber s] v"
  by (rule parsesI) (auto simp: parse_uint_def)

lemma parses_token:
  "(\<And>st. ps_current st = tok \<Longrightarrow> p st = Inr (x, p_advance R st)) \<Longrightarrow> tok \<noteq> TEof \<Longrightarrow> parses R look d p [tok] x"
  by (rule parsesI) auto

text \<open>A parser that behaves as another on the token at hand.\<close>

lemma parses_same:
  assumes "parses R look d q ts x" "\<And>st. follows look (\<lambda>t. ps_current st = t \<longrightarrow> p st = q st) ts"
  shows "parses R look d p ts x"
proof (rule parsesI)
  show "TEof \<notin> set ts" using assms(1) by (rule parses_no_eof)
  fix st t rs assume *: "feeds R st (ts @ t # rs)" "look t" "ps_depth st + d \<le> max_nesting_depth"
  then have "p st = q st" using assms(2) [of st] by (cases ts) auto
  with * show "\<exists>st'. p st = Inr (x, st') \<and> feeds R st' (t # rs) \<and> ps_depth st' = ps_depth st"
    by (elim parsesE [OF assms(1)]) auto
qed

lemma parses_after:
  assumes "parses R look d q ts x" "\<And>st. ps_current st = tok \<Longrightarrow> p st = q (p_advance R st)" "tok \<noteq> TEof"
  shows "parses R look d p (tok # ts) x"
proof (rule parsesI)
  show "TEof \<notin> set (tok # ts)" using parses_no_eof [OF assms(1)] assms(3) by simp
  fix st t rs assume *: "feeds R st ((tok # ts) @ t # rs)" "look t" "ps_depth st + d \<le> max_nesting_depth"
  then obtain st' where "q (p_advance R st) = Inr (x, st')" "feeds R st' (t # rs)" "ps_depth st' = ps_depth st"
    using parsesE [OF assms(1), of "p_advance R st" t rs] by auto
  then show "\<exists>st'. p st = Inr (x, st') \<and> feeds R st' (t # rs) \<and> ps_depth st' = ps_depth st"
    using assms(2) *(1) by auto
qed

lemma parses_if_eat: "parses R look d p ts x \<Longrightarrow> tok \<noteq> TEof \<Longrightarrow> parses R look d (if_eat R tok p q) (tok # ts) x"
  by (rule parses_after) (simp_all add: if_eat_def)

lemma parses_if_not: "parses R look d q ts x \<Longrightarrow> follows look (\<lambda>t. t \<noteq> tok) ts \<Longrightarrow> parses R look d (if_eat R tok p q) ts x"
  by (rule parses_same) (auto simp: if_eat_def follows_def split: list.splits)

lemma parses_map: "parses R look d p ts x \<Longrightarrow> parses R look d (then_p p (\<lambda>x. ret (f x))) ts (f x)"
  using parses_then [of R look d p ts x look "\<lambda>x. ret (f x)" "[]", OF _ parses_ret] by simp

lemma parses_expect_then:
  "parses R look d k ts y \<Longrightarrow> tok \<noteq> TEof \<Longrightarrow> parses R look d (then_p (expect R tok) (\<lambda>_. k)) (tok # ts) y"
  by (rule parses_after) (simp_all add: then_p_def expect_def)

lemma parses_eat:
  assumes "\<And>t. look t \<Longrightarrow> t \<noteq> tok" "tok \<noteq> TEof"
  shows "parses R look d (eat R tok) (if b then [tok] else []) b"
proof (cases b)
  case True
  then show ?thesis unfolding eat_def using parses_if_eat [OF parses_ret assms(2)] by simp
next
  case False
  then show ?thesis unfolding eat_def using parses_if_not [OF parses_ret, of look tok] assms(1) by simp
qed

lemma parses_optional:
  "parses R look d p ts x \<Longrightarrow> tok \<noteq> TEof \<Longrightarrow> parses R look d (optional R tok p) (tok # ts) (Some x)"
  unfolding optional_def by (rule parses_if_eat [OF parses_map])

lemma parses_optional_none:
  "(\<And>t. look t \<Longrightarrow> t \<noteq> tok) \<Longrightarrow> parses R look d (optional R tok p) [] None"
  unfolding optional_def by (rule parses_if_not [OF parses_ret]) simp

lemma many_loop_parses:
  assumes "list_all2 (parses R (\<lambda>t. look t \<or> t = tok) d p) tss xs" "\<And>t. look t \<Longrightarrow> t \<noteq> tok"
    and "feeds R st (concat (map ((#) tok) tss) @ t # rs)" "look t" "ps_depth st + d \<le> max_nesting_depth" "length xs < m"
  shows "\<exists>st'. many_loop R tok p m st = Inr (xs, st') \<and> feeds R st' (t # rs) \<and> ps_depth st' = ps_depth st"
  using assms(1,3,5,6)
proof (induction tss arbitrary: xs st m)
  case Nil
  then show ?case using assms(2,4) by (cases m) auto
next
  case (Cons ts tss)
  then obtain x xs' m' where xs: "xs = x # xs'" "m = Suc m'" "parses R (\<lambda>t. look t \<or> t = tok) d p ts x"
    "list_all2 (parses R (\<lambda>t. look t \<or> t = tok) d p) tss xs'"
    by (cases m) (auto simp: list_all2_Cons1)
  obtain t1 r1 where tail: "concat (map ((#) tok) tss) @ t # rs = t1 # r1" "look t1 \<or> t1 = tok"
    using assms(4) by (cases tss) auto
  obtain st1 where st1: "p (p_advance R st) = Inr (x, st1)" "feeds R st1 (t1 # r1)" "ps_depth st1 = ps_depth st"
    using parsesE [OF xs(3), of "p_advance R st" t1 r1] Cons.prems(2,3) tail by auto
  obtain st2 where "many_loop R tok p m' st1 = Inr (xs', st2)" "feeds R st2 (t # rs)" "ps_depth st2 = ps_depth st1"
    using Cons.IH [OF xs(4), of st1 m'] st1 Cons.prems(3,4) tail xs(1,2) by auto
  then show ?case
    using Cons.prems(2) st1 by (auto simp: xs(1,2) then_p_def ret_def)
qed

lemma parses_many:
  assumes "list_all2 (parses R (\<lambda>t. look t \<or> t = tok) d p) tss xs" "\<And>t. look t \<Longrightarrow> t \<noteq> tok" "tok \<noteq> TEof"
  shows "parses R look d (many R tok p) (concat (map ((#) tok) tss)) xs"
proof (rule parsesI)
  have "length tss \<le> length (concat (map ((#) tok) tss))" by (induction tss) auto
  then have len: "length xs \<le> length (concat (map ((#) tok) tss))"
    using list_all2_lengthD [OF assms(1)] by simp
  show eof: "TEof \<notin> set (concat (map ((#) tok) tss))"
    using assms(1,3) by (induction rule: list_all2_induct) (auto dest: parses_no_eof)
  fix st t rs assume *: "feeds R st (concat (map ((#) tok) tss) @ t # rs)" "look t" "ps_depth st + d \<le> max_nesting_depth"
  have "length xs < Suc (todo st)"
    using feeds_todo [OF *(1) eof] len by simp
  then show "\<exists>st'. many R tok p st = Inr (xs, st') \<and> feeds R st' (t # rs) \<and> ps_depth st' = ps_depth st"
    unfolding many_def by (rule many_loop_parses [OF assms(1) assms(2) *, rotated])
qed

definition commas :: "token list list \<Rightarrow> token list" where
  "commas tss = hd tss @ concat (map ((#) TComma) (tl tss))"

lemma parses_comma_list:
  assumes "list_all2 (parses R (\<lambda>t. look t \<or> t = TComma) d p) tss xs" "\<And>t. look t \<Longrightarrow> t \<noteq> TComma" "xs \<noteq> []"
  shows "parses R look d (comma_list R p) (commas tss) xs"
proof -
  obtain ts tss' x xs' where c: "tss = ts # tss'" "xs = x # xs'" "parses R (\<lambda>t. look t \<or> t = TComma) d p ts x"
    "list_all2 (parses R (\<lambda>t. look t \<or> t = TComma) d p) tss' xs'"
    using assms(1,3) by (auto simp: list_all2_Cons2 neq_Nil_conv)
  have rest: "parses R look d (then_p (many R TComma p) (\<lambda>xs. ret (x # xs))) (concat (map ((#) TComma) tss')) (x # xs')"
    by (rule parses_map [OF parses_many [OF c(4) assms(2)]]) simp_all
  have foll: "follows look (\<lambda>t. look t \<or> t = TComma) (concat (map ((#) TComma) tss'))"
    by (cases tss') auto
  show ?thesis
    unfolding comma_list_def commas_def c(1,2) list.sel by (rule parses_then [OF c(3)]) (rule rest, rule foll)
qed

section \<open>Levels of precedence\<close>

lemma parses_left_assoc1:
  assumes "parses R look d p ts x" "\<And>t. look t \<Longrightarrow> ops t = None"
  shows "parses R look d (left_assoc R ops p) ts x"
proof -
  have "parses R look d (\<lambda>st. left_loop R ops p (Suc (todo st)) x st) [] x"
    by (rule parsesI) (use assms(2) in auto)
  then show ?thesis
    unfolding left_assoc_def using parses_then [OF assms(1), of look _ "[]"] by simp
qed

lemma parses_left_assoc2:
  assumes "parses R look1 d p ts x" "parses R look d p us y" "ops tok = Some op" "look1 tok" "tok \<noteq> TEof"
    "\<And>t. look t \<Longrightarrow> ops t = None"
  shows "parses R look d (left_assoc R ops p) (ts @ tok # us) (Binary x op y)"
proof -
  have "parses R look d (\<lambda>st. left_loop R ops p (Suc (todo st)) x st) (tok # us) (Binary x op y)"
  proof (rule parsesI)
    show "TEof \<notin> set (tok # us)" using parses_no_eof [OF assms(2)] assms(5) by simp
    fix st t rs assume *: "feeds R st ((tok # us) @ t # rs)" "look t" "ps_depth st + d \<le> max_nesting_depth"
    then obtain m where m: "todo st = Suc m" using assms(5) by (cases "todo st") (auto simp: todo_def)
    obtain st1 where "p (p_advance R st) = Inr (y, st1)" "feeds R st1 (t # rs)" "ps_depth st1 = ps_depth st"
      using parsesE [OF assms(2), of "p_advance R st" t rs] * by auto
    then show "\<exists>st'. left_loop R ops p (Suc (todo st)) x st = Inr (Binary x op y, st') \<and> feeds R st' (t # rs) \<and> ps_depth st' = ps_depth st"
      using *(1,2) assms(3,6) by (simp add: m then_p_def)
  qed
  then show ?thesis
    unfolding left_assoc_def using parses_then [OF assms(1), of look _ "tok # us"] assms(4) by simp
qed

text \<open>What may follow an expression read at a level without becoming part of it.\<close>

definition stop0 :: "token \<Rightarrow> bool" where "stop0 t \<longleftrightarrow> t \<notin> {TLParen, TDot}"
definition stop1 :: "token \<Rightarrow> bool" where "stop1 t \<longleftrightarrow> stop0 t \<and> term_op t = None"
definition stop2 :: "token \<Rightarrow> bool" where "stop2 t \<longleftrightarrow> stop1 t \<and> additive_op t = None"
definition stop3 :: "token \<Rightarrow> bool" where "stop3 t \<longleftrightarrow> stop2 t \<and> t \<noteq> TConcat"
definition stop4 :: "token \<Rightarrow> bool" where
  "stop4 t \<longleftrightarrow> stop3 t \<and> comparison_op t = None \<and> t \<notin> {TIs, TIn, TBetween, TLike, TNot, TEscape}"
definition stop5 :: "token \<Rightarrow> bool" where "stop5 t \<longleftrightarrow> stop4 t \<and> t \<noteq> TAnd"
definition stop6 :: "token \<Rightarrow> bool" where "stop6 t \<longleftrightarrow> stop5 t \<and> t \<noteq> TOr"

lemmas stops = stop0_def stop1_def stop2_def stop3_def stop4_def stop5_def stop6_def
  term_op_def additive_op_def comparison_op_def

definition is_operand :: "token list \<Rightarrow> bool" where
  "is_operand ts \<longleftrightarrow> (case ts of [] \<Rightarrow> False | t # _ \<Rightarrow> t \<notin> {TMinus, TPlus, TNot})"

lemma parses_unary1:
  assumes "parses R stop0 d (parse_primary R pe ps) ts x" "is_operand ts"
  shows "parses R stop0 d (parse_unary R pe ps) ts x"
  using assms(2) by (intro parses_same [OF assms(1)]) (auto simp: is_operand_def parse_unary_def split: list.splits)

lemma parses_signed:
  assumes "parses R look d (parse_primary R pe ps) ts x" "is_operand ts" "(tok, op) \<in> {(TMinus, Neg), (TPlus, Plus)}"
  shows "parses R look d (parse_unary R pe ps) (tok # ts) (Unary op x)"
proof (rule parsesI)
  show "TEof \<notin> set (tok # ts)" using parses_no_eof [OF assms(1)] assms(3) by auto
  fix st t rs assume *: "feeds R st ((tok # ts) @ t # rs)" "look t" "ps_depth st + d \<le> max_nesting_depth"
  then obtain m where m: "todo st = Suc m" using assms(3) by (cases "todo st") (auto simp: todo_def)
  obtain st1 where st1: "parse_primary R pe ps (p_advance R st) = Inr (x, st1)" "feeds R st1 (t # rs)" "ps_depth st1 = ps_depth st"
    using parsesE [OF assms(1), of "p_advance R st" t rs] * by auto
  have "ps_current (p_advance R st) \<notin> {TMinus, TPlus}"
    using *(1) assms(2) by (cases ts) (auto simp: is_operand_def)
  then show "\<exists>st'. parse_unary R pe ps st = Inr (Unary op x, st') \<and> feeds R st' (t # rs) \<and> ps_depth st' = ps_depth st"
    using * st1 assms(3) by (auto simp: parse_unary_def m then_p_def ret_def)
qed

lemma parses_predicate1:
  assumes "parses R stop3 d (parse_concat R pe ps) ts x"
  shows "parses R stop4 d (parse_predicate R pe ps) ts x"
proof -
  have "parses R stop4 d (predicate_tail R pe ps x) [] x"
    by (rule parsesI) (auto simp: predicate_tail_def stop4_def Let_def)
  then show ?thesis
    unfolding parse_predicate_def using parses_then [OF assms, of stop4 _ "[]"] by (simp add: stop4_def)
qed

lemma parses_not1:
  assumes "parses R look d (parse_predicate R pe ps) ts x" "is_operand ts"
  shows "parses R look d (parse_not R pe ps) ts x"
  unfolding parse_not_def using assms(2) by (intro parses_if_not [OF assms(1)]) (auto simp: is_operand_def split: list.splits)

lemma term_up: "parses R stop0 d (parse_unary R pe ps) ts x \<Longrightarrow> parses R stop1 d (parse_term R pe ps) ts x"
  unfolding parse_term_def by (rule parses_left_assoc1, erule parses_weaken) (auto simp: stop1_def)

lemma additive_up: "parses R stop1 d (parse_term R pe ps) ts x \<Longrightarrow> parses R stop2 d (parse_additive R pe ps) ts x"
  unfolding parse_additive_def by (rule parses_left_assoc1, erule parses_weaken) (auto simp: stop2_def)

lemma concat_up: "parses R stop2 d (parse_additive R pe ps) ts x \<Longrightarrow> parses R stop3 d (parse_concat R pe ps) ts x"
  unfolding parse_concat_def by (rule parses_left_assoc1, erule parses_weaken) (auto simp: stop3_def)

lemma and_up: "parses R stop4 d (parse_not R pe ps) ts x \<Longrightarrow> parses R stop5 d (parse_and R pe ps) ts x"
  unfolding parse_and_def by (rule parses_left_assoc1, erule parses_weaken) (auto simp: stop5_def)

lemma or_up: "parses R stop5 d (parse_and R pe ps) ts x \<Longrightarrow> parses R stop6 d (parse_or R pe ps) ts x"
  unfolding parse_or_def by (rule parses_left_assoc1, erule parses_weaken) (auto simp: stop6_def)

lemmas to_or = or_up [OF and_up]
lemmas from_concat = to_or [OF parses_not1 [OF parses_predicate1]]
lemmas from_additive = from_concat [OF concat_up]
lemmas from_term = from_additive [OF additive_up]
lemmas from_primary = from_term [OF term_up [OF parses_unary1]]

lemma parses_nested: "parses R look d p ts x \<Longrightarrow> parses R look (Suc d) (nested p) ts x"
proof (rule parsesI)
  assume p: "parses R look d p ts x"
  then show "TEof \<notin> set ts" by (rule parses_no_eof)
  fix st t rs assume *: "feeds R st (ts @ t # rs)" "look t" "ps_depth st + Suc d \<le> max_nesting_depth"
  then obtain st' where "p (st\<lparr>ps_depth := Suc (ps_depth st)\<rparr>) = Inr (x, st')" "feeds R st' (t # rs)" "ps_depth st' = Suc (ps_depth st)"
    using parsesE [OF p, of "st\<lparr>ps_depth := Suc (ps_depth st)\<rparr>" t rs] by auto
  then show "\<exists>st'. nested p st = Inr (x, st') \<and> feeds R st' (t # rs) \<and> ps_depth st' = ps_depth st"
    using *(3) by (simp add: nested_def enter_depth_def)
qed

section \<open>Printing\<close>

definition atomic :: "'sel expr \<Rightarrow> bool" where
  "atomic e \<longleftrightarrow>
     (case e of
        Binary _ _ _ \<Rightarrow> False | Unary _ _ \<Rightarrow> False | IsNull _ _ \<Rightarrow> False | InList _ _ _ \<Rightarrow> False
      | InSubquery _ _ _ \<Rightarrow> False | Between _ _ _ _ \<Rightarrow> False | Like _ _ _ _ _ \<Rightarrow> False | _ \<Rightarrow> True)"

definition wrap :: "'sel expr \<Rightarrow> token list \<Rightarrow> token list" where
  "wrap e ts = (if atomic e then ts else TLParen # ts @ [TRParen])"

definition literal_tokens :: "cfml_value \<Rightarrow> token list" where
  "literal_tokens v =
     (case v of
        VNull \<Rightarrow> [TNull] | VBool b \<Rightarrow> [if b then TTrue else TFalse] | VInt i \<Rightarrow> [TNumber (show_i64 i)]
      | VString s \<Rightarrow> [TString s] | _ \<Rightarrow> [])"

primrec op_token :: "binary_op \<Rightarrow> token" where
  "op_token Eq = TEq" | "op_token Neq = TNeq" | "op_token Lt = TLt" | "op_token Lte = TLte"
| "op_token Gt = TGt" | "op_token Gte = TGte" | "op_token And = TAnd" | "op_token Or = TOr"
| "op_token Add = TPlus" | "op_token Sub = TMinus" | "op_token Mul = TStar" | "op_token Div = TSlash"
| "op_token Mod = TMod" | "op_token Concat = TConcat" | "op_token BitAnd = TAmp" | "op_token BitOr = TPipe"
| "op_token BitXor = TCaret"

primrec unary_token :: "unary_op \<Rightarrow> token" where
  "unary_token Not_op = TNot" | "unary_token Neg = TMinus" | "unary_token Plus = TPlus"

definition negation :: "bool \<Rightarrow> token list" where
  "negation b = (if b then [TNot] else [])"

definition opt_tokens :: "(token list \<Rightarrow> token list) \<Rightarrow> token list option \<Rightarrow> token list" where
  "opt_tokens f o1 = (case o1 of None \<Rightarrow> [] | Some ts \<Rightarrow> f ts)"

text \<open>An expression whose sub-selects are already tokens.\<close>

primrec expr_tokens :: "token list expr \<Rightarrow> token list" where
  "expr_tokens (Star t) = (case t of None \<Rightarrow> [TStar] | Some n \<Rightarrow> [TIdentifier n, TDot, TStar])"
| "expr_tokens (Column t n) = (case t of None \<Rightarrow> [TIdentifier n] | Some m \<Rightarrow> [TIdentifier m, TDot, TIdentifier n])"
| "expr_tokens (ResolvedColumn ti ci n) = [TIdentifier n]"
| "expr_tokens (Literal v) = literal_tokens v"
| "expr_tokens (Binary l op r) = wrap l (expr_tokens l) @ op_token op # wrap r (expr_tokens r)"
| "expr_tokens (Unary op e) = unary_token op # wrap e (expr_tokens e)"
| "expr_tokens (Function name args d) =
     TIdentifier name # TLParen # (if d then [TDistinct] else []) @
     (let tss = map expr_tokens args in if tss = [] then [] else commas tss) @ [TRParen]"
| "expr_tokens (Case operand whens els) =
     TCase # opt_tokens id (map_option expr_tokens operand) @
     concat (map (\<lambda>(w, t). TWhen # w @ TThen # t) (map (map_prod expr_tokens expr_tokens) whens)) @
     opt_tokens ((#) TElse) (map_option expr_tokens els) @ [TEnd]"
| "expr_tokens (Cast e ty) = TCast # TLParen # expr_tokens e @ [TAs, TIdentifier ty, TRParen]"
| "expr_tokens (IsNull e n) = wrap e (expr_tokens e) @ TIs # negation n @ [TNull]"
| "expr_tokens (InList e n es) =
     wrap e (expr_tokens e) @ negation n @ TIn # TLParen # commas (map expr_tokens es) @ [TRParen]"
| "expr_tokens (InSubquery e n q) = wrap e (expr_tokens e) @ negation n @ TIn # TLParen # q @ [TRParen]"
| "expr_tokens (Between e n lo hi) =
     wrap e (expr_tokens e) @ negation n @ TBetween # wrap lo (expr_tokens lo) @ TAnd # wrap hi (expr_tokens hi)"
| "expr_tokens (Like e n p esc c) =
     wrap e (expr_tokens e) @ negation n @ TLike # wrap p (expr_tokens p) @
     opt_tokens (\<lambda>ts. TEscape # TLParen # ts @ [TRParen]) (map_option expr_tokens esc)"
| "expr_tokens (ScalarSubquery q) = TLParen # q @ [TRParen]"
| "expr_tokens (Param p) = (case p of Positional _ \<Rightarrow> [TParam] | Named_param n \<Rightarrow> [TNamedParam n])"

text \<open>The nesting the printed form needs of the parser; sub-selects are replaced by theirs.\<close>

primrec expr_nest :: "nat expr \<Rightarrow> nat" where
  "expr_nest (Star t) = 0"
| "expr_nest (Column t n) = 0"
| "expr_nest (ResolvedColumn ti ci n) = 0"
| "expr_nest (Literal v) = 0"
| "expr_nest (Binary l op r) = Suc (max (expr_nest l) (expr_nest r))"
| "expr_nest (Unary op e) = Suc (expr_nest e)"
| "expr_nest (Function name args d) = Suc (foldr max (map expr_nest args) 0)"
| "expr_nest (Case operand whens els) =
     Suc (max (case_option 0 id (map_option expr_nest operand))
       (max (foldr max (map (\<lambda>(w, t). max w t) (map (map_prod expr_nest expr_nest) whens)) 0)
          (case_option 0 id (map_option expr_nest els))))"
| "expr_nest (Cast e ty) = Suc (expr_nest e)"
| "expr_nest (IsNull e n) = Suc (expr_nest e)"
| "expr_nest (InList e n es) = Suc (max (expr_nest e) (Suc (foldr max (map expr_nest es) 0)))"
| "expr_nest (InSubquery e n q) = Suc (max (expr_nest e) q)"
| "expr_nest (Between e n lo hi) = Suc (max (expr_nest e) (max (expr_nest lo) (expr_nest hi)))"
| "expr_nest (Like e n p esc c) =
     Suc (max (expr_nest e) (max (expr_nest p) (case_option 0 Suc (map_option expr_nest esc))))"
| "expr_nest (ScalarSubquery q) = q"
| "expr_nest (Param p) = 0"

text \<open>The expressions a query text can contain, positional parameters apart, which carry the number
  of their question mark.\<close>

primrec writable :: "runtime \<Rightarrow> 'sel expr \<Rightarrow> bool" where
  "writable R (Star t) = True"
| "writable R (Column t n) = True"
| "writable R (ResolvedColumn ti ci n) = False"
| "writable R (Literal v) = (case v of VNull \<Rightarrow> True | VBool _ \<Rightarrow> True | VString _ \<Rightarrow> True | VInt i \<Rightarrow> 0 \<le> sint i | _ \<Rightarrow> False)"
| "writable R (Binary l op r) = (writable R l \<and> writable R r)"
| "writable R (Unary op e) = writable R e"
| "writable R (Function name args d) = list_all id (map (writable R) args)"
| "writable R (Case operand whens els) =
     (whens \<noteq> [] \<and> pred_option id (map_option (writable R) operand) \<and>
      list_all (\<lambda>(w, t). w \<and> t) (map (map_prod (writable R) (writable R)) whens) \<and> pred_option id (map_option (writable R) els))"
| "writable R (Cast e ty) = (writable R e \<and> rt_lower R ty = ty)"
| "writable R (IsNull e n) = writable R e"
| "writable R (InList e n es) = (es \<noteq> [] \<and> writable R e \<and> list_all id (map (writable R) es))"
| "writable R (InSubquery e n q) = writable R e"
| "writable R (Between e n lo hi) = (writable R e \<and> writable R lo \<and> writable R hi)"
| "writable R (Like e n p esc c) = (c = None \<and> writable R e \<and> writable R p \<and> pred_option id (map_option (writable R) esc))"
| "writable R (ScalarSubquery q) = True"
| "writable R (Param p) =
     (case p of
        Positional _ \<Rightarrow> False
      | Named_param n \<Rightarrow> n \<noteq> [] \<and> list_all (\<lambda>c. rt_alphanumeric R c \<or> c = ch CHR ''_'') n)"

section \<open>Reading back\<close>

abbreviation primary_at :: "runtime \<Rightarrow> nat \<Rightarrow> pexpr parse_fn" where
  "primary_at R n \<equiv> parse_primary R (parse_expr R n) (parse_select_statement R n)"

abbreviation or_at :: "runtime \<Rightarrow> nat \<Rightarrow> pexpr parse_fn" where
  "or_at R n \<equiv> parse_or R (parse_expr R n) (parse_select_statement R n)"

definition first_ok :: "token list \<Rightarrow> bool" where
  "first_ok ts \<longleftrightarrow> (case ts of [] \<Rightarrow> False | t # _ \<Rightarrow> t \<notin> {TSelect, TRParen, TDistinct, TWhen, TTop})"

lemma first_ok_simps [simp]:
  "first_ok (t # ts) \<longleftrightarrow> t \<notin> {TSelect, TRParen, TDistinct, TWhen, TTop}" "\<not> first_ok []"
  by (simp_all add: first_ok_def)

lemma is_operand_simps [simp]: "is_operand (t # ts) \<longleftrightarrow> t \<notin> {TMinus, TPlus, TNot}" "\<not> is_operand []"
  by (simp_all add: is_operand_def)

lemma first_ok_append [simp]: "first_ok ts \<Longrightarrow> first_ok (ts @ us)"
  by (cases ts) simp_all

text \<open>\<open>reads_expr R e ts d\<close>: given \<open>d\<close> levels of nesting, the tokens \<open>ts\<close> are read back as \<open>e\<close>, in
  parentheses where an operand is expected and as they are where an expression is.\<close>

definition reads_expr :: "runtime \<Rightarrow> pexpr \<Rightarrow> token list \<Rightarrow> nat \<Rightarrow> bool" where
  "reads_expr R e ts d \<longleftrightarrow> is_operand (wrap e ts) \<and> first_ok ts \<and>
     (\<forall>n \<ge> d. parses R stop0 d (primary_at R n) (wrap e ts) e \<and> parses R stop6 (Suc d) (parse_expr R (Suc n)) ts e)"

lemma parse_expr_fun: "parse_expr R (Suc n) = nested (or_at R n)"
  by (rule ext) simp

lemma reads_atomic:
  assumes "atomic e" "is_operand ts" "first_ok ts" "\<And>n. d \<le> n \<Longrightarrow> parses R stop0 d (primary_at R n) ts e"
  shows "reads_expr R e ts d"
  using assms parses_nested [OF from_primary [OF assms(4) assms(2)]]
  by (simp add: reads_expr_def wrap_def parse_expr_fun)

lemma parses_parens:
  assumes "parses R look d p ts x" "look TRParen"
  shows "parses R look' d (then_p p (\<lambda>e. then_p (expect R TRParen) (\<lambda>_. ret (f e)))) (ts @ [TRParen]) (f x)"
  using assms by (intro parses_then [OF assms(1)] parses_map [OF parses_expect]) simp_all

lemma reads_compound:
  assumes "\<not> atomic e" "first_ok ts" "\<And>n. d \<le> n \<Longrightarrow> parses R stop6 d (or_at R n) ts e"
  shows "reads_expr R e ts (Suc d)"
proof -
  have expr: "parses R stop6 (Suc d) (parse_expr R (Suc m)) ts e" if "d \<le> m" for m
    unfolding parse_expr_fun by (rule parses_nested [OF assms(3) [OF that]])
  have prim: "parses R stop0 (Suc d) (primary_at R n) (TLParen # ts @ [TRParen]) e" if n: "Suc d \<le> n" for n
  proof -
    obtain m where m: "n = Suc m" "d \<le> m" using n by (cases n) auto
    have "parses R stop0 (Suc d) (parse_parens R (parse_expr R n) (parse_select_statement R n)) (ts @ [TRParen]) e"
      by (rule parses_same [OF parses_parens [OF expr [OF m(2), folded m(1)], of stop0 "\<lambda>e. e"]])
         (use assms(2) in \<open>cases ts; simp add: parse_parens_def stops\<close>)+
    then show ?thesis
      by (rule parses_after) (simp_all add: parse_primary_def)
  qed
  show ?thesis
    using assms(1,2) prim parses_weaken [OF expr, of _ stop6 "Suc (Suc d)"] by (simp add: reads_expr_def wrap_def)
qed

lemma reads_operand:
  assumes "reads_expr R e ts d'" "d' \<le> d" "d \<le> n"
  shows "parses R stop0 d (primary_at R n) (wrap e ts) e" "is_operand (wrap e ts)"
  using assms parses_weaken [of R stop0 d' "primary_at R n" "wrap e ts" e stop0 d] by (simp_all add: reads_expr_def)

lemma reads_full:
  assumes "reads_expr R e ts d'" "d' < d" "d \<le> n" "\<And>t. look t \<Longrightarrow> stop6 t"
  shows "parses R look d (parse_expr R n) ts e"
proof -
  obtain m where "n = Suc m" "d' \<le> m" using assms(2,3) by (cases n) auto
  then show ?thesis
    using assms(1,2,4) parses_weaken [of R stop6 "Suc d'" "parse_expr R n" ts e look d] by (simp add: reads_expr_def)
qed

lemma reads_full6: "reads_expr R e ts d' \<Longrightarrow> d' < d \<Longrightarrow> d \<le> n \<Longrightarrow> parses R stop6 d (parse_expr R n) ts e"
  by (rule reads_full)

lemma wrap_first: "first_ok ts \<Longrightarrow> first_ok (wrap e ts)"
  by (simp add: wrap_def)

text \<open>An operand at each level.\<close>

lemma operand_levels:
  assumes "reads_expr R e ts d'" "d' \<le> d" "d \<le> n"
  shows "parses R stop0 d (parse_unary R (parse_expr R n) (parse_select_statement R n)) (wrap e ts) e"
    and "parses R stop1 d (parse_term R (parse_expr R n) (parse_select_statement R n)) (wrap e ts) e"
    and "parses R stop2 d (parse_additive R (parse_expr R n) (parse_select_statement R n)) (wrap e ts) e"
    and "parses R stop3 d (parse_concat R (parse_expr R n) (parse_select_statement R n)) (wrap e ts) e"
    and "parses R stop4 d (parse_predicate R (parse_expr R n) (parse_select_statement R n)) (wrap e ts) e"
    and "parses R stop4 d (parse_not R (parse_expr R n) (parse_select_statement R n)) (wrap e ts) e"
    and "parses R stop5 d (parse_and R (parse_expr R n) (parse_select_statement R n)) (wrap e ts) e"
proof -
  note op = reads_operand [OF assms]
  show u: "parses R stop0 d (parse_unary R (parse_expr R n) (parse_select_statement R n)) (wrap e ts) e"
    by (rule parses_unary1 [OF op])
  show t: "parses R stop1 d (parse_term R (parse_expr R n) (parse_select_statement R n)) (wrap e ts) e"
    by (rule term_up [OF u])
  show a: "parses R stop2 d (parse_additive R (parse_expr R n) (parse_select_statement R n)) (wrap e ts) e"
    by (rule additive_up [OF t])
  show c: "parses R stop3 d (parse_concat R (parse_expr R n) (parse_select_statement R n)) (wrap e ts) e"
    by (rule concat_up [OF a])
  show p: "parses R stop4 d (parse_predicate R (parse_expr R n) (parse_select_statement R n)) (wrap e ts) e"
    by (rule parses_predicate1 [OF c])
  show no: "parses R stop4 d (parse_not R (parse_expr R n) (parse_select_statement R n)) (wrap e ts) e"
    by (rule parses_not1 [OF p op(2)])
  show "parses R stop5 d (parse_and R (parse_expr R n) (parse_select_statement R n)) (wrap e ts) e"
    by (rule and_up [OF no])
qed

lemma is_operand_append [simp]: "is_operand ts \<Longrightarrow> is_operand (ts @ us)"
  by (cases ts) simp_all

lemma parses_tail:
  assumes "parses R stop3 d (parse_concat R pe ps) ts x" "parses R stop4 d (predicate_tail R pe ps x) (t # us) y"
    and "is_operand ts" "stop3 t"
  shows "parses R stop6 d (parse_or R pe ps) (ts @ t # us) y"
proof -
  have "parses R stop4 d (parse_predicate R pe ps) (ts @ t # us) y"
    unfolding parse_predicate_def by (rule parses_then [OF assms(1)]) (use assms(2,4) in simp_all)
  then show ?thesis by (rule to_or [OF parses_not1]) (use assms(3) in simp)
qed

lemma binary_body:
  assumes "reads_expr R l lt dl" "reads_expr R r rt dr" "dl \<le> d" "dr \<le> d" "d \<le> n"
  shows "parses R stop6 d (or_at R n) (wrap l lt @ op_token op # wrap r rt) (Binary l op r)"
proof -
  let ?pe = "parse_expr R n" and ?ps = "parse_select_statement R n"
  note L = operand_levels [OF assms(1,3,5)] and Rt = operand_levels [OF assms(2,4,5)]
  note whole = is_operand_append [OF reads_operand(2) [OF assms(1,3,5)]]
  consider "op \<in> {Mul, Div, Mod, BitAnd}" | "op \<in> {Add, Sub, BitOr, BitXor}" | "op = Concat"
    | "op \<in> {Eq, Neq, Lt, Lte, Gt, Gte}" | "op = And" | "op = Or"
    by (cases op) auto
  then show ?thesis
  proof cases
    case 1
    have "parses R stop1 d (parse_term R ?pe ?ps) (wrap l lt @ op_token op # wrap r rt) (Binary l op r)"
      unfolding parse_term_def
      by (rule parses_left_assoc2 [OF L(1) parses_weaken [OF Rt(1)]]) (use 1 in \<open>auto simp: stops\<close>)
    then show ?thesis by (rule from_term [OF _ whole])
  next
    case 2
    have "parses R stop2 d (parse_additive R ?pe ?ps) (wrap l lt @ op_token op # wrap r rt) (Binary l op r)"
      unfolding parse_additive_def
      by (rule parses_left_assoc2 [OF L(2) parses_weaken [OF Rt(2)]]) (use 2 in \<open>auto simp: stops\<close>)
    then show ?thesis by (rule from_additive [OF _ whole])
  next
    case 3
    have "parses R stop3 d (parse_concat R ?pe ?ps) (wrap l lt @ op_token op # wrap r rt) (Binary l op r)"
      unfolding parse_concat_def
      by (rule parses_left_assoc2 [OF L(3) parses_weaken [OF Rt(3)]]) (use 3 in \<open>auto simp: stops\<close>)
    then show ?thesis by (rule from_concat [OF _ whole])
  next
    case 4
    have "parses R stop4 d (predicate_tail R ?pe ?ps l) (op_token op # wrap r rt) (Binary l op r)"
      by (rule parses_after [OF parses_map [OF parses_weaken [OF Rt(4)]]])
         (use 4 in \<open>auto simp: stops predicate_tail_def\<close>)
    then show ?thesis by (rule parses_tail [OF L(4) _ reads_operand(2) [OF assms(1,3,5)]]) (use 4 in \<open>auto simp: stops\<close>)
  next
    case 5
    have "parses R stop5 d (parse_and R ?pe ?ps) (wrap l lt @ op_token op # wrap r rt) (Binary l op r)"
      unfolding parse_and_def
      by (rule parses_left_assoc2 [OF L(6) parses_weaken [OF Rt(6)]]) (use 5 in \<open>auto simp: stops\<close>)
    then show ?thesis by (rule or_up)
  next
    case 6
    show ?thesis
      unfolding parse_or_def
      by (rule parses_left_assoc2 [OF L(7) parses_weaken [OF Rt(7)]]) (use 6 in \<open>auto simp: stops\<close>)
  qed
qed

lemma unary_body:
  assumes "reads_expr R e ts d'" "d' \<le> d" "d \<le> n"
  shows "parses R stop6 d (or_at R n) (unary_token op # wrap e ts) (Unary op e)"
proof (cases "op = Not_op")
  case True
  let ?pe = "parse_expr R n" and ?ps = "parse_select_statement R n"
  have "parses R stop4 d (parse_not R ?pe ?ps) (TNot # wrap e ts) (Unary Not_op e)"
    unfolding parse_not_def by (rule parses_if_eat [OF parses_map [OF operand_levels(5) [OF assms]]]) simp
  then show ?thesis unfolding True by (simp add: to_or)
next
  case False
  note op = reads_operand [OF assms]
  have "parses R stop0 d (parse_unary R (parse_expr R n) (parse_select_statement R n)) (unary_token op # wrap e ts) (Unary op e)"
    by (rule parses_signed [OF op]) (use False in \<open>cases op; simp\<close>)
  from parses_predicate1 [OF concat_up [OF additive_up [OF term_up [OF this]]]]
  have "parses R stop4 d (parse_not R (parse_expr R n) (parse_select_statement R n)) (unary_token op # wrap e ts) (Unary op e)"
    unfolding parse_not_def by (rule parses_if_not) (use False in \<open>cases op; simp\<close>)
  then show ?thesis by (rule to_or)
qed

lemma parses_negated:
  assumes "parses R stop4 d (p b) (tok # us) y"
    and "(tok, p) \<in> {(TIn, parse_in R pe ps x), (TBetween, parse_between R pe ps x), (TLike, parse_like R pe ps x)}"
  shows "parses R stop4 d (predicate_tail R pe ps x) (negation b @ tok # us) y"
proof (cases b)
  case False
  have "parses R stop4 d (predicate_tail R pe ps x) (tok # us) y"
    by (rule parses_same [OF assms(1)]) (use assms(2) False in \<open>auto simp: predicate_tail_def comparison_op_def\<close>)
  then show ?thesis by (simp add: negation_def False)
next
  case True
  let ?q = "\<lambda>st'. if ps_current st' = TIn then parse_in R pe ps x True st'
     else if ps_current st' = TBetween then parse_between R pe ps x True st'
     else if ps_current st' = TLike then parse_like R pe ps x True st'
     else Inl (ExpectedAfterNot (ps_current st'))"
  have "parses R stop4 d ?q (tok # us) y"
    by (rule parses_same [OF assms(1)]) (use assms(2) True in auto)
  then have "parses R stop4 d (predicate_tail R pe ps x) (TNot # tok # us) y"
    by (rule parses_after) (simp_all add: predicate_tail_def comparison_op_def Let_def)
  then show ?thesis by (simp add: negation_def True)
qed

lemma tail_body:
  assumes "reads_expr R e ts d'" "d' \<le> d" "d \<le> n" "us \<noteq> []" "stop3 (hd us)"
    and "parses R stop4 d (predicate_tail R (parse_expr R n) (parse_select_statement R n) e) us y"
  shows "parses R stop6 d (or_at R n) (wrap e ts @ us) y"
  using parses_tail [OF operand_levels(4) [OF assms(1-3)], of "hd us" "tl us" y] assms(4-6) reads_operand(2) [OF assms(1-3)] by simp

lemma is_null_body:
  assumes "reads_expr R e ts d'" "d' \<le> d" "d \<le> n"
  shows "parses R stop6 d (or_at R n) (wrap e ts @ TIs # negation b @ [TNull]) (IsNull e b)"
proof (rule tail_body [OF assms])
  have eat: "parses R (\<lambda>t. t = TNull) d (eat R TNot) (negation b) b"
    unfolding negation_def by (rule parses_eat) simp_all
  have "parses R stop4 d (then_p (eat R TNot) (\<lambda>b. then_p (expect R TNull) (\<lambda>_. ret (IsNull e b)))) (negation b @ [TNull]) (IsNull e b)"
    by (rule parses_then [OF eat parses_map [OF parses_expect]]) simp_all
  then show "parses R stop4 d (predicate_tail R (parse_expr R n) (parse_select_statement R n) e) (TIs # negation b @ [TNull]) (IsNull e b)"
    by (rule parses_after) (simp_all add: predicate_tail_def comparison_op_def)
qed (simp_all add: stops)

lemma between_body:
  assumes e: "reads_expr R e ts d1" "d1 \<le> d" "d \<le> n" and lo: "reads_expr R lo lts d2" "d2 \<le> d" and hi: "reads_expr R hi hts d3" "d3 \<le> d"
  shows "parses R stop6 d (or_at R n) (wrap e ts @ negation b @ TBetween # wrap lo lts @ TAnd # wrap hi hts) (Between e b lo hi)"
proof (rule tail_body [OF e])
  let ?pe = "parse_expr R n" and ?ps = "parse_select_statement R n"
  note lo' = operand_levels(4) [OF lo e(3)] and hi' = operand_levels(4) [OF hi e(3)]
  have "parses R stop4 d (then_p (parse_concat R ?pe ?ps) (\<lambda>high. ret (Between e b lo high))) (wrap hi hts) (Between e b lo hi)"
    by (rule parses_map [OF parses_weaken [OF hi']]) (simp_all add: stop4_def)
  then have "parses R stop4 d (then_p (expect R TAnd) (\<lambda>_. then_p (parse_concat R ?pe ?ps) (\<lambda>high. ret (Between e b lo high))))
      (TAnd # wrap hi hts) (Between e b lo hi)"
    by (rule parses_expect_then) simp
  then have "parses R stop4 d (then_p (parse_concat R ?pe ?ps) (\<lambda>low. then_p (expect R TAnd) (\<lambda>_. then_p (parse_concat R ?pe ?ps)
      (\<lambda>high. ret (Between e b low high))))) (wrap lo lts @ TAnd # wrap hi hts) (Between e b lo hi)"
    by (rule parses_then [OF lo']) (simp add: stops)
  then have "parses R stop4 d (parse_between R ?pe ?ps e b) (TBetween # wrap lo lts @ TAnd # wrap hi hts) (Between e b lo hi)"
    unfolding parse_between_def by (rule parses_expect_then) simp
  then show "parses R stop4 d (predicate_tail R ?pe ?ps e) (negation b @ TBetween # wrap lo lts @ TAnd # wrap hi hts) (Between e b lo hi)"
    by (rule parses_negated) simp
qed (simp_all add: negation_def stops)

lemma escape_operand:
  assumes "reads_expr R e ts d'" "d' < d" "d \<le> n"
  shows "parses R stop3 d (parse_concat R (parse_expr R n) (parse_select_statement R n)) (TLParen # ts @ [TRParen]) e"
proof -
  have "first_ok ts" using assms(1) by (simp add: reads_expr_def)
  have "parses R stop0 d (parse_parens R (parse_expr R n) (parse_select_statement R n)) (ts @ [TRParen]) e"
    by (rule parses_same [OF parses_parens [OF reads_full [OF assms, of stop6], of stop0 "\<lambda>e. e"]])
       (use \<open>first_ok ts\<close> in \<open>cases ts; simp add: parse_parens_def stops\<close>)+
  then have "parses R stop0 d (primary_at R n) (TLParen # ts @ [TRParen]) e"
    by (rule parses_after) (simp_all add: parse_primary_def)
  then show ?thesis by (intro concat_up additive_up term_up parses_unary1) simp_all
qed

lemma like_body:
  assumes e: "reads_expr R e ts d1" "d1 \<le> d" "d \<le> n" and pat: "reads_expr R p pts d2" "d2 \<le> d"
    and esc: "esc = None \<and> ets = [] \<or> (\<exists>x xts d3. esc = Some x \<and> ets = TEscape # TLParen # xts @ [TRParen] \<and> reads_expr R x xts d3 \<and> d3 < d)"
  shows "parses R stop6 d (or_at R n) (wrap e ts @ negation b @ TLike # wrap p pts @ ets) (Like e b p esc None)"
proof (rule tail_body [OF e])
  let ?pe = "parse_expr R n" and ?ps = "parse_select_statement R n"
  have "parses R stop4 d (optional R TEscape (parse_concat R ?pe ?ps)) ets esc"
    using esc
  proof (elim disjE exE conjE)
    fix x xts d3 assume x: "esc = Some x" "ets = TEscape # TLParen # xts @ [TRParen]" "reads_expr R x xts d3" "d3 < d"
    show ?thesis
      unfolding x(1,2) by (rule parses_optional, rule parses_weaken [OF escape_operand [OF x(3,4) e(3)]]) (simp_all add: stop4_def)
  next
    assume "esc = None" "ets = []"
    then show ?thesis using parses_optional_none [of stop4 TEscape] by (simp add: stop4_def)
  qed
  moreover have "follows stop4 stop3 ets" using esc by (auto simp: stops)
  ultimately have "parses R stop4 d (then_p (parse_concat R ?pe ?ps) (\<lambda>pat. then_p (optional R TEscape (parse_concat R ?pe ?ps))
      (\<lambda>esc. ret (Like e b pat esc None)))) (wrap p pts @ ets) (Like e b p esc None)"
    by (intro parses_then [OF operand_levels(4) [OF pat e(3)]] parses_map)
  then have "parses R stop4 d (parse_like R ?pe ?ps e b) (TLike # wrap p pts @ ets) (Like e b p esc None)"
    unfolding parse_like_def by (rule parses_expect_then) simp
  then show "parses R stop4 d (predicate_tail R ?pe ?ps e) (negation b @ TLike # wrap p pts @ ets) (Like e b p esc None)"
    by (rule parses_negated) simp
qed (simp_all add: negation_def stops)

lemma full_list:
  assumes "list_all2 (\<lambda>x xts. \<exists>d'. reads_expr R x xts d' \<and> d' < d) es tss" "d \<le> n" "\<And>t. look t \<Longrightarrow> stop6 t"
  shows "list_all2 (parses R look d (parse_expr R n)) tss es"
  using assms(1) by (induction rule: list_all2_induct) (auto intro: reads_full [OF _ _ assms(2,3)])

lemma in_list_body:
  assumes e: "reads_expr R e ts d1" "d1 \<le> d" "d \<le> n"
    and es: "list_all2 (\<lambda>x xts. \<exists>d'. reads_expr R x xts d' \<and> d' < d) es tss" "es \<noteq> []"
  shows "parses R stop6 d (or_at R n) (wrap e ts @ negation b @ TIn # TLParen # commas tss @ [TRParen]) (InList e b es)"
proof (rule tail_body [OF e])
  let ?pe = "parse_expr R n" and ?ps = "parse_select_statement R n"
  obtain x xs xts xtss where c: "es = x # xs" "tss = xts # xtss" "first_ok xts"
    using es by (cases es) (auto simp: list_all2_Cons1 reads_expr_def)
  have "list_all2 (parses R (\<lambda>t. t = TRParen \<or> t = TComma) d ?pe) tss es"
    by (rule full_list [OF es(1) e(3)]) (auto simp: stops)
  then have "parses R (\<lambda>t. t = TRParen) d (parse_expr_list R ?pe) (commas tss) es"
    unfolding parse_expr_list_def by (rule parses_comma_list) (use es(2) in simp_all)
  from parses_parens [OF this, of stop4 "InList e b"]
  have "parses R stop4 d (\<lambda>st. if ps_current st = TSelect
       then then_p ?ps (\<lambda>select. then_p (expect R TRParen) (\<lambda>_. ret (InSubquery e b select))) st
       else then_p (parse_expr_list R ?pe) (\<lambda>es. then_p (expect R TRParen) (\<lambda>_. ret (InList e b es))) st)
      (commas tss @ [TRParen]) (InList e b es)"
    by (rule parses_same) (use c in \<open>auto simp: commas_def\<close>, (cases xts; simp)+)
  then have "parses R stop4 d (parse_in R ?pe ?ps e b) (TIn # TLParen # commas tss @ [TRParen]) (InList e b es)"
    unfolding parse_in_def by (intro parses_expect_then) simp_all
  then show "parses R stop4 d (predicate_tail R ?pe ?ps e) (negation b @ TIn # TLParen # commas tss @ [TRParen]) (InList e b es)"
    by (rule parses_negated) simp
qed (simp_all add: negation_def stops)

text \<open>A sub-select in parentheses.\<close>

definition reads_select :: "runtime \<Rightarrow> select_statement \<Rightarrow> token list \<Rightarrow> nat \<Rightarrow> bool" where
  "reads_select R q ts d \<longleftrightarrow> ts \<noteq> [] \<and> hd ts = TSelect \<and>
     (\<forall>n \<ge> d. parses R (\<lambda>t. t = TRParen \<or> t = TEof) d (parse_select_statement R n) ts q)"

lemma select_parens:
  assumes "reads_select R q ts d'" "d' \<le> d" "d \<le> n"
  shows "parses R look d (then_p (parse_select_statement R n) (\<lambda>q. then_p (expect R TRParen) (\<lambda>_. ret (f q)))) (ts @ [TRParen]) (f q)"
proof -
  have "parses R (\<lambda>t. t = TRParen \<or> t = TEof) d' (parse_select_statement R n) ts q"
    using assms by (simp add: reads_select_def)
  then have "parses R (\<lambda>t. t = TRParen) d (parse_select_statement R n) ts q"
    by (rule parses_weaken) (use assms(2) in simp_all)
  then show ?thesis by (rule parses_parens) simp
qed

lemma in_subquery_body:
  assumes e: "reads_expr R e ts d1" "d1 \<le> d" "d \<le> n" and q: "reads_select R q qts d2" "d2 \<le> d"
  shows "parses R stop6 d (or_at R n) (wrap e ts @ negation b @ TIn # TLParen # qts @ [TRParen]) (InSubquery e b q)"
proof (rule tail_body [OF e])
  let ?pe = "parse_expr R n" and ?ps = "parse_select_statement R n"
  have "parses R stop4 d (\<lambda>st. if ps_current st = TSelect
       then then_p ?ps (\<lambda>select. then_p (expect R TRParen) (\<lambda>_. ret (InSubquery e b select))) st
       else then_p (parse_expr_list R ?pe) (\<lambda>es. then_p (expect R TRParen) (\<lambda>_. ret (InList e b es))) st)
      (qts @ [TRParen]) (InSubquery e b q)"
    by (rule parses_same [OF select_parens [OF q e(3)]]) (use q(1) in \<open>cases qts; auto simp: reads_select_def\<close>)
  then have "parses R stop4 d (parse_in R ?pe ?ps e b) (TIn # TLParen # qts @ [TRParen]) (InSubquery e b q)"
    unfolding parse_in_def by (intro parses_expect_then) simp_all
  then show "parses R stop4 d (predicate_tail R ?pe ?ps e) (negation b @ TIn # TLParen # qts @ [TRParen]) (InSubquery e b q)"
    by (rule parses_negated) simp
qed (simp_all add: negation_def stops)

lemma scalar_body:
  assumes "reads_select R q ts d" "d \<le> n"
  shows "parses R look d (primary_at R n) (TLParen # ts @ [TRParen]) (ScalarSubquery q)"
proof -
  have "parses R look d (parse_parens R (parse_expr R n) (parse_select_statement R n)) (ts @ [TRParen]) (ScalarSubquery q)"
    by (rule parses_same [OF select_parens [OF assms(1) order_refl assms(2)]])
       (use assms(1) in \<open>cases ts; auto simp: reads_select_def parse_parens_def\<close>)
  then show ?thesis by (rule parses_after) (simp_all add: parse_primary_def)
qed

lemma call_body:
  assumes es: "list_all2 (\<lambda>x xts. \<exists>d'. reads_expr R x xts d' \<and> d' < d) args tss" "d \<le> n"
  shows "parses R stop0 d (primary_at R n) (TIdentifier name # TLParen # (if dist then [TDistinct] else []) @
    (if tss = [] then [] else commas tss) @ [TRParen]) (Function name args dist)"
proof -
  let ?pe = "parse_expr R n" and ?ts = "if tss = [] then [] else commas tss"
  let ?args = "\<lambda>dist st. if ps_current st = TRParen then Inr (([], dist), st) else then_p (comma_list R ?pe) (\<lambda>args. ret (args, dist)) st"
  have args: "parses R (\<lambda>t. t = TRParen) d (?args dist) ?ts (args, dist)"
  proof (cases args)
    case Nil
    then have "tss = []" using es(1) by simp
    then show ?thesis unfolding Nil by (auto intro!: parsesI)
  next
    case (Cons x xs)
    then obtain xts xtss where c: "tss = xts # xtss" "first_ok xts" using es(1) by (auto simp: list_all2_Cons1 reads_expr_def)
    have "parses R (\<lambda>t. t = TRParen) d (comma_list R ?pe) (commas tss) args"
      by (rule parses_comma_list, rule full_list [OF es]) (use Cons in \<open>auto simp: stops\<close>)
    from parses_map [OF this, of "\<lambda>args. (args, dist)"] have "parses R (\<lambda>t. t = TRParen) d (?args dist) (commas tss) (args, dist)"
      by (rule parses_same) (use c in \<open>cases xts; auto simp: commas_def\<close>)
    then show ?thesis using c by simp
  qed
  have "first_ok (?ts @ [TRParen]) \<or> tss = []"
    using es(1) by (cases tss) (auto simp: list_all2_Cons2 reads_expr_def commas_def)
  then have foll: "follows (\<lambda>t. t = TRParen) (\<lambda>t. t \<noteq> TDistinct) ?ts"
    by (cases "commas tss") auto
  have "parses R (\<lambda>t. t = TRParen) d (parse_function_args R ?pe) ((if dist then [TDistinct] else []) @ ?ts) (args, dist)"
    unfolding parse_function_args_def
    by (rule parses_then [where k = ?args, OF parses_eat args foll]) simp_all
  then have "parses R stop0 d (parse_call R ?pe name) (((if dist then [TDistinct] else []) @ ?ts) @ [TRParen]) (Function name args dist)"
    unfolding parse_call_def by (rule parses_then) (auto intro!: parses_map [OF parses_expect])
  then have "parses R stop0 d (parse_name R ?pe name) (TLParen # (if dist then [TDistinct] else []) @ ?ts @ [TRParen]) (Function name args dist)"
    unfolding parse_name_def by (intro parses_if_eat) simp_all
  then show ?thesis by (rule parses_after) (simp_all add: parse_primary_def)
qed

lemma cast_body:
  assumes "reads_expr R e ts d'" "d' < d" "d \<le> n" "rt_lower R ty = ty"
  shows "parses R stop0 d (primary_at R n) (TCast # TLParen # ts @ [TAs, TIdentifier ty, TRParen]) (Cast e ty)"
proof -
  let ?pe = "parse_expr R n"
  have "parses R (\<lambda>t. t = TRParen) d (parse_type_name R) ([TIdentifier ty] @ []) ty"
    unfolding parse_type_name_def Let_def
    by (rule parses_then [OF parses_ident [of _ "\<lambda>t. t = TRParen"]], rule parses_if_not)
       (use parses_ret [of R "\<lambda>t. t = TRParen" d ty] assms(4) in simp_all)
  then have "parses R stop0 d (then_p (parse_type_name R) (\<lambda>ty. then_p (expect R TRParen) (\<lambda>_. ret (Cast e ty)))) (([TIdentifier ty] @ []) @ [TRParen]) (Cast e ty)"
    by (rule parses_parens) simp
  then have "parses R stop0 d (then_p (expect R TAs) (\<lambda>_. then_p (parse_type_name R) (\<lambda>ty. then_p (expect R TRParen) (\<lambda>_. ret (Cast e ty)))))
      (TAs # ([TIdentifier ty] @ []) @ [TRParen]) (Cast e ty)"
    by (rule parses_expect_then) simp
  then have "parses R stop0 d (then_p (expect R TAs) (\<lambda>_. then_p (parse_type_name R) (\<lambda>ty. then_p (expect R TRParen) (\<lambda>_. ret (Cast e ty)))))
      [TAs, TIdentifier ty, TRParen] (Cast e ty)"
    by simp
  then have "parses R stop0 d (then_p ?pe (\<lambda>e. then_p (expect R TAs) (\<lambda>_. then_p (parse_type_name R) (\<lambda>ty. then_p (expect R TRParen) (\<lambda>_. ret (Cast e ty))))))
      (ts @ [TAs, TIdentifier ty, TRParen]) (Cast e ty)"
    by (rule parses_then [OF reads_full6 [OF assms(1-3)]]) (simp add: stops)
  then have "parses R stop0 d (parse_cast R ?pe) (TCast # TLParen # ts @ [TAs, TIdentifier ty, TRParen]) (Cast e ty)"
    unfolding parse_cast_def by (intro parses_expect_then) simp_all
  then show ?thesis by (rule parses_same) (simp add: parse_primary_def)
qed

definition reads_option :: "runtime \<Rightarrow> nat \<Rightarrow> pexpr option \<Rightarrow> token list option \<Rightarrow> bool" where
  "reads_option R d o1 ots \<longleftrightarrow> rel_option (\<lambda>x xts. \<exists>d'. reads_expr R x xts d' \<and> d' < d) o1 ots"

lemma optional_expr:
  assumes "reads_option R d o1 ots" "d \<le> n" "\<And>t. look t \<Longrightarrow> stop6 t \<and> t \<noteq> tok" "tok \<noteq> TEof"
  shows "parses R look d (optional R tok (parse_expr R n)) (opt_tokens ((#) tok) ots) o1"
proof (cases o1)
  case None
  then show ?thesis using assms(1,3) parses_optional_none [of look tok] by (simp add: reads_option_def opt_tokens_def)
next
  case (Some x)
  then obtain xts d' where x: "ots = Some xts" "reads_expr R x xts d'" "d' < d" using assms(1) by (auto simp: reads_option_def option_rel_Some1)
  show ?thesis
    unfolding Some x(1) opt_tokens_def option.case
    by (rule parses_optional, rule reads_full [OF x(2,3) assms(2)]) (use assms(3,4) in auto)
qed

lemma whens_body:
  assumes "list_all2 (\<lambda>(w, t) (wts, tts). (\<exists>d'. reads_expr R w wts d' \<and> d' < d) \<and> (\<exists>d'. reads_expr R t tts d' \<and> d' < d)) whens wtss" "d \<le> n"
    and "\<And>t. look t \<Longrightarrow> stop6 t \<and> t \<noteq> TWhen"
  shows "parses R look d (many R TWhen (then_p (parse_expr R n) (\<lambda>w. then_p (expect R TThen) (\<lambda>_. then_p (parse_expr R n) (\<lambda>t. ret (w, t))))))
    (concat (map (\<lambda>(w, t). TWhen # w @ TThen # t) wtss)) whens"
proof -
  let ?p = "then_p (parse_expr R n) (\<lambda>w. then_p (expect R TThen) (\<lambda>_. then_p (parse_expr R n) (\<lambda>t. ret (w, t))))"
  let ?look = "\<lambda>t. look t \<or> t = TWhen"
  have whens6: "stop6 TWhen" by (simp add: stops)
  have one: "parses R ?look d ?p (wts @ TThen # tts) (w, t)"
    if "reads_expr R w wts d1" "d1 < d" "reads_expr R t tts d2" "d2 < d" for w t wts tts d1 d2
  proof (rule parses_then)
    show "parses R stop6 d (parse_expr R n) wts w" by (rule reads_full [OF that(1,2) assms(2)])
    show "parses R ?look d (then_p (expect R TThen) (\<lambda>_. then_p (parse_expr R n) (\<lambda>t. ret (w, t)))) (TThen # tts) (w, t)"
      by (rule parses_expect_then [OF parses_map [OF reads_full [OF that(3,4) assms(2)]]]) (use assms(3) whens6 in auto)
  qed (simp add: stops)
  have "list_all2 (parses R ?look d ?p) (map (\<lambda>(w, t). w @ TThen # t) wtss) whens"
    using assms(1) by (induction rule: list_all2_induct) (auto intro!: one)
  then have "parses R look d (many R TWhen ?p) (concat (map ((#) TWhen) (map (\<lambda>(w, t). w @ TThen # t) wtss))) whens"
    by (rule parses_many) (use assms(3) in auto)
  then show ?thesis by (simp add: comp_def split_def)
qed

lemma case_operand:
  assumes op: "reads_option R d operand ots" and n: "d \<le> n"
  shows "parses R (\<lambda>t. t = TWhen) d (\<lambda>st. if ps_current st = TWhen then Inr (None, st) else then_p (parse_expr R n) (\<lambda>e. ret (Some e)) st)
    (opt_tokens id ots) operand"
proof (cases operand)
  case None
  then show ?thesis using op by (auto simp: reads_option_def opt_tokens_def intro!: parsesI)
next
  case (Some x)
  then obtain xts d' where x: "ots = Some xts" "reads_expr R x xts d'" "d' < d" using op by (auto simp: reads_option_def option_rel_Some1)
  then have "first_ok xts" by (simp add: reads_expr_def)
  show ?thesis
    unfolding Some x(1) opt_tokens_def option.case id_apply
    by (rule parses_same [OF parses_map [OF reads_full [OF x(2,3) n]]])
       (use \<open>first_ok xts\<close> in \<open>cases xts; simp add: stops\<close>)+
qed

lemma case_body:
  assumes op: "reads_option R d operand ots" and els: "reads_option R d els ets" and n: "d \<le> n"
    and whens: "list_all2 (\<lambda>(w, t) (wts, tts). (\<exists>d'. reads_expr R w wts d' \<and> d' < d) \<and> (\<exists>d'. reads_expr R t tts d' \<and> d' < d)) whens wtss" "whens \<noteq> []"
  shows "parses R stop0 d (primary_at R n) (TCase # opt_tokens id ots @ concat (map (\<lambda>(w, t). TWhen # w @ TThen # t) wtss) @
    opt_tokens ((#) TElse) ets @ [TEnd]) (Case operand whens els)"
proof -
  let ?pe = "parse_expr R n" and ?ws = "concat (map (\<lambda>(w, t). TWhen # w @ TThen # t) wtss)"
  let ?else = "\<lambda>operand whens. then_p (optional R TElse ?pe) (\<lambda>els. then_p (expect R TEnd) (\<lambda>_. ret (Case operand whens els)))"
  let ?whens = "\<lambda>operand. then_p (many R TWhen (then_p ?pe (\<lambda>w. then_p (expect R TThen) (\<lambda>_. then_p ?pe (\<lambda>t. ret (w, t))))))
      (\<lambda>whens. if whens = [] then (\<lambda>st. Inl CaseNeedsWhen) else ?else operand whens)"
  have else_end: "parses R stop0 d (?else operand whens) (opt_tokens ((#) TElse) ets @ [TEnd]) (Case operand whens els)"
    by (rule parses_then [OF optional_expr [OF els n, of "\<lambda>t. t = TEnd"] parses_map [OF parses_expect]]) (simp_all add: stops)
  have many: "parses R (\<lambda>t. t \<in> {TElse, TEnd}) d (many R TWhen (then_p ?pe (\<lambda>w. then_p (expect R TThen) (\<lambda>_. then_p ?pe (\<lambda>t. ret (w, t)))))) ?ws whens"
    by (rule whens_body [OF whens(1) n]) (auto simp: stops)
  have ws: "parses R stop0 d (?whens operand) (?ws @ opt_tokens ((#) TElse) ets @ [TEnd]) (Case operand whens els)"
    by (rule parses_then [OF many]) (use whens(2) else_end in \<open>simp_all add: opt_tokens_def split: option.split\<close>)
  obtain w where w: "?ws = TWhen # w" using whens by (cases wtss) (auto simp: split_def)
  have "parses R stop0 d (parse_case R ?pe) (TCase # opt_tokens id ots @ ?ws @ opt_tokens ((#) TElse) ets @ [TEnd]) (Case operand whens els)"
    unfolding parse_case_def
    by (rule parses_expect_then, rule parses_then [OF case_operand [OF op n]], rule ws) (simp_all add: w)
  then show ?thesis by (rule parses_same) (simp add: parse_primary_def)
qed

lemma name_body:
  "parses R stop0 d (primary_at R n) [TIdentifier c] (Column None c)"
  "parses R stop0 d (primary_at R n) [TIdentifier t, TDot, TIdentifier c] (Column (Some t) c)"
  "parses R stop0 d (primary_at R n) [TIdentifier t, TDot, TStar] (Star (Some t))"
proof -
  have "parses R stop0 d (parse_name R pe c) [] (Column None c)" for pe
    unfolding parse_name_def by (intro parses_if_not parses_ret) (simp_all add: stops)
  from parses_after [OF this] show "parses R stop0 d (primary_at R n) [TIdentifier c] (Column None c)"
    by (simp add: parse_primary_def)
  have "parses R stop0 d (parse_name R pe t) [TDot, TIdentifier c] (Column (Some t) c)" for pe
    unfolding parse_name_def
    by (rule parses_if_not, rule parses_if_eat, rule parses_if_not, rule parses_map [OF parses_ident]) simp_all
  from parses_after [OF this] show "parses R stop0 d (primary_at R n) [TIdentifier t, TDot, TIdentifier c] (Column (Some t) c)"
    by (simp add: parse_primary_def)
  have "parses R stop0 d (parse_name R pe t) [TDot, TStar] (Star (Some t))" for pe
    unfolding parse_name_def
    by (rule parses_if_not, rule parses_if_eat, rule parses_if_eat, rule parses_ret) simp_all
  from parses_after [OF this] show "parses R stop0 d (primary_at R n) [TIdentifier t, TDot, TStar] (Star (Some t))"
    by (simp add: parse_primary_def)
qed

lemma number_literal_show: "0 \<le> sint i \<Longrightarrow> number_literal (show_i64 i) = Inr (VInt i)"
  using show_nat_digits [of "nat (sint i)"] parse_i64_show_i64 [of i]
  by (auto simp: number_literal_def show_i64_def show_int_def list_all_iff is_ascii_digit_def Let_def)

lemma reads_token:
  assumes "atomic e" "is_operand [tok]" "first_ok [tok]" "tok \<noteq> TEof"
    and "\<And>n st. ps_current st = tok \<Longrightarrow> primary_at R n st = Inr (e, p_advance R st)"
  shows "reads_expr R e [tok] d"
  by (rule reads_atomic [OF assms(1-3) parses_token]) (use assms(4,5) in auto)

lemma reads_literal: "writable R (Literal v) \<Longrightarrow> reads_expr R (Literal v) (literal_tokens v) d"
  by (cases v)
     (auto simp: literal_tokens_def atomic_def parse_primary_def number_literal_show intro!: reads_token)

lemma foldr_max_le: "x \<in> set xs \<Longrightarrow> x \<le> foldr max xs (0::nat)"
  by (induction xs) auto

lemma wrap_map [simp]: "wrap (map_expr f e) = wrap e"
  by (rule ext, cases e) (simp_all add: wrap_def atomic_def)

lemma wrap_first_append: "reads_expr R e ts d \<Longrightarrow> first_ok (wrap e ts @ us)"
  by (simp add: reads_expr_def wrap_first)

lemma list_read:
  assumes "\<And>x. x \<in> set es \<Longrightarrow> reads_expr R x (T x) (N x)" "foldr max (map N es) 0 < d"
  shows "list_all2 (\<lambda>x xts. \<exists>d'. reads_expr R x xts d' \<and> d' < d) es (map T es)"
proof -
  have "N x < d" if "x \<in> set es" for x
    using foldr_max_le [of "N x" "map N es"] that assms(2) by simp
  then show ?thesis using assms(1) by (auto simp: list_all2_map2 list_all2_same)
qed

lemma pairs_read:
  assumes "\<And>w t. (w, t) \<in> set ps \<Longrightarrow> reads_expr R w (T w) (N w) \<and> reads_expr R t (T t) (N t)"
    and "foldr max (map (\<lambda>(w, t). max (N w) (N t)) ps) 0 < d"
  shows "list_all2 (\<lambda>(w, t) (wts, tts). (\<exists>d'. reads_expr R w wts d' \<and> d' < d) \<and> (\<exists>d'. reads_expr R t tts d' \<and> d' < d)) ps (map (map_prod T T) ps)"
proof -
  have "N w < d \<and> N t < d" if "(w, t) \<in> set ps" for w t
    using foldr_max_le [of "max (N w) (N t)" "map (\<lambda>(w, t). max (N w) (N t)) ps"] that assms(2) by force
  then show ?thesis using assms(1) by (fastforce simp: list_all2_map2 list_all2_same)
qed

lemma option_read:
  assumes "\<And>x. o1 = Some x \<Longrightarrow> reads_expr R x (T x) (N x)" "case_option 0 N o1 < d"
  shows "reads_option R d o1 (map_option T o1)"
  using assms by (cases o1) (auto simp: reads_option_def)

lemma function_reads:
  assumes "\<And>x. x \<in> set args \<Longrightarrow> reads_expr R x (T x) (N x)" "foldr max (map N args) 0 < d"
  shows "reads_expr R (Function name args dist) (TIdentifier name # TLParen # (if dist then [TDistinct] else []) @
    (let tss = map T args in if tss = [] then [] else commas tss) @ [TRParen]) d"
proof (rule reads_atomic)
  fix n assume n: "d \<le> n"
  show "parses R stop0 d (primary_at R n) (TIdentifier name # TLParen # (if dist then [TDistinct] else []) @
    (let tss = map T args in if tss = [] then [] else commas tss) @ [TRParen]) (Function name args dist)"
    unfolding Let_def by (rule call_body [OF list_read n]) (use assms in auto)
qed (simp_all add: atomic_def)

lemma case_reads:
  assumes "\<And>x. operand = Some x \<Longrightarrow> reads_expr R x (T x) (N x)" "\<And>x. els = Some x \<Longrightarrow> reads_expr R x (T x) (N x)"
    and "\<And>w t. (w, t) \<in> set whens \<Longrightarrow> reads_expr R w (T w) (N w) \<and> reads_expr R t (T t) (N t)" "whens \<noteq> []"
    and "case_option 0 N operand < d" "case_option 0 N els < d" "foldr max (map (\<lambda>(w, t). max (N w) (N t)) whens) 0 < d"
  shows "reads_expr R (Case operand whens els) (TCase # opt_tokens id (map_option T operand) @
    concat (map (\<lambda>(w, t). TWhen # w @ TThen # t) (map (map_prod T T) whens)) @ opt_tokens ((#) TElse) (map_option T els) @ [TEnd]) d"
proof (rule reads_atomic)
  fix n assume n: "d \<le> n"
  show "parses R stop0 d (primary_at R n) (TCase # opt_tokens id (map_option T operand) @
    concat (map (\<lambda>(w, t). TWhen # w @ TThen # t) (map (map_prod T T) whens)) @ opt_tokens ((#) TElse) (map_option T els) @ [TEnd])
    (Case operand whens els)"
    by (rule case_body [OF option_read option_read n pairs_read]) (use assms in auto)
qed (simp_all add: atomic_def)

lemma in_list_reads:
  assumes e: "reads_expr R e ts d1" "d1 \<le> d" and "\<And>x. x \<in> set es \<Longrightarrow> reads_expr R x (T x) (N x)" "es \<noteq> []"
    and "foldr max (map N es) 0 < d"
  shows "reads_expr R (InList e b es) (wrap e ts @ negation b @ TIn # TLParen # commas (map T es) @ [TRParen]) (Suc d)"
proof (rule reads_compound)
  fix n assume n: "d \<le> n"
  show "parses R stop6 d (or_at R n) (wrap e ts @ negation b @ TIn # TLParen # commas (map T es) @ [TRParen]) (InList e b es)"
    by (rule in_list_body [OF e n list_read]) (use assms in auto)
qed (use wrap_first_append [OF e(1)] in \<open>simp_all add: atomic_def\<close>)

lemma like_reads:
  assumes e: "reads_expr R e ts d1" "d1 \<le> d" and p: "reads_expr R p pts d2" "d2 \<le> d"
    and esc: "\<And>x. esc = Some x \<Longrightarrow> reads_expr R x (T x) (N x) \<and> N x < d"
  shows "reads_expr R (Like e b p esc None) (wrap e ts @ negation b @ TLike # wrap p pts @
    opt_tokens (\<lambda>ts. TEscape # TLParen # ts @ [TRParen]) (map_option T esc)) (Suc d)"
proof (rule reads_compound)
  fix n assume n: "d \<le> n"
  show "parses R stop6 d (or_at R n) (wrap e ts @ negation b @ TLike # wrap p pts @
    opt_tokens (\<lambda>ts. TEscape # TLParen # ts @ [TRParen]) (map_option T esc)) (Like e b p esc None)"
    by (rule like_body [OF e n p]) (use esc in \<open>cases esc; auto simp: opt_tokens_def\<close>)
qed (use wrap_first_append [OF e(1)] in \<open>simp_all add: atomic_def\<close>)

text \<open>An expression is read back from its tokens when its sub-selects are.\<close>

lemma expr_reads:
  assumes "writable R e" "\<forall>q \<in> set_expr e. reads_select R q (f q) (g q)"
  shows "reads_expr R e (expr_tokens (map_expr f e)) (expr_nest (map_expr g e))"
  using assms
proof (induction e)
  case (Star t)
  show ?case
    by (cases t) (auto simp: atomic_def parse_primary_def intro!: reads_token intro: reads_atomic [OF _ _ _ name_body(3)])
next
  case (Column t c)
  show ?case
    by (cases t) (auto simp: atomic_def intro: reads_atomic [OF _ _ _ name_body(1)] reads_atomic [OF _ _ _ name_body(2)])
next
  case (ResolvedColumn ti ci n)
  then show ?case by simp
next
  case (Literal v)
  then show ?case using reads_literal by simp
next
  case (Binary l op r)
  then have l: "reads_expr R l (expr_tokens (map_expr f l)) (expr_nest (map_expr g l))"
    and r: "reads_expr R r (expr_tokens (map_expr f r)) (expr_nest (map_expr g r))" by simp_all
  show ?case
    using wrap_first_append [OF l] by (auto simp: atomic_def intro!: reads_compound binary_body [OF l r])
next
  case (Unary op e)
  then have e: "reads_expr R e (expr_tokens (map_expr f e)) (expr_nest (map_expr g e))" by simp
  have "first_ok (unary_token op # us)" for us by (cases op) simp_all
  then show ?case
    by (auto simp: atomic_def simp del: first_ok_simps intro!: reads_compound unary_body [OF e])
next
  case (Function name args dist)
  then have "\<And>x. x \<in> set args \<Longrightarrow> reads_expr R x (expr_tokens (map_expr f x)) (expr_nest (map_expr g x))"
    by (auto simp: list_all_iff)
  from function_reads [OF this] show ?case by (simp add: comp_def del: first_ok_simps)
next
  case (Case operand whens els)
  have x: "writable R x" if "operand = Some x \<or> els = Some x \<or> (\<exists>w. (x, w) \<in> set whens \<or> (w, x) \<in> set whens)" for x
    using Case.prems(1) that by (auto simp: list_all_iff)
  have y: "\<forall>q \<in> set_expr x. reads_select R q (f q) (g q)"
    if "operand = Some x \<or> els = Some x \<or> (\<exists>w. (x, w) \<in> set whens \<or> (w, x) \<in> set whens)" for x
    using Case.prems(2) that by fastforce
  have x: "reads_expr R x (expr_tokens (map_expr f x)) (expr_nest (map_expr g x))"
    if "operand = Some x \<or> els = Some x \<or> (\<exists>w. (x, w) \<in> set whens \<or> (w, x) \<in> set whens)" for x
    using Case.IH x [OF that] y [OF that] that by fastforce
  let ?T = "\<lambda>x. expr_tokens (map_expr f x)" and ?N = "\<lambda>x. expr_nest (map_expr g x)"
  have "reads_expr R (Case operand whens els) (TCase # opt_tokens id (map_option ?T operand) @
    concat (map (\<lambda>(w, t). TWhen # w @ TThen # t) (map (map_prod ?T ?T) whens)) @ opt_tokens ((#) TElse) (map_option ?T els) @ [TEnd])
    (Suc (max (case_option 0 ?N operand) (max (foldr max (map (\<lambda>(w, t). max (?N w) (?N t)) whens) 0) (case_option 0 ?N els))))"
    by (rule case_reads [where N = ?N]) (use x Case.prems(1) in auto)
  then show ?case
    by (simp add: option.map_comp comp_def case_map_option map_prod_def split_def cong: option.case_cong)
next
  case (Cast e ty)
  then have e: "reads_expr R e (expr_tokens (map_expr f e)) (expr_nest (map_expr g e))" by simp
  show ?case using Cast.prems(1) by (auto simp: atomic_def intro!: reads_atomic cast_body [OF e])
next
  case (IsNull e b)
  then have e: "reads_expr R e (expr_tokens (map_expr f e)) (expr_nest (map_expr g e))" by simp
  show ?case using wrap_first_append [OF e] by (auto simp: atomic_def intro!: reads_compound is_null_body [OF e])
next
  case (InList e b es)
  then have e: "reads_expr R e (expr_tokens (map_expr f e)) (expr_nest (map_expr g e))" by simp
  have "\<And>x. x \<in> set es \<Longrightarrow> reads_expr R x (expr_tokens (map_expr f x)) (expr_nest (map_expr g x))"
    using InList by (auto simp: list_all_iff)
  from in_list_reads [OF e _ this] InList.prems(1) show ?case by (simp add: comp_def)
next
  case (InSubquery e b q)
  then have e: "reads_expr R e (expr_tokens (map_expr f e)) (expr_nest (map_expr g e))"
    and q: "reads_select R q (f q) (g q)" by simp_all
  show ?case using wrap_first_append [OF e] by (auto simp: atomic_def intro!: reads_compound in_subquery_body [OF e _ _ q])
next
  case (Between e b lo hi)
  then have e: "reads_expr R e (expr_tokens (map_expr f e)) (expr_nest (map_expr g e))"
    and lo: "reads_expr R lo (expr_tokens (map_expr f lo)) (expr_nest (map_expr g lo))"
    and hi: "reads_expr R hi (expr_tokens (map_expr f hi)) (expr_nest (map_expr g hi))" by simp_all
  show ?case using wrap_first_append [OF e] by (auto simp: atomic_def intro!: reads_compound between_body [OF e _ _ lo _ hi])
next
  case (Like e b p esc c)
  then have e: "reads_expr R e (expr_tokens (map_expr f e)) (expr_nest (map_expr g e))"
    and p: "reads_expr R p (expr_tokens (map_expr f p)) (expr_nest (map_expr g p))" by simp_all
  have x: "reads_expr R x (expr_tokens (map_expr f x)) (expr_nest (map_expr g x))" if "esc = Some x" for x
    using Like that by auto
  have "reads_expr R (Like e b p esc None) (wrap e (expr_tokens (map_expr f e)) @ negation b @ TLike # wrap p (expr_tokens (map_expr f p)) @
    opt_tokens (\<lambda>ts. TEscape # TLParen # ts @ [TRParen]) (map_option (\<lambda>x. expr_tokens (map_expr f x)) esc))
    (Suc (max (expr_nest (map_expr g e)) (max (expr_nest (map_expr g p)) (case_option 0 Suc (map_option (\<lambda>x. expr_nest (map_expr g x)) esc)))))"
    by (rule like_reads [OF e _ p]) (use x in auto)
  then show ?case using Like.prems(1) by (simp add: option.map_comp comp_def)
next
  case (ScalarSubquery q)
  then show ?case by (auto simp: atomic_def intro!: reads_atomic scalar_body)
next
  case (Param p)
  then show ?case by (cases p) (auto simp: atomic_def parse_primary_def intro!: reads_token)
qed

end
