(* ===== verification/Round_Trip.thy ===== *)
theory Round_Trip
  imports Printing
begin

text \<open>
  Whole statements written as tokens and then as text, and the proof that lexer and parser
  (\<open>cfml-qoq/src/lexer.rs\<close>, \<open>parser.rs\<close>) together read the text back as the statement.
\<close>

section \<open>Printing statements\<close>

definition alias_tokens :: "ustr option \<Rightarrow> token list" where
  "alias_tokens a = (case a of None \<Rightarrow> [] | Some s \<Rightarrow> [TAs, TIdentifier s])"

definition table_tokens :: "token list table_ref \<Rightarrow> token list" where
  "table_tokens t =
     (case t of
        Named n a \<Rightarrow> TIdentifier n # alias_tokens a
      | Derived q a \<Rightarrow> TLParen # q @ [TRParen, TIdentifier a])"

definition join_words :: "join_type \<Rightarrow> token list" where
  "join_words jt =
     (case jt of
        Inner \<Rightarrow> [TJoin] | Left \<Rightarrow> [TLeft, TJoin] | Right \<Rightarrow> [TRight, TJoin] | Full \<Rightarrow> [TFull, TJoin]
      | Cross \<Rightarrow> [TCross, TJoin])"

definition join_tokens :: "token list join_clause \<Rightarrow> token list" where
  "join_tokens j =
     join_words (jn_type j) @ table_tokens (jn_table j) @ opt_tokens ((#) TOn) (map_option expr_tokens (jn_on j))"

definition list_clause :: "token list \<Rightarrow> token list list \<Rightarrow> token list" where
  "list_clause ws tss = (if tss = [] then [] else ws @ commas tss)"

definition core_tokens :: "token list select_core \<Rightarrow> token list" where
  "core_tokens c =
     TSelect # (if co_distinct c then [TDistinct] else []) @
     (case co_top c of None \<Rightarrow> [] | Some n \<Rightarrow> [TTop, TNumber (show_nat n)]) @
     commas (map (\<lambda>sc. expr_tokens (sc_expr sc) @ alias_tokens (sc_alias sc)) (co_columns c)) @
     (case co_from c of None \<Rightarrow> [] | Some t \<Rightarrow> TFrom # table_tokens t @ concat (map join_tokens (co_joins c))) @
     opt_tokens ((#) TWhere) (map_option expr_tokens (co_where c)) @
     list_clause [TGroup, TBy] (map expr_tokens (co_group_by c)) @
     opt_tokens ((#) THaving) (map_option expr_tokens (co_having c))"

definition union_tokens :: "token list union_arm \<Rightarrow> token list" where
  "union_tokens u = (if un_all u then [TAll] else []) @ core_tokens (un_select u)"

definition order_tokens :: "token list order_by_expr \<Rightarrow> token list" where
  "order_tokens ob = expr_tokens (ob_expr ob) @ (case ob_direction ob of Asc \<Rightarrow> [TAsc] | Desc \<Rightarrow> [TDesc])"

definition limit_tokens :: "limit_clause option \<Rightarrow> token list" where
  "limit_tokens l =
     (case l of None \<Rightarrow> [] | Some (LimitClause off cnt) \<Rightarrow> [TLimit, TNumber (show_nat cnt), TOffset, TNumber (show_nat off)])"

primrec stmt_tokens :: "select_statement \<Rightarrow> token list" where
  "stmt_tokens (SelectStatement body unions obs limit) =
     core_tokens (map_select_core stmt_tokens body) @
     concat (map (\<lambda>u. TUnion # union_tokens u) (map (map_union_arm stmt_tokens) unions)) @
     list_clause [TOrder, TBy] (map order_tokens (map (map_order_by_expr stmt_tokens) obs)) @ limit_tokens limit"

text \<open>The nesting a statement needs, and the statements that can be written: a FROM before any
  join, ON exactly for the joins that take it, numbers that fit, and TOP on the first core only
  beside a LIMIT, because the parser turns it into one otherwise.\<close>

definition core_exprs :: "'sel select_core \<Rightarrow> 'sel expr list" where
  "core_exprs c =
     map sc_expr (co_columns c) @ concat (map (\<lambda>j. case_option [] (\<lambda>e. [e]) (jn_on j)) (co_joins c)) @
     case_option [] (\<lambda>e. [e]) (co_where c) @ co_group_by c @ case_option [] (\<lambda>e. [e]) (co_having c)"

definition core_tables :: "'sel select_core \<Rightarrow> 'sel table_ref list" where
  "core_tables c = case_option [] (\<lambda>t. [t]) (co_from c) @ map jn_table (co_joins c)"

definition table_nest :: "nat table_ref \<Rightarrow> nat" where
  "table_nest t = (case t of Named _ _ \<Rightarrow> 0 | Derived q _ \<Rightarrow> q)"

definition core_nest :: "nat select_core \<Rightarrow> nat" where
  "core_nest c = foldr max (map (\<lambda>e. Suc (expr_nest e)) (core_exprs c) @ map table_nest (core_tables c)) 0"

primrec stmt_nest :: "select_statement \<Rightarrow> nat" where
  "stmt_nest (SelectStatement body unions obs limit) =
     Suc (foldr max (core_nest (map_select_core stmt_nest body) #
       map (\<lambda>u. core_nest (un_select u)) (map (map_union_arm stmt_nest) unions) @
       map (\<lambda>ob. Suc (expr_nest (ob_expr ob))) (map (map_order_by_expr stmt_nest) obs)) 0)"

definition fits_usize :: "nat \<Rightarrow> bool" where
  "fits_usize n \<longleftrightarrow> n \<le> usize_max"

definition core_writable :: "runtime \<Rightarrow> 'sel select_core \<Rightarrow> bool" where
  "core_writable R c \<longleftrightarrow>
     co_columns c \<noteq> [] \<and> list_all (writable R) (core_exprs c) \<and> (co_from c = None \<longrightarrow> co_joins c = []) \<and>
     list_all (\<lambda>j. jn_type j = Cross \<longleftrightarrow> jn_on j = None) (co_joins c) \<and> pred_option fits_usize (co_top c)"

primrec stmt_writable :: "runtime \<Rightarrow> select_statement \<Rightarrow> bool" where
  "stmt_writable R (SelectStatement body unions obs limit) \<longleftrightarrow>
     core_writable R body \<and> (\<forall>b \<in> set_select_core (map_select_core (stmt_writable R) body). b) \<and>
     list_all (\<lambda>u. core_writable R (un_select u) \<and> (\<forall>b \<in> set_union_arm u. b)) (map (map_union_arm (stmt_writable R)) unions) \<and>
     list_all (\<lambda>ob. writable R (ob_expr ob) \<and> (\<forall>b \<in> set_order_by_expr ob. b)) (map (map_order_by_expr (stmt_writable R)) obs) \<and>
     pred_option (\<lambda>l. fits_usize (lm_offset l) \<and> fits_usize (lm_count l)) limit \<and> (limit = None \<longrightarrow> co_top body = None)"

section \<open>Parts of a core\<close>

abbreviation expr_ok :: "runtime \<Rightarrow> nat \<Rightarrow> pexpr \<Rightarrow> token list \<Rightarrow> bool" where
  "expr_ok R d e ts \<equiv> \<exists>d'. reads_expr R e ts d' \<and> d' < d"

text \<open>What may follow an expression, an alias or a table name.\<close>

definition ends :: "token \<Rightarrow> bool" where
  "ends t \<longleftrightarrow> stop6 t \<and> t \<noteq> TAs \<and> \<not> is_identifier t"

lemma ends_stop6: "ends t \<Longrightarrow> stop6 t" "ends t \<Longrightarrow> t \<noteq> TDot" "stop6 TAs" "stop6 TOn"
  by (simp_all add: ends_def stops)

lemma follows_True [simp]: "follows look (\<lambda>t. True) us"
  by (simp add: follows_def split: list.split)

lemma parses_alias:
  assumes "\<And>t. look t \<Longrightarrow> ends t"
  shows "parses R look d (parse_optional_alias R) (alias_tokens a) a"
proof (cases a)
  case None
  have "parses R look d (\<lambda>st. if is_identifier (ps_current st) then then_p (parse_ident R) (\<lambda>s. ret (Some s)) st else Inr (None, st)) [] None"
    by (rule parses_same [OF parses_ret]) (use assms in \<open>auto simp: ends_def ret_def\<close>)
  then have "parses R look d (parse_optional_alias R) [] None"
    unfolding parse_optional_alias_def by (rule parses_if_not) (use assms in \<open>auto simp: ends_def\<close>)
  then show ?thesis by (simp add: None alias_tokens_def)
next
  case (Some s)
  have "parses R look d (parse_optional_alias R) (TAs # [TIdentifier s]) (Some s)"
    unfolding parse_optional_alias_def by (rule parses_if_eat [OF parses_map [OF parses_ident]]) simp
  then show ?thesis by (simp add: Some alias_tokens_def)
qed

lemma parses_expr: "expr_ok R d e ts \<Longrightarrow> d \<le> n \<Longrightarrow> parses R stop6 d (parse_expr R n) ts e"
  by (blast intro: reads_full6)

lemma parses_column:
  assumes "expr_ok R d e ts" "d \<le> n" "\<And>t. look t \<Longrightarrow> ends t"
  shows "parses R look d (parse_select_column R (parse_expr R n)) (ts @ alias_tokens a) (SelectColumn e a)"
  unfolding parse_select_column_def
  by (rule parses_then [OF parses_expr [OF assms(1,2)]], rule parses_map [OF parses_alias [OF assms(3)]])
     (use assms(3) in \<open>auto simp: alias_tokens_def ends_stop6 split: option.split\<close>)

definition table_ok :: "runtime \<Rightarrow> nat \<Rightarrow> select_statement table_ref \<Rightarrow> token list \<Rightarrow> bool" where
  "table_ok R d t ts \<longleftrightarrow>
     (case t of
        Named n a \<Rightarrow> ts = TIdentifier n # alias_tokens a
      | Derived q a \<Rightarrow> \<exists>qts d'. reads_select R q qts d' \<and> d' \<le> d \<and> ts = TLParen # qts @ [TRParen, TIdentifier a])"

lemma parses_table:
  assumes "table_ok R d t ts" "d \<le> n" "\<And>t. look t \<Longrightarrow> ends t"
  shows "parses R look d (parse_table_ref R (parse_select_statement R n)) ts t"
proof (cases t)
  case (Named name a)
  have "parses R look d (then_p (many R TDot (parse_ident R)) (\<lambda>segments. then_p (parse_optional_alias R) (\<lambda>alias.
      ret (Named (name @ concat (map (\<lambda>s. ch CHR ''.'' # s) segments)) alias)))) ([] @ alias_tokens a) (Named name a)"
  proof (rule parses_then)
    show "parses R (\<lambda>t. t \<noteq> TDot) d (many R TDot (parse_ident R)) [] []"
      using parses_many [of R "\<lambda>t. t \<noteq> TDot" TDot d "parse_ident R" "[]" "[]"] by simp
    show "parses R look d (then_p (parse_optional_alias R) (\<lambda>alias. ret (Named (name @ concat (map (\<lambda>s. ch CHR ''.'' # s) [])) alias)))
        (alias_tokens a) (Named name a)"
      by (simp, rule parses_map [OF parses_alias [OF assms(3)]])
  qed (use assms(3) in \<open>auto simp: alias_tokens_def ends_stop6 split: option.split\<close>)
  from parses_then [OF parses_ident [of R "\<lambda>t. True" d name], where k = "\<lambda>first. then_p (many R TDot (parse_ident R)) (\<lambda>segments. then_p (parse_optional_alias R) (\<lambda>alias.
      ret (Named (first @ concat (map (\<lambda>s. ch CHR ''.'' # s) segments)) alias)))", OF this]
  have "parses R look d (then_p (parse_ident R) (\<lambda>first. then_p (many R TDot (parse_ident R)) (\<lambda>segments. then_p (parse_optional_alias R) (\<lambda>alias.
      ret (Named (first @ concat (map (\<lambda>s. ch CHR ''.'' # s) segments)) alias))))) (TIdentifier name # alias_tokens a) (Named name a)"
    by simp
  then show ?thesis
    using assms(1) unfolding parse_table_ref_def by (intro parses_if_not) (simp_all add: Named table_ok_def)
next
  case (Derived q a)
  then obtain qts d' where q: "reads_select R q qts d'" "d' \<le> d" "ts = TLParen # qts @ [TRParen, TIdentifier a]"
    using assms(1) by (auto simp: table_ok_def)
  let ?name = "then_p (parse_ident R) (\<lambda>alias. ret (Derived q alias))"
  have name: "parses R look d ?name [TIdentifier a] (Derived q a)"
    by (rule parses_map [OF parses_ident])
  have eat: "parses R (\<lambda>t. t \<noteq> TAs) d (eat R TAs) [] False"
    using parses_eat [of "\<lambda>t. t \<noteq> TAs" TAs R d False] by simp
  have "parses R look d (then_p (eat R TAs) (\<lambda>_. ?name)) ([] @ [TIdentifier a]) (Derived q a)"
    by (rule parses_then [OF eat name]) simp
  then have tail: "parses R look d (then_p (expect R TRParen) (\<lambda>_. then_p (eat R TAs) (\<lambda>_. ?name))) (TRParen # [] @ [TIdentifier a]) (Derived q a)"
    by (rule parses_expect_then) simp
  have "d' \<le> n" using q(2) assms(2) by simp
  then have "parses R (\<lambda>t. t = TRParen \<or> t = TEof) d' (parse_select_statement R n) qts q"
    using q(1) by (simp add: reads_select_def)
  then have "parses R (\<lambda>t. t = TRParen) d (parse_select_statement R n) qts q"
    by (rule parses_weaken) (use q(2) in simp_all)
  from parses_then [OF this, where k = "\<lambda>q. then_p (expect R TRParen) (\<lambda>_. then_p (eat R TAs) (\<lambda>_. then_p (parse_ident R) (\<lambda>alias. ret (Derived q alias))))",
      OF tail]
  show ?thesis
    unfolding parse_table_ref_def Derived q(3) by (intro parses_if_eat) simp_all
qed

definition join_ok :: "runtime \<Rightarrow> nat \<Rightarrow> select_statement join_clause \<Rightarrow> token list \<Rightarrow> bool" where
  "join_ok R d j ts \<longleftrightarrow> (\<exists>tts. table_ok R d (jn_table j) tts \<and>
     (case jn_on j of
        None \<Rightarrow> jn_type j = Cross \<and> ts = join_words Cross @ tts
      | Some e \<Rightarrow> jn_type j \<noteq> Cross \<and> (\<exists>ets. expr_ok R d e ets \<and> ts = join_words (jn_type j) @ tts @ TOn # ets)))"

definition joining :: "token \<Rightarrow> bool" where
  "joining t \<longleftrightarrow> t \<in> {TComma, TCross, TJoin, TInner, TLeft, TRight, TFull}"

lemma joining_ends: "joining t \<Longrightarrow> ends t"
  by (auto simp: joining_def ends_def is_identifier_def stops)

lemma parses_join_with_on:
  assumes "table_ok R d t tts" "expr_ok R d e ets" "d \<le> n" "\<And>t. look t \<Longrightarrow> ends t"
  shows "parses R look d (parse_join_with_on R (parse_expr R n) (parse_select_statement R n) jt) (tts @ TOn # ets) (JoinClause jt t (Some e))"
proof -
  have "parses R look d (parse_expr R n) ets e"
    by (rule parses_weaken [OF parses_expr [OF assms(2,3)]]) (use assms(4) ends_stop6 in simp_all)
  from parses_map [OF this, of "\<lambda>on. JoinClause jt t (Some on)"]
  have "parses R look d (then_p (expect R TOn) (\<lambda>_. then_p (parse_expr R n) (\<lambda>on. ret (JoinClause jt t (Some on))))) (TOn # ets) (JoinClause jt t (Some e))"
    by (rule parses_expect_then) simp
  then show ?thesis
    unfolding parse_join_with_on_def
    by (rule parses_then [OF parses_table [OF assms(1,3), of "\<lambda>t. t = TOn"], rotated]) (simp_all add: ends_def is_identifier_def stops)
qed

lemma parses_outer_join:
  assumes "table_ok R d t tts" "expr_ok R d e ets" "d \<le> n" "\<And>t. look t \<Longrightarrow> ends t"
  shows "parses R look d (outer_join R (parse_expr R n) (parse_select_statement R n) jt) (TJoin # tts @ TOn # ets) (JoinClause jt t (Some e))"
proof -
  have eat: "parses R (\<lambda>t. t = TJoin) d (eat R TOuter) [] False"
    using parses_eat [of "\<lambda>t. t = TJoin" TOuter R d False] by simp
  have "parses R look d (outer_join R (parse_expr R n) (parse_select_statement R n) jt) ([] @ TJoin # tts @ TOn # ets) (JoinClause jt t (Some e))"
    unfolding outer_join_def
    by (rule parses_then [OF eat parses_expect_then [OF parses_join_with_on [OF assms]]]) simp_all
  then show ?thesis by simp
qed

lemma parses_join:
  assumes "join_ok R d j ts" "d \<le> n" "\<And>t. look t \<Longrightarrow> ends t"
  shows "parses R look d (parse_join R (parse_expr R n) (parse_select_statement R n)) ts (Some j) \<and> ts \<noteq> [] \<and> joining (hd ts)"
proof (cases "jn_on j")
  case None
  then obtain tts where t: "table_ok R d (jn_table j) tts" "ts = TCross # TJoin # tts" "j = JoinClause Cross (jn_table j) None"
    using assms(1) by (cases j) (auto simp: join_ok_def join_words_def)
  let ?cross = "then_p (expect R TJoin) (\<lambda>_. cross_join R (parse_select_statement R n))"
  have "parses R look d ?cross (TJoin # tts) (JoinClause Cross (jn_table j) None)"
    unfolding cross_join_def by (rule parses_expect_then [OF parses_map [OF parses_table [OF t(1) assms(2,3)]]]) simp_all
  from parses_map [OF this, of Some] have "parses R look d (parse_join R (parse_expr R n) (parse_select_statement R n)) (TCross # TJoin # tts) (Some (JoinClause Cross (jn_table j) None))"
    by (rule parses_after) (simp_all add: parse_join_def)
  then show ?thesis using t(3) by (simp add: t(2) joining_def)
next
  case (Some e)
  then obtain tts ets where t: "table_ok R d (jn_table j) tts" "expr_ok R d e ets" "jn_type j \<noteq> Cross"
      "ts = join_words (jn_type j) @ tts @ TOn # ets" "j = JoinClause (jn_type j) (jn_table j) (Some e)"
    using assms(1) by (cases j) (auto simp: join_ok_def)
  note outer = parses_map [OF parses_outer_join [OF t(1,2) assms(2,3)], where f = Some]
  note inner = parses_join_with_on [OF t(1,2) assms(2,3)]
  show ?thesis
  proof (cases "jn_type j = Inner")
    case True
    have eat: "parses R (\<lambda>t. t = TJoin) d (eat R TInner) [] False"
      using parses_eat [of "\<lambda>t. t = TJoin" TInner R d False] by simp
    have "parses R look d (then_p (eat R TInner) (\<lambda>_. then_p (expect R TJoin) (\<lambda>_. parse_join_with_on R (parse_expr R n) (parse_select_statement R n) Inner)))
        ([] @ TJoin # tts @ TOn # ets) (JoinClause Inner (jn_table j) (Some e))"
      by (rule parses_then [OF eat parses_expect_then [OF inner]]) simp_all
    from parses_map [OF this, of Some]
    have "parses R look d (parse_join R (parse_expr R n) (parse_select_statement R n)) ([] @ TJoin # tts @ TOn # ets) (Some (JoinClause Inner (jn_table j) (Some e)))"
      by (rule parses_same) (simp add: parse_join_def)
    then show ?thesis using t(4,5) True by (simp add: joining_def join_words_def)
  next
    case False
    have "parses R look d (parse_join R (parse_expr R n) (parse_select_statement R n)) (join_words (jn_type j) @ tts @ TOn # ets) (Some (JoinClause (jn_type j) (jn_table j) (Some e)))"
      by (cases "jn_type j") (use False t(3) in \<open>auto simp: join_words_def parse_join_def intro!: parses_after [OF outer]\<close>)
    moreover have "joining (hd ts) \<and> ts \<noteq> []" by (cases "jn_type j") (simp_all add: t(4) joining_def join_words_def)
    ultimately show ?thesis using t(4,5) by simp
  qed
qed

lemma join_loop_fun:
  "join_loop R pe ps (Suc m) =
     then_p (parse_join R pe ps) (\<lambda>j. case j of None \<Rightarrow> ret [] | Some jn \<Rightarrow> then_p (join_loop R pe ps m) (\<lambda>joins. ret (jn # joins)))"
  by (rule ext) simp

lemma join_loop_parses:
  assumes "list_all2 (join_ok R d) js tss" "d \<le> n" "\<And>t. look t \<Longrightarrow> ends t \<and> \<not> joining t" "length js < m"
  shows "parses R look d (join_loop R (parse_expr R n) (parse_select_statement R n) m) (concat tss) js \<and>
    follows look (\<lambda>t. look t \<or> joining t) (concat tss)"
  using assms(1,4)
proof (induction js tss arbitrary: m rule: list_all2_induct)
  case Nil
  then obtain m' where m: "m = Suc m'" by (cases m) auto
  have "parses R look d (parse_join R (parse_expr R n) (parse_select_statement R n)) [] None"
    by (rule parses_same [OF parses_ret]) (use assms(3) in \<open>auto simp: parse_join_def joining_def ret_def\<close>)
  then have "parses R look d (join_loop R (parse_expr R n) (parse_select_statement R n) m) ([] @ []) []"
    unfolding m join_loop_fun by (rule parses_then) (simp_all add: parses_ret)
  then show ?case by simp
next
  case (Cons j js ts tss)
  then obtain m' where m: "m = Suc m'" "length js < m'" by (cases m) auto
  note IH = Cons.IH [OF m(2)]
  have ends: "ends t" if "look t \<or> joining t" for t
    using that assms(3) joining_ends by blast
  have j: "parses R (\<lambda>t. look t \<or> joining t) d (parse_join R (parse_expr R n) (parse_select_statement R n)) ts (Some j) \<and> ts \<noteq> [] \<and> joining (hd ts)"
    by (rule parses_join [OF Cons.hyps(1) assms(2) ends])
  have "parses R look d (join_loop R (parse_expr R n) (parse_select_statement R n) m) (ts @ concat tss) (j # js)"
    unfolding m(1) join_loop_fun
    by (rule parses_then [OF conjunct1 [OF j]]) (use IH in \<open>auto intro: parses_map\<close>)
  moreover have "follows look (\<lambda>t. look t \<or> joining t) (ts @ concat tss)"
    using j by (cases ts) simp_all
  ultimately show ?case by simp
qed

lemma parses_from:
  assumes "table_ok R d t tts" "list_all2 (join_ok R d) js tss" "d \<le> n" "\<And>t. look t \<Longrightarrow> ends t \<and> \<not> joining t"
  shows "parses R look d (parse_from R (parse_expr R n) (parse_select_statement R n)) (tts @ concat tss) (Some t, js)"
proof -
  let ?pe = "parse_expr R n" and ?ps = "parse_select_statement R n"
  have loop: "parses R look d (join_loop R ?pe ?ps m) (concat tss) js \<and> follows look (\<lambda>t. look t \<or> joining t) (concat tss)"
    if "length js < m" for m
    by (rule join_loop_parses [OF assms(2,3) _ that]) (rule assms(4))
  have len: "length js \<le> length (concat tss)"
    using assms(2)
  proof (induction rule: list_all2_induct)
    case (Cons j js ts tss)
    have "ts \<noteq> []" using Cons.hyps(1) by (auto simp: join_ok_def join_words_def split: option.splits join_type.splits)
    then show ?case using Cons.IH by (cases ts) auto
  qed simp
  have "parses R look d (\<lambda>st. then_p (join_loop R ?pe ?ps (Suc (todo st))) (\<lambda>joins. ret (Some t, joins)) st) (concat tss) (Some t, js)"
  proof (rule parsesI)
    show eof: "TEof \<notin> set (concat tss)"
      by (rule parses_no_eof [OF conjunct1 [OF loop [OF lessI]]])
    fix st u rs assume *: "feeds R st (concat tss @ u # rs)" "look u" "ps_depth st + d \<le> max_nesting_depth"
    have "length js < Suc (todo st)" using feeds_todo [OF *(1) eof] len by simp
    from parses_map [OF conjunct1 [OF loop [OF this]], of "Pair (Some t)"]
    show "\<exists>st'. then_p (join_loop R ?pe ?ps (Suc (todo st))) (\<lambda>joins. ret (Some t, joins)) st = Inr ((Some t, js), st') \<and>
        feeds R st' (u # rs) \<and> ps_depth st' = ps_depth st"
      by (rule parsesE [where look = look and t = u, OF _ *]) blast
  qed
  moreover have "ends t" if "look t \<or> joining t" for t
    using that assms(4) joining_ends by blast
  moreover have "follows look (\<lambda>t. look t \<or> joining t) (concat tss)"
    using loop [OF lessI] by simp
  ultimately show ?thesis
    unfolding parse_from_def by (intro parses_then [OF parses_table [OF assms(1,3), of "\<lambda>t. look t \<or> joining t"]]) blast+
qed

section \<open>Clauses\<close>

text \<open>The tokens of an optional clause start with its keyword, if there are any.\<close>

definition opens :: "token set \<Rightarrow> token list \<Rightarrow> bool" where
  "opens S us \<longleftrightarrow> (case us of [] \<Rightarrow> True | u # _ \<Rightarrow> u \<in> S)"

lemma opens_simps [simp]: "opens S []" "opens S (u # us) \<longleftrightarrow> u \<in> S"
  by (simp_all add: opens_def)

lemma opens_append [simp]: "opens S us \<Longrightarrow> opens S vs \<Longrightarrow> opens S (us @ vs)"
  by (cases us) simp_all

lemma opens_clause [simp]:
  "tok \<in> S \<Longrightarrow> opens S (opt_tokens ((#) tok) o1)" "tok \<in> S \<Longrightarrow> opens S (list_clause [tok, tok'] tss)"
  by (simp_all add: opt_tokens_def list_clause_def split: option.split)

lemma parses_clause:
  assumes "parses R (\<lambda>t. t \<in> S) d p ts x" "parses R (\<lambda>t. t \<in> T) d (k x) us y" "T \<subseteq> S" "opens S us"
  shows "parses R (\<lambda>t. t \<in> T) d (then_p p k) (ts @ us) y"
  by (rule parses_then [OF assms(1)], rule assms(2)) (use assms(3,4) in \<open>cases us; auto\<close>)

lemma parses_list_clause:
  assumes "list_all2 (parses R (\<lambda>t. t \<in> S \<or> t = TComma) d p) tss xs" "w \<notin> S" "TComma \<notin> S" "w \<noteq> TEof" "w' \<noteq> TEof"
  shows "parses R (\<lambda>t. t \<in> S) d (if_eat R w (then_p (expect R w') (\<lambda>_. comma_list R p)) (ret [])) (list_clause [w, w'] tss) xs"
proof (cases xs)
  case Nil
  then have "tss = []" using assms(1) by simp
  then show ?thesis using assms(2) Nil by (auto simp: list_clause_def intro!: parses_if_not parses_ret)
next
  case (Cons x xs')
  then have ne: "xs \<noteq> []" "tss \<noteq> []" using assms(1) by auto
  have "parses R (\<lambda>t. t \<in> S) d (comma_list R p) (commas tss) xs"
    by (rule parses_comma_list [OF assms(1) _ ne(1)]) (use assms(3) in auto)
  from parses_if_eat [OF parses_expect_then [OF this assms(5)] assms(4)]
  show ?thesis using ne(2) by (simp add: list_clause_def)
qed

lemma parses_optional_expr:
  assumes "reads_option R d o1 ots" "d \<le> n" "S \<subseteq> Collect ends" "tok \<notin> S" "tok \<noteq> TEof"
  shows "parses R (\<lambda>t. t \<in> S) d (optional R tok (parse_expr R n)) (opt_tokens ((#) tok) ots) o1"
  by (rule optional_expr [OF assms(1,2) _ assms(5)]) (use assms(3,4) ends_stop6 in auto)

definition core_end :: "token set" where
  "core_end = {TUnion, TOrder, TLimit, TRParen, TEof}"

lemma comma6: "stop6 TComma"
  by (simp add: stops)

lemma clause_ends:
  "insert TFrom (insert TWhere (insert TGroup (insert THaving core_end))) \<subseteq> Collect ends"
  by (auto simp: core_end_def ends_def is_identifier_def stops)

definition from_ok :: "runtime \<Rightarrow> nat \<Rightarrow> select_statement table_ref option \<Rightarrow> select_statement join_clause list \<Rightarrow> token list \<Rightarrow> bool" where
  "from_ok R d t js ts \<longleftrightarrow>
     (case t of
        None \<Rightarrow> js = [] \<and> ts = []
      | Some t \<Rightarrow> \<exists>tts tss. table_ok R d t tts \<and> list_all2 (join_ok R d) js tss \<and> ts = TFrom # tts @ concat tss)"

lemma parses_from_clause:
  assumes "from_ok R d t js ts" "d \<le> n"
  shows "parses R (\<lambda>t. t \<in> insert TWhere (insert TGroup (insert THaving core_end))) d
    (if_eat R TFrom (parse_from R (parse_expr R n) (parse_select_statement R n)) (ret (None, []))) ts (t, js)"
proof (cases t)
  case None
  then show ?thesis using assms(1) by (auto simp: from_ok_def core_end_def intro!: parses_if_not parses_ret)
next
  case (Some t')
  then obtain tts tss where ok: "table_ok R d t' tts" "list_all2 (join_ok R d) js tss" "ts = TFrom # tts @ concat tss"
    using assms(1) by (auto simp: from_ok_def)
  show ?thesis
    unfolding ok(3) Some
    by (rule parses_if_eat [OF parses_from [OF ok(1,2) assms(2)]])
       (use clause_ends in \<open>auto simp: joining_def core_end_def\<close>)
qed

lemma parses_columns:
  assumes "list_all2 (\<lambda>sc ts. \<exists>ets. expr_ok R d (sc_expr sc) ets \<and> ts = ets @ alias_tokens (sc_alias sc)) cols tss" "cols \<noteq> []" "d \<le> n"
  shows "parses R (\<lambda>t. t \<in> insert TFrom (insert TWhere (insert TGroup (insert THaving core_end)))) d
    (parse_select_columns R (parse_expr R n)) (commas tss) cols"
  unfolding parse_select_columns_def
proof (rule parses_comma_list [OF _ _ assms(2)])
  let ?look = "\<lambda>t. t \<in> insert TFrom (insert TWhere (insert TGroup (insert THaving core_end))) \<or> t = TComma"
  have ends: "ends t" if "?look t" for t
    using that clause_ends by (auto simp: ends_def is_identifier_def stops)
  have "parses R ?look d (parse_select_column R (parse_expr R n)) ts sc"
    if col: "\<exists>ets. expr_ok R d (sc_expr sc) ets \<and> ts = ets @ alias_tokens (sc_alias sc)" for sc ts
  proof -
    obtain ets where ets: "expr_ok R d (sc_expr sc) ets" "ts = ets @ alias_tokens (sc_alias sc)" using col by blast
    have "parses R ?look d (parse_select_column R (parse_expr R n)) ts (SelectColumn (sc_expr sc) (sc_alias sc))"
      unfolding ets(2) by (rule parses_column [OF ets(1) assms(3)]) (rule ends)
    then show ?thesis by simp
  qed
  then have "list_all2 (\<lambda>sc ts. parses R ?look d (parse_select_column R (parse_expr R n)) ts sc) cols tss"
    by (rule list_all2_mono [OF assms(1)])
  then show "list_all2 (parses R ?look d (parse_select_column R (parse_expr R n))) tss cols"
    by (simp add: list_all2_conv_all_nth)
qed (auto simp: core_end_def)

lemma parse_usize_show: "fits_usize n \<Longrightarrow> parse_usize (show_nat n) = Some n"
proof -
  obtain c r where c: "show_nat n = c # r" "is_ascii_digit c" using show_nat_hd_digit by blast
  moreover have "parse_digits (c # r) = Some n" using parse_digits_show_nat [of n] c(1) by simp
  ultimately show "fits_usize n \<Longrightarrow> parse_usize (show_nat n) = Some n"
    by (simp add: parse_usize_def fits_usize_def is_ascii_digit_def)
qed

lemma parses_top:
  assumes "pred_option fits_usize tn"
  shows "parses R (\<lambda>t. t \<noteq> TTop) d (optional R TTop (parse_uint R)) (case tn of None \<Rightarrow> [] | Some n \<Rightarrow> [TTop, TNumber (show_nat n)]) tn"
proof (cases tn)
  case (Some n)
  then show ?thesis using assms by (auto intro!: parses_optional parses_uint parse_usize_show)
qed (auto intro: parses_optional_none)

lemma first_column:
  assumes "list_all2 (\<lambda>sc ts. \<exists>ets. expr_ok R d (sc_expr sc) ets \<and> ts = ets @ alias_tokens (sc_alias sc)) cols ctss" "cols \<noteq> []"
  shows "first_ok (commas ctss)"
  using assms by (cases cols) (auto simp: list_all2_Cons1 commas_def reads_expr_def)

text \<open>A core from the tokens of its parts.\<close>

lemma parses_core:
  assumes n: "d \<le> n" and tn: "pred_option fits_usize tn"
    and colss: "list_all2 (\<lambda>sc ts. \<exists>ets. expr_ok R d (sc_expr sc) ets \<and> ts = ets @ alias_tokens (sc_alias sc)) cols ctss" "cols \<noteq> []"
    and fr: "from_ok R d t js fts" and wh: "reads_option R d wh wts" and hv: "reads_option R d hv hts"
    and gb: "list_all2 (expr_ok R d) gs gtss"
  shows "parses R (\<lambda>t. t \<in> core_end) d (parse_select_core R (parse_expr R n) (parse_select_statement R n))
    (TSelect # (if dist then [TDistinct] else []) @ (case tn of None \<Rightarrow> [] | Some n \<Rightarrow> [TTop, TNumber (show_nat n)]) @ commas ctss @
     fts @ opt_tokens ((#) TWhere) wts @ list_clause [TGroup, TBy] gtss @ opt_tokens ((#) THaving) hts)
    (SelectCore dist tn cols t js wh gs hv)"
proof -
  let ?pe = "parse_expr R n" and ?ps = "parse_select_statement R n" and ?core = "SelectCore dist tn cols t js wh gs hv"
  let ?having = "opt_tokens ((#) THaving) hts" and ?group = "list_clause [TGroup, TBy] gtss" and ?where = "opt_tokens ((#) TWhere) wts"
  let ?k7 = "\<lambda>dist tn cols t js wh gs. then_p (optional R THaving ?pe) (\<lambda>hv. ret (SelectCore dist tn cols t js wh gs hv))"
  let ?k6 = "\<lambda>dist tn cols t js wh. then_p (if_eat R TGroup (then_p (expect R TBy) (\<lambda>_. parse_expr_list R ?pe)) (ret [])) (?k7 dist tn cols t js wh)"
  let ?k5 = "\<lambda>dist tn cols t js. then_p (optional R TWhere ?pe) (?k6 dist tn cols t js)"
  let ?k4 = "\<lambda>dist tn cols. then_p (if_eat R TFrom (parse_from R ?pe ?ps) (ret (None, []))) (\<lambda>(t, js). ?k5 dist tn cols t js)"
  let ?k3 = "\<lambda>dist tn. then_p (parse_select_columns R ?pe) (?k4 dist tn)"
  have "list_all2 (parses R (\<lambda>t. t \<in> insert THaving core_end \<or> t = TComma) d ?pe) gtss gs"
    by (rule full_list [OF gb n]) (use clause_ends in \<open>auto intro: ends_stop6(1) comma6\<close>)
  then have group: "parses R (\<lambda>t. t \<in> insert THaving core_end) d (if_eat R TGroup (then_p (expect R TBy) (\<lambda>_. parse_expr_list R ?pe)) (ret [])) ?group gs"
    unfolding parse_expr_list_def by (rule parses_list_clause) (auto simp: core_end_def)
  have "parses R (\<lambda>t. t \<in> core_end) d (?k7 dist tn cols t js wh gs) ?having ?core"
    by (rule parses_map [OF parses_optional_expr [OF hv n]]) (use clause_ends in \<open>auto simp: core_end_def\<close>)
  then have "parses R (\<lambda>t. t \<in> core_end) d (?k6 dist tn cols t js wh) (?group @ ?having) ?core"
    by (rule parses_clause [OF group]) auto
  then have "parses R (\<lambda>t. t \<in> core_end) d (?k5 dist tn cols t js) (?where @ ?group @ ?having) ?core"
    by (rule parses_clause [OF parses_optional_expr [OF wh n, of "insert TGroup (insert THaving core_end)"], rotated 3])
       (use clause_ends in \<open>auto simp: core_end_def\<close>)
  then have "parses R (\<lambda>t. t \<in> core_end) d (?k4 dist tn cols) (fts @ ?where @ ?group @ ?having) ?core"
    by (intro parses_clause [OF parses_from_clause [OF fr n]]) auto
  then have cols: "parses R (\<lambda>t. t \<in> core_end) d (?k3 dist tn) (commas ctss @ fts @ ?where @ ?group @ ?having) ?core"
    by (rule parses_clause [OF parses_columns [OF colss n]]) (use fr in \<open>auto simp: from_ok_def split: option.splits\<close>)
  obtain u us where u: "commas ctss @ fts @ ?where @ ?group @ ?having = u # us" "u \<noteq> TDistinct" "u \<noteq> TTop"
    using first_column [OF colss] by (cases "commas ctss") auto
  let ?top = "case tn of None \<Rightarrow> [] | Some n \<Rightarrow> [TTop, TNumber (show_nat n)]"
  have tops: "parses R (\<lambda>t. t \<in> core_end) d (then_p (optional R TTop (parse_uint R)) (?k3 dist)) (?top @ commas ctss @ fts @ ?where @ ?group @ ?having) ?core"
    by (rule parses_then [OF parses_top [OF tn]], rule cols) (simp add: u)
  have eat: "parses R (\<lambda>t. t \<noteq> TDistinct) d (eat R TDistinct) (if dist then [TDistinct] else []) dist"
    by (rule parses_eat) simp_all
  have "parses R (\<lambda>t. t \<in> core_end) d (then_p (eat R TDistinct) (\<lambda>dist. then_p (optional R TTop (parse_uint R)) (?k3 dist)))
      ((if dist then [TDistinct] else []) @ ?top @ commas ctss @ fts @ ?where @ ?group @ ?having) ?core"
    by (rule parses_then [OF eat], rule tops) (simp add: u split: option.split)
  then show ?thesis
    unfolding parse_select_core_def by (rule parses_expect_then) simp
qed

section \<open>Cores and statements\<close>

lemma core_exprs_map: "core_exprs (map_select_core f c) = map (map_expr f) (core_exprs c)"
  by (cases c)
     (auto simp: core_exprs_def select_column.map_sel join_clause.map_sel map_concat comp_def case_map_option split: option.split
        cong: option.case_cong intro!: arg_cong [of _ _ concat])

lemma core_tables_map: "core_tables (map_select_core f c) = map (map_table_ref f) (core_tables c)"
  by (cases c) (auto simp: core_tables_def join_clause.map_sel split: option.split)

lemma set_join_clause_parts: "set_join_clause j = set_table_ref (jn_table j) \<union> (\<Union>e \<in> set_option (jn_on j). set_expr e)"
  by (cases j) auto

lemma core_exprs_selects: "e \<in> set (core_exprs c) \<Longrightarrow> q \<in> set_expr e \<Longrightarrow> q \<in> set_select_core c"
  by (cases c) (auto simp: core_exprs_def set_select_column_expr set_join_clause_parts split: option.splits)

lemma core_tables_selects: "t \<in> set (core_tables c) \<Longrightarrow> q \<in> set_table_ref t \<Longrightarrow> q \<in> set_select_core c"
  by (cases c) (auto simp: core_tables_def set_join_clause_parts split: option.splits)

text \<open>The two conditions under which the printed form of a core is read back.\<close>

lemma core_tokens_read:
  assumes w: "core_writable R c" and n: "d \<le> n"
    and e: "\<And>e. e \<in> set (core_exprs c) \<Longrightarrow> expr_ok R d e (expr_tokens (map_expr f e))"
    and t: "\<And>t. t \<in> set (core_tables c) \<Longrightarrow> table_ok R d t (table_tokens (map_table_ref f t))"
  shows "parses R (\<lambda>t. t \<in> core_end) d (parse_select_core R (parse_expr R n) (parse_select_statement R n)) (core_tokens (map_select_core f c)) c"
proof (cases c)
  case (SelectCore dist tn cols fr js wh gs hv)
  let ?T = "\<lambda>e. expr_tokens (map_expr f e)"
  have cols: "list_all2 (\<lambda>sc ts. \<exists>ets. expr_ok R d (sc_expr sc) ets \<and> ts = ets @ alias_tokens (sc_alias sc)) cols
      (map (\<lambda>sc. ?T (sc_expr sc) @ alias_tokens (sc_alias sc)) cols)" "cols \<noteq> []"
    using e w by (auto simp: SelectCore core_exprs_def core_writable_def list_all2_map2 list_all2_same)
  have "join_ok R d j (join_tokens (map_join_clause f j))" if "j \<in> set js" for j
  proof -
    have "jn_table j \<in> set (core_tables c)" using that by (simp add: SelectCore core_tables_def)
    note tb = t [OF this]
    have cross: "jn_type j = Cross \<longleftrightarrow> jn_on j = None"
      using that w by (simp add: SelectCore core_writable_def list_all_iff)
    have on: "expr_ok R d x (?T x)" if "jn_on j = Some x" for x
    proof (rule e)
      show "x \<in> set (core_exprs c)" using that \<open>j \<in> set js\<close> by (auto simp: SelectCore core_exprs_def intro!: bexI [of _ j])
    qed
    show ?thesis
    proof (cases "jn_on j")
      case None
      then show ?thesis using tb cross by (cases j) (auto simp: join_ok_def join_tokens_def opt_tokens_def)
    next
      case (Some x)
      then show ?thesis using tb cross on [OF Some] by (cases j) (auto simp: join_ok_def join_tokens_def opt_tokens_def)
    qed
  qed
  then have "list_all2 (join_ok R d) js (map (\<lambda>j. join_tokens (map_join_clause f j)) js)"
    by (auto simp: list_all2_map2 list_all2_same)
  then have fr: "from_ok R d fr js (case fr of None \<Rightarrow> [] | Some t \<Rightarrow> TFrom # table_tokens (map_table_ref f t) @ concat (map (\<lambda>j. join_tokens (map_join_clause f j)) js))"
    using w t by (auto simp: from_ok_def SelectCore core_writable_def core_tables_def split: option.split)
  have wh: "reads_option R d wh (map_option ?T wh)" and hv: "reads_option R d hv (map_option ?T hv)"
    using e by (cases wh; cases hv; simp add: SelectCore reads_option_def core_exprs_def)+
  have gs: "list_all2 (expr_ok R d) gs (map ?T gs)"
    using e by (auto simp: SelectCore core_exprs_def list_all2_map2 list_all2_same)
  have "pred_option fits_usize tn" using w by (simp add: SelectCore core_writable_def)
  from parses_core [OF n this cols fr wh hv gs, of dist] show ?thesis
    by (simp add: SelectCore core_tokens_def select_column.map_sel comp_def option.map_comp case_map_option cong: option.case_cong)
qed

lemma core_reads:
  assumes w: "core_writable R c" and q: "\<forall>q \<in> set_select_core c. reads_select R q (f q) (g q)"
    and d: "core_nest (map_select_core g c) \<le> d" "d \<le> n"
  shows "parses R (\<lambda>t. t \<in> core_end) d (parse_select_core R (parse_expr R n) (parse_select_statement R n)) (core_tokens (map_select_core f c)) c"
proof (rule core_tokens_read [OF w d(2)])
  let ?nests = "map (\<lambda>e. Suc (expr_nest (map_expr g e))) (core_exprs c) @ map (\<lambda>t. table_nest (map_table_ref g t)) (core_tables c)"
  have nest: "foldr max ?nests 0 \<le> d"
    using d(1) by (simp add: core_nest_def core_exprs_map core_tables_map comp_def)
  fix e assume e: "e \<in> set (core_exprs c)"
  have "reads_expr R e (expr_tokens (map_expr f e)) (expr_nest (map_expr g e))"
    by (rule expr_reads) (use w e q core_exprs_selects [OF e] in \<open>auto simp: core_writable_def list_all_iff\<close>)
  moreover have "Suc (expr_nest (map_expr g e)) \<le> foldr max ?nests 0"
    by (rule foldr_max_le) (use e in simp)
  ultimately show "expr_ok R d e (expr_tokens (map_expr f e))" using nest by (intro exI [of _ "expr_nest (map_expr g e)"]) simp
next
  let ?nests = "map (\<lambda>e. Suc (expr_nest (map_expr g e))) (core_exprs c) @ map (\<lambda>t. table_nest (map_table_ref g t)) (core_tables c)"
  have nest: "foldr max ?nests 0 \<le> d"
    using d(1) by (simp add: core_nest_def core_exprs_map core_tables_map comp_def)
  fix t assume t: "t \<in> set (core_tables c)"
  have "table_nest (map_table_ref g t) \<le> foldr max ?nests 0"
    by (rule foldr_max_le) (use t in simp)
  then have "table_nest (map_table_ref g t) \<le> d" using nest by simp
  then show "table_ok R d t (table_tokens (map_table_ref f t))"
    using q core_tables_selects [OF t] by (cases t) (auto simp: table_ok_def table_tokens_def table_nest_def)
qed

section \<open>Statements\<close>

lemma limit_reads:
  assumes "pred_option (\<lambda>l. fits_usize (lm_offset l) \<and> fits_usize (lm_count l)) l"
  shows "parses R (\<lambda>t. t \<in> {TRParen, TEof}) d (optional R TLimit (parse_limit R)) (limit_tokens l) l"
proof (cases l)
  case None
  then show ?thesis by (auto simp: limit_tokens_def intro: parses_optional_none)
next
  case (Some lc)
  obtain off cnt where lc: "lc = LimitClause off cnt" by (cases lc)
  then have n: "parse_usize (show_nat off) = Some off" "parse_usize (show_nat cnt) = Some cnt"
    using assms Some by (simp_all add: parse_usize_show)
  let ?k = "\<lambda>first. if_eat R TComma (then_p (parse_uint R) (\<lambda>cnt. ret (LimitClause first cnt)))
      (if_eat R TOffset (then_p (parse_uint R) (\<lambda>offset. ret (LimitClause offset first))) (ret (LimitClause 0 first)))"
  have "parses R (\<lambda>t. t \<in> {TRParen, TEof}) d (?k cnt) (TOffset # [TNumber (show_nat off)]) lc"
    unfolding lc by (rule parses_if_not, rule parses_if_eat, rule parses_map [OF parses_uint [OF n(1)]]) simp_all
  then have "parses R (\<lambda>t. t \<in> {TRParen, TEof}) d (parse_limit R) ([TNumber (show_nat cnt)] @ TOffset # [TNumber (show_nat off)]) lc"
    unfolding parse_limit_def by (rule parses_then [OF parses_uint [OF n(2), of R "\<lambda>t. True"]]) simp
  then show ?thesis unfolding Some by (simp add: limit_tokens_def lc parses_optional)
qed

lemma order_item_reads:
  assumes "expr_ok R d (ob_expr ob) ts" "d \<le> n"
  shows "parses R look d (parse_order_by_item R (parse_expr R n)) (ts @ (case ob_direction ob of Asc \<Rightarrow> [TAsc] | Desc \<Rightarrow> [TDesc])) ob"
proof (cases ob)
  case (OrderByExpr e dir)
  have "parses R look d (if_eat R TAsc (ret Asc) (if_eat R TDesc (ret Desc) (ret Asc))) (case dir of Asc \<Rightarrow> [TAsc] | Desc \<Rightarrow> [TDesc]) dir"
  proof (cases dir)
    case Asc
    then show ?thesis using parses_if_eat [OF parses_ret, of TAsc R look d Asc] by simp
  next
    case Desc
    have "parses R look d (if_eat R TAsc (ret Asc) (if_eat R TDesc (ret Desc) (ret Asc))) [TDesc] Desc"
      by (rule parses_if_not, rule parses_if_eat [OF parses_ret]) simp_all
    then show ?thesis using Desc by simp
  qed
  from parses_map [OF this, of "OrderByExpr e"]
  show ?thesis
    unfolding parse_order_by_item_def OrderByExpr order_by_expr.sel
    by (rule parses_then [OF parses_expr [OF _ assms(2)], rotated])
       (use assms(1) OrderByExpr in \<open>simp_all add: stops split: sort_direction.split\<close>)
qed

lemma union_reads:
  assumes "parses R (\<lambda>t. t \<in> core_end) d (parse_select_core R pe ps) ts c" "ts \<noteq> []" "hd ts = TSelect"
  shows "parses R (\<lambda>t. t \<in> core_end) d (parse_union R pe ps) ((if a then [TAll] else []) @ ts) (Union_arm a c)"
proof -
  have "parses R (\<lambda>t. t = TSelect) d (if_eat R TAll (ret True) (then_p (eat R TDistinct) (\<lambda>_. ret False))) (if a then [TAll] else []) a"
  proof (cases a)
    case False
    have "parses R (\<lambda>t. t = TSelect) d (eat R TDistinct) [] False"
      using parses_eat [of "\<lambda>t. t = TSelect" TDistinct R d False] by simp
    from parses_map [OF this, of "\<lambda>_. False"] show ?thesis
      unfolding if_not_P [OF False] using False by (intro parses_if_not) auto
  qed (auto intro!: parses_if_eat parses_ret)
  then show ?thesis
    unfolding parse_union_def
    by (rule parses_then, intro parses_map assms(1)) (use assms(2,3) in \<open>cases ts; simp\<close>)
qed

definition stmt_end :: "token set" where
  "stmt_end = {TRParen, TEof}"

text \<open>A statement from the tokens of its parts; its TOP is kept because there is a LIMIT.\<close>

lemma inner_reads:
  assumes n: "d \<le> n" and body: "parses R (\<lambda>t. t \<in> core_end) d (parse_select_core R (parse_expr R n) (parse_select_statement R n)) bts body"
    and un: "list_all2 (parses R (\<lambda>t. t \<in> core_end) d (parse_union R (parse_expr R n) (parse_select_statement R n))) utss unions"
    and obs: "list_all2 (\<lambda>ob ts. \<exists>ets. expr_ok R d (ob_expr ob) ets \<and> ts = ets @ (case ob_direction ob of Asc \<Rightarrow> [TAsc] | Desc \<Rightarrow> [TDesc])) obs otss"
    and limit: "pred_option (\<lambda>l. fits_usize (lm_offset l) \<and> fits_usize (lm_count l)) limit" "limit = None \<longrightarrow> co_top body = None"
  shows "parses R (\<lambda>t. t \<in> stmt_end) d (parse_select_statement_inner R (parse_expr R n) (parse_select_statement R n))
    (bts @ concat (map ((#) TUnion) utss) @ list_clause [TOrder, TBy] otss @ limit_tokens limit) (SelectStatement body unions obs limit)"
proof -
  let ?pe = "parse_expr R n" and ?ps = "parse_select_statement R n" and ?stmt = "SelectStatement body unions obs limit"
  let ?k4 = "\<lambda>body unions order_by. then_p (optional R TLimit (parse_limit R)) (\<lambda>limit.
       let (body', limit') = lift_top body limit in ret (SelectStatement body' unions order_by limit'))"
  let ?k3 = "\<lambda>body unions. then_p (if_eat R TOrder (then_p (expect R TBy) (\<lambda>_. parse_order_by R ?pe)) (ret [])) (?k4 body unions)"
  let ?k2 = "\<lambda>body. then_p (many R TUnion (parse_union R ?pe ?ps)) (?k3 body)"
  have lift: "lift_top body limit = (body, limit)"
    using limit(2) by (cases limit) (simp_all add: lift_top_def)
  have "parses R (\<lambda>t. t \<in> stmt_end) d (?k4 body unions obs) (limit_tokens limit @ []) ?stmt"
    by (rule parses_clause [OF limit_reads [OF limit(1), folded stmt_end_def]]) (simp_all add: lift parses_ret)
  then have k4: "parses R (\<lambda>t. t \<in> stmt_end) d (?k4 body unions obs) (limit_tokens limit) ?stmt" by simp
  have "list_all2 (parses R look d (parse_order_by_item R ?pe)) otss obs" for look
  proof -
    have "parses R look d (parse_order_by_item R ?pe) ts ob"
      if "\<exists>ets. expr_ok R d (ob_expr ob) ets \<and> ts = ets @ (case ob_direction ob of Asc \<Rightarrow> [TAsc] | Desc \<Rightarrow> [TDesc])" for ob ts
      using that order_item_reads [OF _ n] by blast
    then have "list_all2 (\<lambda>ob ts. parses R look d (parse_order_by_item R ?pe) ts ob) obs otss"
      by (rule list_all2_mono [OF obs])
    then show ?thesis by (simp add: list_all2_conv_all_nth)
  qed
  then have "parses R (\<lambda>t. t \<in> insert TLimit stmt_end) d (if_eat R TOrder (then_p (expect R TBy) (\<lambda>_. parse_order_by R ?pe)) (ret [])) (list_clause [TOrder, TBy] otss) obs"
    unfolding parse_order_by_def by (rule parses_list_clause) (auto simp: stmt_end_def)
  from parses_clause [OF this, where k = "?k4 body unions", OF k4]
  have k3: "parses R (\<lambda>t. t \<in> stmt_end) d (?k3 body unions) (list_clause [TOrder, TBy] otss @ limit_tokens limit) ?stmt"
    by (auto simp: limit_tokens_def stmt_end_def split: option.split limit_clause.split)
  have "parses R (\<lambda>t. t \<in> core_end - {TUnion}) d (many R TUnion (parse_union R ?pe ?ps)) (concat (map ((#) TUnion) utss)) unions"
  proof (rule parses_many)
    have "(\<lambda>t. t \<in> core_end - {TUnion} \<or> t = TUnion) = (\<lambda>t. t \<in> core_end)" by (auto simp: core_end_def)
    then show "list_all2 (parses R (\<lambda>t. t \<in> core_end - {TUnion} \<or> t = TUnion) d (parse_union R ?pe ?ps)) utss unions"
      using un by simp
  qed auto
  then have k2: "parses R (\<lambda>t. t \<in> stmt_end) d (?k2 body) (concat (map ((#) TUnion) utss) @ list_clause [TOrder, TBy] otss @ limit_tokens limit) ?stmt"
    by (rule parses_clause, intro k3) (auto simp: stmt_end_def core_end_def limit_tokens_def split: option.split limit_clause.split)
  show ?thesis
    unfolding parse_select_statement_inner_def
    by (rule parses_clause [OF body], rule k2)
       (cases utss; auto simp: stmt_end_def core_end_def limit_tokens_def split: option.split limit_clause.split)+
qed

lemma core_tokens_first: "core_tokens c \<noteq> []" "hd (core_tokens c) = TSelect" "TSelect = hd (core_tokens c @ us)"
  by (simp_all add: core_tokens_def)

lemma writable_map [simp]: "writable R (map_expr h e) = writable R e"
proof (induction e)
  case (Function name args d)
  then show ?case by (auto simp: list_all_iff)
next
  case (Case operand whens els)
  then show ?case by (cases operand; cases els) (fastforce simp: list_all_iff)+
next
  case (InList e b es)
  then show ?case by (auto simp: list_all_iff)
next
  case (Like e b p esc c)
  then show ?case by (cases esc) auto
qed auto

lemma core_writable_map [simp]: "core_writable R (map_select_core h c) = core_writable R c"
proof -
  have "list_all (writable R) (core_exprs (map_select_core h c)) = list_all (writable R) (core_exprs c)"
    by (simp add: core_exprs_map list_all_iff)
  moreover have "list_all (\<lambda>j. jn_type j = Cross \<longleftrightarrow> jn_on j = None) (co_joins (map_select_core h c)) =
      list_all (\<lambda>j. jn_type j = Cross \<longleftrightarrow> jn_on j = None) (co_joins c)"
    by (simp add: select_core.map_sel list_all_iff join_clause.map_sel)
  ultimately show ?thesis by (cases c) (simp add: core_writable_def)
qed

lemma stmt_writable_iff:
  "stmt_writable R (SelectStatement body unions obs limit) \<longleftrightarrow>
     core_writable R body \<and> (\<forall>q \<in> set_select_core body. stmt_writable R q) \<and>
     (\<forall>u \<in> set unions. core_writable R (un_select u) \<and> (\<forall>q \<in> set_union_arm u. stmt_writable R q)) \<and>
     (\<forall>ob \<in> set obs. writable R (ob_expr ob) \<and> (\<forall>q \<in> set_order_by_expr ob. stmt_writable R q)) \<and>
     pred_option (\<lambda>l. fits_usize (lm_offset l) \<and> fits_usize (lm_count l)) limit \<and> (limit = None \<longrightarrow> co_top body = None)"
  by (simp add: list_all_iff union_arm.map_sel order_by_expr.map_sel union_arm.set_map order_by_expr.set_map select_core.set_map)

lemma statement_reads: "stmt_writable R s \<Longrightarrow> reads_select R s (stmt_tokens s) (stmt_nest s)"
proof (induction s)
  case (SelectStatement body unions obs limit)
  let ?cores = "body # map un_select unions" and ?T = "\<lambda>c. core_tokens (map_select_core stmt_tokens c)"
  let ?parts = "core_nest (map_select_core stmt_nest body) # map (\<lambda>u. core_nest (map_select_core stmt_nest (un_select u))) unions @
       map (\<lambda>ob. Suc (expr_nest (map_expr stmt_nest (ob_expr ob)))) obs"
  define d where "d = foldr max ?parts 0"
  have part: "k \<in> set ?parts \<Longrightarrow> k \<le> d" for k
    unfolding d_def by (rule foldr_max_le)
  note w = SelectStatement.prems [unfolded stmt_writable_iff]
  have core: "parses R (\<lambda>t. t \<in> core_end) d (parse_select_core R (parse_expr R n) (parse_select_statement R n)) (?T c) c"
    if c: "c \<in> set ?cores" and n: "d \<le> n" for c n
  proof (rule core_reads [OF _ _ part n])
    show "core_writable R c" using c w by auto
    show "\<forall>q \<in> set_select_core c. reads_select R q (stmt_tokens q) (stmt_nest q)"
      using c w SelectStatement.IH(1,2) by (auto simp: set_union_arm_core)
    show "core_nest (map_select_core stmt_nest c) \<in> set ?parts" using c by auto
  qed
  have order: "expr_ok R d (ob_expr ob) (expr_tokens (map_expr stmt_tokens (ob_expr ob)))" if "ob \<in> set obs" for ob
  proof -
    have "reads_expr R (ob_expr ob) (expr_tokens (map_expr stmt_tokens (ob_expr ob))) (expr_nest (map_expr stmt_nest (ob_expr ob)))"
      by (rule expr_reads) (use that w SelectStatement.IH(3) in \<open>auto simp: set_order_by_expr_expr\<close>)
    moreover have "Suc (expr_nest (map_expr stmt_nest (ob_expr ob))) \<le> d" by (rule part) (use that in auto)
    ultimately show ?thesis by (intro exI [of _ "expr_nest (map_expr stmt_nest (ob_expr ob))"]) simp
  qed
  have inner: "parses R (\<lambda>t. t \<in> stmt_end) d (parse_select_statement_inner R (parse_expr R n) (parse_select_statement R n))
      (?T body @ concat (map ((#) TUnion) (map (\<lambda>u. (if un_all u then [TAll] else []) @ ?T (un_select u)) unions)) @
       list_clause [TOrder, TBy] (map (\<lambda>ob. expr_tokens (map_expr stmt_tokens (ob_expr ob)) @ (case ob_direction ob of Asc \<Rightarrow> [TAsc] | Desc \<Rightarrow> [TDesc])) obs) @
       limit_tokens limit) (SelectStatement body unions obs limit)" if n: "d \<le> n" for n
  proof (rule inner_reads [OF n core [OF _ n]])
    have "parses R (\<lambda>t. t \<in> core_end) d (parse_union R (parse_expr R n) (parse_select_statement R n)) ((if un_all u then [TAll] else []) @ ?T (un_select u)) u"
      if "u \<in> set unions" for u
      using union_reads [OF core [of "un_select u", OF _ n] core_tokens_first(1,2), of "un_all u"] that by simp
    then show "list_all2 (parses R (\<lambda>t. t \<in> core_end) d (parse_union R (parse_expr R n) (parse_select_statement R n)))
        (map (\<lambda>u. (if un_all u then [TAll] else []) @ ?T (un_select u)) unions) unions"
      by (simp add: list_all2_map1 list_all2_same)
  qed (use w order in \<open>auto simp: list_all2_map2 list_all2_same\<close>)
  have level: "parse_select_statement R (Suc n) = nested (parse_select_statement_inner R (parse_expr R n) (parse_select_statement R n))" for n
    by (rule ext) simp
  have look: "(\<lambda>t. t = TRParen \<or> t = TEof) = (\<lambda>t. t \<in> stmt_end)"
    by (auto simp: stmt_end_def)
  have "parses R (\<lambda>t. t \<in> stmt_end) (Suc d) (parse_select_statement R n) (stmt_tokens (SelectStatement body unions obs limit))
      (SelectStatement body unions obs limit)" if n: "Suc d \<le> n" for n
  proof -
    obtain m where m: "n = Suc m" "d \<le> m" using n by (cases n) auto
    from parses_nested [OF inner [OF m(2)]] show ?thesis
      by (simp add: m(1) level comp_def union_tokens_def order_tokens_def union_arm.map_sel order_by_expr.map_sel)
  qed
  moreover have "stmt_nest (SelectStatement body unions obs limit) = Suc d"
    by (simp add: d_def comp_def union_arm.map_sel order_by_expr.map_sel)
  ultimately show ?case
    unfolding reads_select_def look by (simp add: core_tokens_def)
qed

end
