(* ===== verification/Source_Text.thy ===== *)
theory Source_Text
  imports Round_Trip
begin

text \<open>
  Tokens written as SQL text, every token followed by a space, and the proof that the lexer gives
  them back; with the reading of tokens this makes printing and parsing a statement a round trip.
\<close>

section \<open>The text of a token\<close>

definition symbol_text :: "symbol \<Rightarrow> ustr" where
  "symbol_text s =
     str (case s of
        SEq \<Rightarrow> ''='' | SNeq \<Rightarrow> ''<>'' | SNeq2 \<Rightarrow> ''!='' | SLt \<Rightarrow> ''<'' | SLte \<Rightarrow> ''<='' | SGt \<Rightarrow> ''>'' | SGte \<Rightarrow> ''>=''
      | SPlus \<Rightarrow> ''+'' | SMinus \<Rightarrow> ''-'' | SStar \<Rightarrow> ''*'' | SSlash \<Rightarrow> ''/'' | SMod \<Rightarrow> ''%'' | SConcat \<Rightarrow> ''||''
      | SAmp \<Rightarrow> ''&'' | SPipe \<Rightarrow> ''|'' | SCaret \<Rightarrow> ''^'' | SLParen \<Rightarrow> ''('' | SRParen \<Rightarrow> '')'' | SComma \<Rightarrow> '',''
      | SDot \<Rightarrow> ''.'' | SParam \<Rightarrow> ''?'')"

definition word_text :: "token \<Rightarrow> ustr" where
  "word_text t = (case List.find (\<lambda>(w, t'). t' = t) keyword_table of Some (w, _) \<Rightarrow> w | None \<Rightarrow> [])"

definition token_text :: "token \<Rightarrow> ustr" where
  "token_text t =
     (case t of
        TIdentifier s \<Rightarrow> [34] @ double_char 34 s @ [34]
      | TString s \<Rightarrow> [39] @ double_char 39 s @ [39]
      | TNumber s \<Rightarrow> s
      | TNamedParam s \<Rightarrow> ch CHR '':'' # s
      | Symbol s \<Rightarrow> symbol_text s
      | _ \<Rightarrow> word_text t)"

definition tokens_text :: "token list \<Rightarrow> ustr" where
  "tokens_text ts = concat (map (\<lambda>t. token_text t @ [32]) ts)"

definition lexable :: "runtime \<Rightarrow> token \<Rightarrow> bool" where
  "lexable R t =
     (case t of
        TNumber s \<Rightarrow> s \<noteq> [] \<and> list_all is_ascii_digit s
      | TNamedParam s \<Rightarrow> s \<noteq> [] \<and> list_all (\<lambda>c. rt_alphanumeric R c \<or> c = ch CHR ''_'') s
      | TEof \<Rightarrow> False | TError _ \<Rightarrow> False | _ \<Rightarrow> True)"

section \<open>Lexing one token\<close>

lemma next_token_blank: "rest lx = 32 # r \<Longrightarrow> next_token R lx = next_token R (skip_one lx)"
  unfolding next_token_def by (subst skip_trivia.simps) (simp add: peek_rest is_ascii_whitespace_def)

lemma next_token_first:
  assumes "rest lx = c # x # r" "\<not> is_ascii_whitespace c" "x \<noteq> ch CHR ''-''" "x \<noteq> ch CHR ''*''"
  shows "next_token R lx = scan_token R c (skip_one lx)"
proof -
  have "skip_trivia lx = lx"
    using assms by (subst skip_trivia.simps) (simp add: peek_rest peek_at_rest get_def)
  then show ?thesis using assms(1) by (simp add: next_token_def advance_eq peek_rest)
qed

lemma read_number_loop_digits:
  assumes "rest lx = w @ 32 # r" "list_all is_ascii_digit w"
  shows "fst (read_number_loop b s lx) = s @ w \<and> rest (snd (read_number_loop b s lx)) = 32 # r"
  using assms
proof (induction w arbitrary: s lx)
  case Nil
  then show ?case by (subst (1 2) read_number_loop.simps) (simp add: peek_rest is_ascii_digit_def)
next
  case (Cons c w)
  then have "read_number_loop b s lx = read_number_loop b (s @ [c]) (skip_one lx)"
    by (subst read_number_loop.simps) (simp add: peek_rest)
  then show ?case using Cons.IH [of "skip_one lx" "s @ [c]"] Cons.prems by simp
qed

definition lexes :: "runtime \<Rightarrow> token \<Rightarrow> bool" where
  "lexes R t \<longleftrightarrow> (\<forall>lx r. rest lx = token_text t @ 32 # r \<longrightarrow>
     fst (next_token R lx) = t \<and> rest (snd (next_token R lx)) = 32 # r)"

lemma lexes_symbol: "lexes R (Symbol s)"
proof -
  have "fst (next_token R lx) = Symbol s \<and> rest (snd (next_token R lx)) = 32 # r"
    if "rest lx = symbol_text s @ 32 # r" for lx r
    using that
    by (cases s)
       (simp_all add: symbol_text_def next_token_first is_ascii_whitespace_def scan_token_def peek_rest is_ascii_digit_def)
  then show ?thesis by (simp add: lexes_def token_text_def)
qed

lemma lexes_number:
  assumes "s \<noteq> []" "list_all is_ascii_digit s"
  shows "lexes R (TNumber s)"
proof -
  have "fst (next_token R lx) = TNumber s \<and> rest (snd (next_token R lx)) = 32 # r" if "rest lx = s @ 32 # r" for lx r
  proof -
    obtain c w where s: "s = c # w" "is_ascii_digit c" "list_all is_ascii_digit w" using assms by (cases s) auto
    obtain x y where x: "w @ 32 # r = x # y" "x \<noteq> ch CHR ''-''" "x \<noteq> ch CHR ''*''"
      using s(3) by (cases w) (auto simp: is_ascii_digit_def)
    have "next_token R lx = scan_token R c (skip_one lx)"
      by (rule next_token_first [of _ _ x y]) (use that s x in \<open>auto simp: is_ascii_digit_def is_ascii_whitespace_def\<close>)
    also have "\<dots> = read_number c (skip_one lx)"
      using s(2) by (auto simp: scan_token_def is_ascii_digit_def)
    finally show ?thesis
      using read_number_loop_digits [of "skip_one lx" w r "c = ch CHR ''.''" "[c]"] that s
      by (simp add: read_number_def case_prod_beta)
  qed
  then show ?thesis by (simp add: lexes_def token_text_def)
qed

lemma lexes_quoted: "lexes R (TString s)" "lexes R (TIdentifier s)"
  unfolding lexes_def token_text_def token.case
  using string_literal_roundtrip [of _ s "32 # _" R] quoted_identifier_roundtrip [of 34 34 _ s "32 # _" R] by auto

lemma lexes_named:
  assumes "unicode_laws R" "s \<noteq> []" "list_all (\<lambda>c. rt_alphanumeric R c \<or> c = ch CHR ''_'') s"
  shows "lexes R (TNamedParam s)"
proof -
  let ?p = "\<lambda>c. rt_alphanumeric R c \<or> c = ch CHR ''_''"
  have "fst (next_token R lx) = TNamedParam s \<and> rest (snd (next_token R lx)) = 32 # r" if lx: "rest lx = ch CHR '':'' # s @ 32 # r" for lx r
  proof -
    have "next_token R lx = scan_token R (ch CHR '':'') (skip_one lx)"
      by (rule next_token_scan [of _ _ "s @ 32 # r"]) (use lx in \<open>auto simp: is_ascii_whitespace_def\<close>)
    then have "next_token R lx = read_named_param R (skip_one lx)" by (simp add: scan_token_def)
    moreover have "\<not> ?p 32" using unicode_lawsD(6) [OF assms(1), of 32] by (simp add: is_ascii_letter_def is_ascii_digit_def is_ascii_char_def)
    then have "takeWhile ?p (s @ 32 # r) = s" "dropWhile ?p (s @ 32 # r) = 32 # r"
      using assms(3) by (simp_all add: takeWhile_append2 dropWhile_append2 list_all_iff)
    ultimately show ?thesis
      using read_while_spec [of ?p "[]" "skip_one lx"] lx assms(2) by (simp add: read_named_param_def case_prod_beta)
  qed
  then show ?thesis by (simp add: lexes_def token_text_def)
qed

text \<open>The words of the keyword table are upper-case letters and denote their tokens.\<close>

definition word_denotes :: "token \<Rightarrow> bool" where
  "word_denotes t \<longleftrightarrow>
     (case word_text t of [] \<Rightarrow> False | c # w \<Rightarrow> list_all (\<lambda>c. 65 \<le> c \<and> c \<le> 90) (c # w)) \<and>
     map_of keyword_table (word_text t) = Some t"

lemma keywords_denote: "word_denotes (Keyword k)"
  by (cases k) (simp_all add: word_denotes_def word_text_def keyword_table_def)

lemma join_words_denote: "word_denotes (JoinWord j)"
  by (cases j) (simp_all add: word_denotes_def word_text_def keyword_table_def)

lemma lexes_word:
  assumes "unicode_laws R" "word_denotes t" "token_text t = word_text t"
  shows "lexes R t"
proof -
  obtain c w where w: "word_text t = c # w" "\<forall>x \<in> set (c # w). 65 \<le> x \<and> x \<le> 90" "map_of keyword_table (c # w) = Some t"
    using assms(2) by (auto simp: word_denotes_def list_all_iff split: list.splits)
  have ascii: "is_ascii (c # w)" using w(2) by (auto simp: is_ascii_def is_ascii_char_def list_all_iff)
  have "map to_ascii_uppercase (c # w) = c # w"
    using w(2) by (intro map_idI) (auto simp: to_ascii_uppercase_def)
  then have up: "rt_upper R (c # w) = c # w" using unicode_lawsD(2) [OF assms(1) ascii] by simp
  have word: "\<forall>d \<in> set w. is_word_char R d"
    using w(2) unicode_lawsD(6) [OF assms(1)] by (auto simp: is_word_char_def is_ascii_letter_def is_ascii_char_def)
  have blank: "\<not> is_word_char R 32"
    using unicode_lawsD(6) [OF assms(1), of 32] by (simp add: is_word_char_def is_ascii_letter_def is_ascii_digit_def is_ascii_char_def)
  have "is_ascii_letter c" using w(2) by (simp add: is_ascii_letter_def)
  from word_token [OF assms(1) this _ word, of _ "32 # _"] show ?thesis
    unfolding lexes_def assms(3) w(1) using up w(3) blank by auto
qed

lemma lexable_lexes:
  assumes "unicode_laws R" "lexable R t"
  shows "lexes R t"
proof (cases t)
  case (Keyword k)
  then show ?thesis using lexes_word [OF assms(1) keywords_denote [of k]] by (simp add: token_text_def)
next
  case (JoinWord j)
  then show ?thesis using lexes_word [OF assms(1) join_words_denote [of j]] by (simp add: token_text_def)
qed (use assms lexes_symbol lexes_number lexes_quoted lexes_named in \<open>auto simp: lexable_def\<close>)

section \<open>Lexing a text\<close>

lemma next_text:
  assumes "unicode_laws R" "lexable R t" "rest lx = 32 # tokens_text (t # ts) \<or> rest lx = tokens_text (t # ts)"
  shows "fst (next_token R lx) = t \<and> rest (snd (next_token R lx)) = 32 # tokens_text ts"
proof -
  have split: "tokens_text (t # ts) = token_text t @ 32 # tokens_text ts" by (simp add: tokens_text_def)
  note lex = lexable_lexes [OF assms(1,2), unfolded lexes_def, rule_format]
  show ?thesis
    using assms(3)
  proof
    assume "rest lx = 32 # tokens_text (t # ts)"
    then show ?thesis using lex [of "skip_one lx"] next_token_blank [of lx _ R] by (simp add: split)
  next
    assume "rest lx = tokens_text (t # ts)"
    then show ?thesis using lex [of lx] by (simp add: split)
  qed
qed

lemma feeds_text:
  assumes "unicode_laws R" "list_all (lexable R) ts" "rest (ps_lexer st) = 32 # tokens_text ts \<or> rest (ps_lexer st) = tokens_text ts"
  shows "feeds R (p_advance R st) (ts @ [TEof])"
  using assms(2,3)
proof (induction ts arbitrary: st)
  case Nil
  have "fst (next_token R (ps_lexer st)) = TEof"
    using Nil next_token_at_end [of "ps_lexer st" R] next_token_at_end [of "skip_one (ps_lexer st)" R] next_token_blank [of "ps_lexer st" "[]" R]
    by (auto simp: tokens_text_def)
  then show ?case by (simp add: p_advance_def case_prod_beta)
next
  case (Cons t ts)
  then have "fst (next_token R (ps_lexer st)) = t" "rest (snd (next_token R (ps_lexer st))) = 32 # tokens_text ts"
    using next_text [OF assms(1), of t "ps_lexer st" ts] by simp_all
  then show ?case using Cons.IH [of "p_advance R st"] Cons.prems(1) by (simp add: p_advance_def case_prod_beta)
qed

lemma feeds_parser_new:
  assumes "unicode_laws R" "list_all (lexable R) ts"
  shows "feeds R (parser_new R (tokens_text ts)) (ts @ [TEof])"
proof -
  let ?st = "\<lparr> ps_lexer = lexer_new (tokens_text ts), ps_current = TEof, ps_param_index = 0, ps_depth = 0 \<rparr>"
  have "parser_new R (tokens_text ts) = p_advance R ?st"
    by (simp add: parser_new_def p_advance_def case_prod_beta)
  moreover have "rest (ps_lexer ?st) = tokens_text ts" by (simp add: lexer_new_def rest_def)
  ultimately show ?thesis using feeds_text [OF assms, of ?st] by simp
qed

section \<open>The tokens of a statement\<close>

lemma set_commas: "set (commas tss) \<subseteq> insert TComma (\<Union>ts \<in> set tss. set ts)" if "tss \<noteq> []"
  using that by (cases tss) (auto simp: commas_def)

lemma lexable_commas: "\<forall>ts \<in> set tss. list_all (lexable R) ts \<Longrightarrow> tss \<noteq> [] \<Longrightarrow> list_all (lexable R) (commas tss)"
  using set_commas [of tss] by (auto simp: list_all_iff lexable_def)

lemma lexable_simps [simp]:
  "lexable R (Keyword k)" "lexable R (JoinWord j)" "lexable R (Symbol s)" "lexable R (TIdentifier x)" "lexable R (TString x)"
  "lexable R (TNumber (show_nat n))"
  using show_nat_digits [of n] by (simp_all add: lexable_def)

lemma lexable_wrap [simp]: "list_all (lexable R) ts \<Longrightarrow> list_all (lexable R) (wrap e ts)"
  by (simp add: wrap_def)

lemma lexable_opt: "(\<And>ts. o1 = Some ts \<Longrightarrow> list_all (lexable R) (f ts)) \<Longrightarrow> list_all (lexable R) (opt_tokens f o1)"
  by (simp add: opt_tokens_def split: option.split)

lemma lexable_op [simp]: "lexable R (op_token op)" "lexable R (unary_token u)" "list_all (lexable R) (negation b)"
proof -
  show "lexable R (op_token op)" by (cases op) simp_all
  show "lexable R (unary_token u)" by (cases u) simp_all
qed (simp add: negation_def)

lemma lexable_concat: "(\<And>x. x \<in> set xs \<Longrightarrow> list_all (lexable R) (f x)) \<Longrightarrow> list_all (lexable R) (concat (map f xs))"
  by (induction xs) auto

lemma lexable_expr:
  assumes "writable R e" "\<forall>q \<in> set_expr e. list_all (lexable R) (f q)"
  shows "list_all (lexable R) (expr_tokens (map_expr f e))"
  using assms
proof (induction e)
  case (Star t)
  show ?case by (cases t) simp_all
next
  case (Column t n)
  show ?case by (cases t) simp_all
next
  case (Literal v)
  then show ?case
    by (cases v) (auto simp: literal_tokens_def show_i64_def show_int_def)
next
  case (Function name args d)
  then have "\<forall>ts \<in> set (map (\<lambda>x. expr_tokens (map_expr f x)) args). list_all (lexable R) ts" by (simp add: list_all_iff)
  from lexable_commas [OF this] show ?case by (simp add: comp_def Let_def)
next
  case (Case operand whens els)
  have operand: "list_all (lexable R) (opt_tokens id (map_option (\<lambda>x. expr_tokens (map_expr f x)) operand))"
    by (rule lexable_opt) (use Case in \<open>cases operand; simp\<close>)
  have els: "list_all (lexable R) (opt_tokens ((#) TElse) (map_option (\<lambda>x. expr_tokens (map_expr f x)) els))"
    by (rule lexable_opt) (use Case in \<open>cases els; simp\<close>)
  have "list_all (lexable R) (expr_tokens (map_expr f w)) \<and> list_all (lexable R) (expr_tokens (map_expr f t))" if wt: "(w, t) \<in> set whens" for w t
  proof -
    have "writable R w \<and> writable R t" using Case.prems(1) wt by (auto simp: list_all_iff)
    moreover have "\<forall>q \<in> set_expr w \<union> set_expr t. list_all (lexable R) (f q)" using Case.prems(2) wt by fastforce
    ultimately show ?thesis using Case.IH(2,3) wt by fastforce
  qed
  then have "list_all (lexable R) (concat (map (\<lambda>x. TWhen # expr_tokens (map_expr f (fst x)) @ TThen # expr_tokens (map_expr f (snd x))) whens))"
    by (intro lexable_concat) auto
  then show ?case using operand els by (simp add: option.map_comp comp_def map_prod_def split_def)
next
  case (InList e b es)
  have "list_all (lexable R) (expr_tokens (map_expr f x))" if "x \<in> set es" for x
    by (rule InList.IH(2) [OF that]) (use InList.prems that in \<open>auto simp: list_all_iff\<close>)
  then have "\<forall>ts \<in> set (map (\<lambda>x. expr_tokens (map_expr f x)) es). list_all (lexable R) ts" by simp
  from lexable_commas [OF this] show ?case using InList.IH(1) InList.prems by (simp add: comp_def)
next
  case (Like e b p esc c)
  then show ?case by (cases esc) (simp_all add: opt_tokens_def)
next
  case (Param p)
  then show ?case by (cases p) (simp_all add: lexable_def)
qed simp_all

lemma lexable_core:
  assumes "core_writable R c" "\<forall>q \<in> set_select_core c. list_all (lexable R) (f q)"
  shows "list_all (lexable R) (core_tokens (map_select_core f c))"
proof -
  have e: "list_all (lexable R) (expr_tokens (map_expr f e))" if "e \<in> set (core_exprs c)" for e
    by (rule lexable_expr) (use assms that core_exprs_selects [OF that] in \<open>auto simp: core_writable_def list_all_iff\<close>)
  have names: "list_all (lexable R) (alias_tokens a)" for a
    by (simp add: alias_tokens_def split: option.split)
  have t: "list_all (lexable R) (table_tokens (map_table_ref f t))" if "t \<in> set (core_tables c)" for t
    using assms(2) core_tables_selects [OF that] names by (cases t) (auto simp: table_tokens_def)
  have "list_all (lexable R) (join_tokens (map_join_clause f j))" if j: "j \<in> set (co_joins c)" for j
  proof -
    have "jn_table j \<in> set (core_tables c)" "\<And>x. jn_on j = Some x \<Longrightarrow> x \<in> set (core_exprs c)"
      using j by (auto simp: core_tables_def core_exprs_def intro!: bexI [of _ j])
    from t [OF this(1)] e [OF this(2)] show ?thesis
      by (auto simp: join_tokens_def join_words_def join_clause.map_sel split: join_type.split intro!: lexable_opt)
  qed
  then have js: "list_all (lexable R) (concat (map (\<lambda>j. join_tokens (map_join_clause f j)) (co_joins c)))"
    by (rule lexable_concat)
  have cols: "list_all (lexable R) (commas (map (\<lambda>sc. expr_tokens (map_expr f (sc_expr sc)) @ alias_tokens (sc_alias sc)) (co_columns c)))"
    by (rule lexable_commas) (use e names assms(1) in \<open>auto simp: core_exprs_def core_writable_def\<close>)
  have gs: "list_all (lexable R) (list_clause [TGroup, TBy] (map (\<lambda>x. expr_tokens (map_expr f x)) (co_group_by c)))"
    using e lexable_commas [of "map (\<lambda>x. expr_tokens (map_expr f x)) (co_group_by c)" R] by (simp add: list_clause_def core_exprs_def)
  have opt: "list_all (lexable R) (opt_tokens ((#) (Keyword k)) (map_option (\<lambda>x. expr_tokens (map_expr f x)) o1))"
    if "o1 = co_where c \<or> o1 = co_having c" for k o1
    by (rule lexable_opt) (use that e in \<open>auto simp: core_exprs_def\<close>)
  have fr: "list_all (lexable R) (case co_from c of None \<Rightarrow> [] | Some t \<Rightarrow> TFrom # table_tokens (map_table_ref f t) @ concat (map (\<lambda>j. join_tokens (map_join_clause f j)) (co_joins c)))"
    using t js by (simp add: core_tables_def split: option.split)
  show ?thesis
    using cols gs opt fr
    by (cases c) (auto simp: core_tokens_def select_column.map_sel comp_def option.map_comp case_map_option split: option.split cong: option.case_cong)
qed

lemma lexable_stmt: "stmt_writable R s \<Longrightarrow> list_all (lexable R) (stmt_tokens s)"
proof (induction s)
  case (SelectStatement body unions obs limit)
  note w = SelectStatement.prems [unfolded stmt_writable_iff]
  have core: "list_all (lexable R) (core_tokens (map_select_core stmt_tokens c))" if "c \<in> set (body # map un_select unions)" for c
    by (rule lexable_core) (use that w SelectStatement.IH(1,2) in \<open>auto simp: set_union_arm_core\<close>)
  have order: "list_all (lexable R) (order_tokens (map_order_by_expr stmt_tokens ob))" if "ob \<in> set obs" for ob
    using lexable_expr [of R "ob_expr ob" stmt_tokens] w that SelectStatement.IH(3) [OF that]
    by (simp add: order_tokens_def order_by_expr.map_sel set_order_by_expr_expr split: sort_direction.split)
  have "list_all (lexable R) (concat (map (\<lambda>u. TUnion # union_tokens (map_union_arm stmt_tokens u)) unions))"
    by (rule lexable_concat) (use core in \<open>simp add: union_tokens_def union_arm.map_sel\<close>)
  moreover have "list_all (lexable R) (list_clause [TOrder, TBy] (map (\<lambda>ob. order_tokens (map_order_by_expr stmt_tokens ob)) obs))"
    using order lexable_commas [of "map (\<lambda>ob. order_tokens (map_order_by_expr stmt_tokens ob)) obs" R] by (simp add: list_clause_def)
  moreover have "list_all (lexable R) (limit_tokens limit)"
    by (simp add: limit_tokens_def split: option.split limit_clause.split)
  ultimately show ?case using core by (simp add: comp_def)
qed

section \<open>Properties\<close>

text \<open>An inner query used as a derived table and in a condition of an outer one.\<close>

definition inner_example :: select_statement where
  "inner_example =
     SelectStatement (SelectCore True None [SelectColumn (Column None (str ''id'')) None] (Some (Named (str ''users'') (Some (str ''u'')))) []
       (Some (Like (Column (Some (str ''u'')) (str ''name'')) True (Literal (VString (str ''a%''))) None None)) [] None) [] []
       (Some (LimitClause 2 10))"

definition outer_example :: select_statement where
  "outer_example =
     SelectStatement (SelectCore False None
       [SelectColumn (Function (str ''count'') [Star None] False) (Some (str ''n'')), SelectColumn (Unary Neg (Column None (str ''x''))) None]
       (Some (Named (str ''t'') None)) [JoinClause Left (Derived inner_example (str ''d'')) (Some (Binary (Column None (str ''x'')) Eq (Literal (VInt 3))))]
       (Some (Binary (InSubquery (Column None (str ''x'')) False inner_example) And (IsNull (Param (Named_param (str ''p''))) True)))
       [Column None (str ''x'')] None)
       [Union_arm True (SelectCore False None [SelectColumn (Literal VNull) None] None [] None [] None)]
       [OrderByExpr (Column None (str ''n'')) Desc] None"

text \<open>C1: Parsing inverts printing. A statement is read back from its printed text, with all its
  clauses, joins, set operations, sub-selects and operators, as long as the text does not nest
  deeper than the parser allows. The literals are NULL, the truth values, strings and non-negative
  integers; parameters are named ones.\<close>

theorem parse_print_roundtrip:
  assumes "unicode_laws R" "stmt_writable R s" "stmt_nest s \<le> max_nesting_depth"
  shows "parse R (tokens_text (stmt_tokens s)) = Inr s"
proof -
  let ?st = "parser_new R (tokens_text (stmt_tokens s))"
  have feeds: "feeds R ?st (stmt_tokens s @ TEof # [])"
    using feeds_parser_new [OF assms(1) lexable_stmt [OF assms(2)]] by simp
  have depth: "ps_depth ?st = 0" by (simp add: parser_new_def case_prod_beta)
  note reads = statement_reads [OF assms(2), unfolded reads_select_def]
  then have "parses R (\<lambda>t. t = TRParen \<or> t = TEof) (stmt_nest s) (parse_select_statement R (Suc max_nesting_depth)) (stmt_tokens s) s"
    using assms(3) by simp
  then obtain st' where st': "parse_select_statement R (Suc max_nesting_depth) ?st = Inr (s, st')" "feeds R st' [TEof]"
    using feeds assms(3) depth by (rule_tac parsesE [of R "\<lambda>t. t = TRParen \<or> t = TEof" "stmt_nest s" _ "stmt_tokens s" s ?st TEof "[]"]) auto
  have "ps_current ?st = TSelect" using feeds reads by (cases "stmt_tokens s") auto
  then show ?thesis using st' by (simp add: parse_def parse_statement_def)
qed

theorem parse_print_roundtrip_witness:
  "parse ascii_runtime (tokens_text (stmt_tokens outer_example)) = Inr outer_example"
  by (rule parse_print_roundtrip)
     (simp_all add: outer_example_def inner_example_def core_writable_def core_exprs_def core_tables_def core_nest_def table_nest_def
       fits_usize_def usize_max_def max_nesting_depth_def is_ascii_letter_def)

end
