(* ===== verification/Nesting.thy ===== *)
theory Nesting
  imports Source_Text
begin

text \<open>
  What the nesting limit of the parser (\<open>MAX_NESTING_DEPTH\<close> in \<open>cfml-qoq/src/parser.rs\<close>) bounds
  and what it does not: parentheses are counted, signs in front of an operand are not.
\<close>

section \<open>One expression selected\<close>

definition select_expr :: "pexpr \<Rightarrow> select_statement" where
  "select_expr e = SelectStatement (SelectCore False None [SelectColumn e None] None [] None [] None) [] [] None"

lemma parse_select_expr:
  assumes "unicode_laws R" "reads_expr R e ts d" "list_all (lexable R) ts" "d + 2 \<le> max_nesting_depth"
  shows "parse R (tokens_text (TSelect # ts)) = Inr (select_expr e)"
proof -
  let ?st = "parser_new R (tokens_text (TSelect # ts))" and ?d = "Suc d" and ?n = "max_nesting_depth"
  have n: "?d \<le> ?n" using assms(4) by simp
  have "parses R (\<lambda>t. t \<in> core_end) ?d (parse_select_core R (parse_expr R ?n) (parse_select_statement R ?n)) (TSelect # ts)
      (SelectCore False None [SelectColumn e None] None [] None [] None)"
    using parses_core [OF n, of None R "[SelectColumn e None]" "[ts]" None "[]" "[]" None None None None "[]" "[]" False] assms(2)
    by (auto simp: from_ok_def reads_option_def alias_tokens_def opt_tokens_def list_clause_def commas_def)
  from inner_reads [OF n this, of "[]" "[]" "[]" "[]" None]
  have "parses R (\<lambda>t. t \<in> stmt_end) ?d (parse_select_statement_inner R (parse_expr R ?n) (parse_select_statement R ?n)) (TSelect # ts) (select_expr e)"
    by (simp add: list_clause_def limit_tokens_def select_expr_def)
  from parses_nested [OF this]
  have p: "parses R (\<lambda>t. t \<in> stmt_end) (d + 2) (\<lambda>st. parse_select_statement R (Suc ?n) st) (TSelect # ts) (select_expr e)"
    by simp
  have feeds: "feeds R ?st ((TSelect # ts) @ TEof # [])"
    using feeds_parser_new [of R "TSelect # ts"] assms(1,3) by simp
  obtain st' where "parse_select_statement R (Suc ?n) ?st = Inr (select_expr e, st')" "feeds R st' [TEof]"
    by (rule parsesE [OF p feeds]) (use assms(4) in \<open>simp_all add: stmt_end_def parser_new_def case_prod_beta\<close>)
  then show ?thesis using feeds by (simp add: parse_def parse_statement_def)
qed

abbreviation one :: pexpr where
  "one \<equiv> Literal (VInt 1)"

lemma show_one: "show_i64 1 = str ''1''"
  by (simp add: show_i64_def show_int_def show_nat.simps)

lemma reads_one: "reads_expr R one [TNumber (str ''1'')] d"
  using reads_literal [of R "VInt 1" d] by (simp add: literal_tokens_def show_one)

lemma parser_depth: "ps_depth (parser_new R sql) = 0"
  by (simp add: parser_new_def case_prod_beta)

section \<open>Parentheses\<close>

definition parens :: "nat \<Rightarrow> token list" where
  "parens k = replicate k TLParen @ [TNumber (str ''1'')] @ replicate k TRParen"

lemma parens_Suc: "parens (Suc k) = TLParen # parens k @ [TRParen]"
  by (simp add: parens_def replicate_append_same)

lemma parens_first: "parens k = (case k of 0 \<Rightarrow> [TNumber (str ''1'')] | Suc j \<Rightarrow> TLParen # parens j @ [TRParen])"
  by (cases k) (simp_all add: parens_Suc, simp add: parens_def)

lemma reads_nested_parens: "reads_expr R one (parens k) k"
proof (induction k)
  case 0
  then show ?case using reads_one by (simp add: parens_def)
next
  case (Suc k)
  have first: "parens (Suc k) = TLParen # parens k @ [TRParen]" by (rule parens_Suc)
  show ?case
  proof (rule reads_atomic)
    fix n assume n: "Suc k \<le> n"
    show "parses R stop0 (Suc k) (primary_at R n) (parens (Suc k)) one"
    proof -
      have "parses R stop0 (Suc k) (parse_parens R (parse_expr R n) (parse_select_statement R n)) (parens k @ [TRParen]) one"
        by (rule parses_same [OF parses_parens [OF reads_full6 [OF Suc lessI n], of stop0 "\<lambda>e. e"]])
           (simp_all add: parse_parens_def stops parens_first [of k] split: nat.split)
      then show ?thesis unfolding first by (rule parses_after) (simp_all add: parse_primary_def)
    qed
  qed (simp_all add: first atomic_def)
qed

lemma lexable_parens: "list_all (lexable R) (parens k)"
  by (auto simp: parens_def list_all_iff) (simp add: lexable_def is_ascii_digit_def)

lemma or_error:
  assumes "ps_current st \<notin> {TNot, TMinus, TPlus}" "parse_primary R pe ps st = Inl e"
  shows "parse_or R pe ps st = Inl e"
  using assms
  by (simp add: parse_or_def parse_and_def parse_not_def parse_predicate_def parse_concat_def parse_additive_def parse_term_def
      parse_unary_def left_assoc_def then_p_def if_eat_def)

lemma too_deep:
  assumes "feeds R st (parens k @ rs)" "max_nesting_depth \<le> ps_depth st + k" "ps_depth st \<le> max_nesting_depth"
    and "max_nesting_depth < n + ps_depth st"
  shows "parse_expr R n st = Inl NestingTooDeep"
  using assms
proof (induction k arbitrary: st n rs)
  case 0
  then obtain m where "n = Suc m" by (cases n) auto
  then show ?case using 0 by (simp add: nested_def enter_depth_def)
next
  case (Suc k)
  then obtain m where m: "n = Suc m" by (cases n) auto
  show ?case
  proof (cases "ps_depth st = max_nesting_depth")
    case True
    then show ?thesis by (simp add: m nested_def enter_depth_def)
  next
    case False
    let ?st = "st\<lparr>ps_depth := Suc (ps_depth st)\<rparr>" and ?st' = "p_advance R (st\<lparr>ps_depth := Suc (ps_depth st)\<rparr>)"
    have cur: "ps_current ?st = TLParen" using Suc.prems(1) by (simp add: parens_Suc)
    have feeds: "feeds R ?st' (parens k @ TRParen # rs)" using Suc.prems(1) by (simp add: parens_Suc)
    then have sel: "ps_current ?st' \<noteq> TSelect" by (simp add: parens_first [of k] split: nat.splits)
    have "parse_expr R m ?st' = Inl NestingTooDeep"
      by (rule Suc.IH [OF feeds]) (use Suc.prems False m in auto)
    then have "parse_primary R (parse_expr R m) (parse_select_statement R m) ?st = Inl NestingTooDeep"
      using cur sel by (simp add: parse_primary_def parse_parens_def then_p_def)
    then have "parse_or R (parse_expr R m) (parse_select_statement R m) ?st = Inl NestingTooDeep"
      by (rule or_error [rotated]) (use cur in simp)
    then show ?thesis using False Suc.prems(3) by (simp add: m nested_def enter_depth_def)
  qed
qed

lemma limit_pos: "0 < max_nesting_depth"
  by (simp add: max_nesting_depth_def)

lemma select_too_deep:
  assumes "feeds R st (TSelect # parens k @ rs)" "ps_depth st = 0" "max_nesting_depth \<le> Suc k"
  shows "parse_select_statement R (Suc max_nesting_depth) st = Inl NestingTooDeep"
proof -
  let ?st = "p_advance R (st\<lparr>ps_depth := 1\<rparr>)" and ?n = max_nesting_depth
  have feeds: "feeds R ?st (parens k @ rs)" "ps_current st = TSelect" using assms(1) by simp_all
  have "parse_expr R ?n ?st = Inl NestingTooDeep"
    by (rule too_deep [OF feeds(1)]) (use assms(2,3) in \<open>simp_all add: max_nesting_depth_def\<close>)
  moreover have "ps_current ?st \<noteq> TDistinct" "ps_current ?st \<noteq> TTop"
    using feeds(1) by (simp_all add: parens_first [of k] split: nat.splits)
  ultimately have "parse_select_core R (parse_expr R ?n) (parse_select_statement R ?n) (st\<lparr>ps_depth := 1\<rparr>) = Inl NestingTooDeep"
    using feeds(2)
    by (simp add: parse_select_core_def then_p_def expect_def eat_def if_eat_def ret_def optional_def parse_select_columns_def comma_list_def parse_select_column_def)
  then show ?thesis
    using assms(2,3) by (simp add: nested_def enter_depth_def parse_select_statement_inner_def then_p_def limit_pos)
qed

section \<open>Signs\<close>

lemma unary_chain:
  assumes "feeds R st (replicate k TPlus @ TNumber (str ''1'') # rs)" "k < m"
  shows "\<exists>st'. unary_loop R (parse_primary R pe ps) m st = Inr ((Unary Plus ^^ k) one, st') \<and> feeds R st' rs \<and> ps_depth st' = ps_depth st"
  using assms
proof (induction k arbitrary: st m)
  case 0
  then obtain m' where "m = Suc m'" by (cases m) auto
  then show ?case using 0 number_literal_show [of 1] by (simp add: parse_primary_def show_one)
next
  case (Suc k)
  then obtain m' where m: "m = Suc m'" "k < m'" by (cases m) auto
  obtain st' where "unary_loop R (parse_primary R pe ps) m' (p_advance R st) = Inr ((Unary Plus ^^ k) one, st')" "feeds R st' rs" "ps_depth st' = ps_depth st"
    using Suc.IH [of "p_advance R st" m'] Suc.prems(1) m(2) by auto
  then show ?case using Suc.prems(1) by (simp add: m(1) then_p_def ret_def)
qed

lemma reads_signs: "reads_expr R ((Unary Plus ^^ Suc k) one) (replicate (Suc k) TPlus @ [TNumber (str ''1'')]) 1"
proof -
  let ?ts = "replicate (Suc k) TPlus @ [TNumber (str ''1'')]" and ?e = "(Unary Plus ^^ Suc k) one"
  have "parses R stop0 0 (parse_unary R pe ps) ?ts ?e" for pe ps
  proof (rule parsesI)
    fix st t rs assume feeds: "feeds R st (?ts @ t # rs)"
    have "length ?ts \<le> todo st" by (rule feeds_todo [OF feeds]) simp
    then show "\<exists>st'. parse_unary R pe ps st = Inr (?e, st') \<and> feeds R st' (t # rs) \<and> ps_depth st' = ps_depth st"
      unfolding parse_unary_def by (intro unary_chain) (use feeds in simp_all)
  qed simp
  from parses_predicate1 [OF concat_up [OF additive_up [OF term_up [OF this]]]]
  have "parses R stop6 0 (or_at R n) ?ts ?e" for n
    unfolding parse_not_def [abs_def] by (intro to_or) (simp add: parse_not_def parses_if_not)
  from reads_compound [OF _ _ this] show ?thesis by (simp add: atomic_def)
qed

section \<open>Properties\<close>

text \<open>C18: Parentheses nest up to the limit and no further: a number in \<open>k\<close> pairs of parentheses is
  read for every \<open>k\<close> that fits, together with the levels of the statement and of the expression, and
  the first level that does not fit is the error, not a deeper recursion. The limit of 512 levels is
  thus one of 510 pairs of parentheses: 511 are refused, although the documentation of the limits
  promises 512.\<close>

theorem parentheses_bounded:
  assumes "unicode_laws R"
  shows "parse R (tokens_text (TSelect # parens k)) =
    (if k + 2 \<le> max_nesting_depth then Inr (select_expr one) else Inl NestingTooDeep)"
proof (cases "k + 2 \<le> max_nesting_depth")
  case True
  then show ?thesis using parse_select_expr [OF assms reads_nested_parens lexable_parens] by simp
next
  case False
  have "feeds R (parser_new R (tokens_text (TSelect # parens k))) (TSelect # parens k @ [TEof])"
    using feeds_parser_new [OF assms, of "TSelect # parens k"] lexable_parens by simp
  then show ?thesis
    using select_too_deep [of R "parser_new R (tokens_text (TSelect # parens k))" k "[TEof]"] False
    by (simp add: parse_def parse_statement_def parser_depth del: parse_select_statement.simps)
qed

theorem parentheses_bounded_witness:
  "parse ascii_runtime (tokens_text (TSelect # parens 511)) = Inl NestingTooDeep"
  using parentheses_bounded [OF ascii_runtime_laws, of 511] by (simp add: max_nesting_depth_def)

text \<open>C39: Signs are not counted: a number behind any number of plus signs is parsed, with one level of
  the syntax tree for each, far beyond the nesting limit.\<close>

theorem signs_unbounded:
  assumes "unicode_laws R"
  shows "parse R (tokens_text (TSelect # replicate (Suc k) TPlus @ [TNumber (str ''1'')])) =
    Inr (select_expr ((Unary Plus ^^ Suc k) one))"
  by (rule parse_select_expr [OF assms reads_signs])
     (simp_all add: list_all_iff lexable_def is_ascii_digit_def max_nesting_depth_def)

theorem signs_unbounded_witness:
  "\<exists>e. parse ascii_runtime (tokens_text (TSelect # replicate (Suc 100000) TPlus @ [TNumber (str ''1'')])) = Inr (select_expr e)"
  using signs_unbounded [OF ascii_runtime_laws] by blast

end
