(* ===== verification/Cycle_Gc.thy ===== *)
theory Cycle_Gc
  imports Prelude
begin

text \<open>
  The trial-deletion pass of the cycle collector, \<open>cfml-common/src/cycle_gc.rs\<close>.

  Every container is an \<open>Arc\<close> at an address. The heap gives the content and the strong count
  of every address; a value is seen as the collector sees it, as the tree of the handles it
  holds. Functions, query columns and native objects are shared boxes without an address of
  their own in the collector, so they carry the address of their \<open>Arc\<close> here: two values with
  one address are one box. The maps of a pass are unordered; a node list is their key set.

  The pass counts the references between the surviving allocations, takes the survivors with
  more owners than that as roots, marks what they reach, and clears the rest.
\<close>

section \<open>Values and the heap\<close>

type_synonym ptr = nat

datatype gc_value =
    VStruct ptr
  | VArray ptr
  | VQuery ptr
  | VInstance ptr
  | VFunction ptr gc_function
  | VComponent "gc_value list" "gc_function list"
  | VClosure "gc_value list" gc_body
  | VQueryColumn ptr "gc_value list"
  | VNativeObject ptr "gc_value list"
  | VOther
and gc_function = GcFunction "ptr option" "gc_value option list" gc_body
and gc_body = BExpression gc_value | BStatements "gc_statement list"
and gc_statement = SExpression gc_value | SReturn "gc_value option" | SAssignment ustr gc_value

record struct_inner =
  struct_map :: "gc_value list"
  method_table :: "ptr option"
  struct_free :: bool

record gc_instance =
  class_ptr :: ptr
  this_members :: ptr
  variables_members :: ptr
  native_parent :: "gc_value option"
  instance_free :: bool

record blueprint =
  metadata :: gc_value
  method_values :: ptr
  static_scope :: "gc_value option"
  super_handle :: "gc_value option"
  super_map :: "gc_value option"
  source_names :: "gc_value option"
  properties :: "gc_value option"
  metadata_cache :: "gc_value option"

datatype gc_node =
    NStruct struct_inner
  | NArray "gc_value list"
  | NQuery "gc_value list list"
  | NScope bool "gc_value list"
  | NInstance gc_instance

record gc_heap =
  node_at :: "ptr \<Rightarrow> gc_node option"
  strong :: "ptr \<Rightarrow> nat"
  blueprint_at :: "ptr \<Rightarrow> blueprint"
  table_at :: "ptr \<Rightarrow> gc_value list"

datatype tracked_alloc =
    TStruct ptr | TArray ptr | TQuery ptr | TScope ptr | TInstance ptr

fun tracked_ptr :: "tracked_alloc \<Rightarrow> ptr" where
  "tracked_ptr (TStruct p) = p"
| "tracked_ptr (TArray p) = p"
| "tracked_ptr (TQuery p) = p"
| "tracked_ptr (TScope p) = p"
| "tracked_ptr (TInstance p) = p"

definition is_alive :: "gc_heap \<Rightarrow> tracked_alloc \<Rightarrow> bool" where
  "is_alive h t = (0 < strong h (tracked_ptr t))"

definition opt_list :: "'a option \<Rightarrow> 'a list" where
  "opt_list x = (case x of None \<Rightarrow> [] | Some y \<Rightarrow> [y])"

lemma opt_list_simps [simp]: "opt_list None = []" "opt_list (Some x) = [x]"
  by (simp_all add: opt_list_def)

definition emitted :: "'a list option \<Rightarrow> 'a list" where
  "emitted x = (case x of None \<Rightarrow> [] | Some ys \<Rightarrow> ys)"

lemma emitted_simps [simp]: "emitted None = []" "emitted (Some xs) = xs"
  by (simp_all add: emitted_def)

section \<open>The edges of a value and of a node\<close>

text \<open>
  \<open>classify_value\<close> lists the tracked children of a value in the order they are emitted: handles of
  the set are listed and not descended into, boxes are descended into.
\<close>

definition in_set_only :: "ptr set \<Rightarrow> ptr \<Rightarrow> ptr list" where
  "in_set_only S p = (if p \<in> S then [p] else [])"

primrec classify_value :: "ptr set \<Rightarrow> gc_value \<Rightarrow> ptr list"
  and classify_function :: "ptr set \<Rightarrow> gc_function \<Rightarrow> ptr list"
  and classify_body :: "ptr set \<Rightarrow> gc_body \<Rightarrow> ptr list"
  and classify_statement :: "ptr set \<Rightarrow> gc_statement \<Rightarrow> ptr list" where
  "classify_value S (VStruct p) = in_set_only S p"
| "classify_value S (VArray p) = in_set_only S p"
| "classify_value S (VQuery p) = in_set_only S p"
| "classify_value S (VFunction a f) = classify_function S f"
| "classify_value S (VComponent ps ms) =
     concat (map (classify_value S) ps) @ concat (map (classify_function S) ms)"
| "classify_value S (VClosure vs b) = concat (map (classify_value S) vs) @ classify_body S b"
| "classify_value S (VQueryColumn a vs) = concat (map (classify_value S) vs)"
| "classify_value S (VNativeObject a vs) = concat (map (classify_value S) vs)"
| "classify_value S (VInstance p) = in_set_only S p"
| "classify_value S VOther = []"
| "classify_function S (GcFunction sc ds b) =
     concat (map (in_set_only S) (opt_list sc))
     @ concat (map emitted (map (map_option (classify_value S)) ds))
     @ classify_body S b"
| "classify_body S (BExpression v) = classify_value S v"
| "classify_body S (BStatements sts) = concat (map (classify_statement S) sts)"
| "classify_statement S (SExpression v) = classify_value S v"
| "classify_statement S (SAssignment x v) = classify_value S v"
| "classify_statement S (SReturn r) = emitted (map_option (classify_value S) r)"

definition classify_all :: "ptr set \<Rightarrow> gc_value list \<Rightarrow> ptr list" where
  "classify_all S vs = concat (map (classify_value S) vs)"

text \<open>
  The data maps of an instance: an untracked map is walked from the instance, a tracked one is
  an edge of the instance and is walked as a node of its own.
\<close>

definition data_map :: "gc_heap \<Rightarrow> ptr \<Rightarrow> gc_value list" where
  "data_map h p = (case node_at h p of Some (NStruct s) \<Rightarrow> struct_map s | _ \<Rightarrow> [])"

definition data_table :: "gc_heap \<Rightarrow> ptr \<Rightarrow> ptr option" where
  "data_table h p = (case node_at h p of Some (NStruct s) \<Rightarrow> method_table s | _ \<Rightarrow> None)"

definition instance_maps :: "gc_instance \<Rightarrow> ptr list" where
  "instance_maps i = [this_members i, variables_members i]"

fun node_values :: "gc_heap \<Rightarrow> ptr set \<Rightarrow> gc_node \<Rightarrow> gc_value list" where
  "node_values h S (NStruct s) = struct_map s"
| "node_values h S (NArray vs) = vs"
| "node_values h S (NQuery cols) = concat cols"
| "node_values h S (NScope poisoned vs) = (if poisoned then [] else vs)"
| "node_values h S (NInstance i) =
     (if instance_free i then
        opt_list (native_parent i)
        @ concat (map (\<lambda>m. if m \<in> S then [VStruct m] else data_map h m) (instance_maps i))
      else [])"

definition values_of :: "gc_heap \<Rightarrow> ptr set \<Rightarrow> ptr \<Rightarrow> gc_value list" where
  "values_of h S p = (case node_at h p of None \<Rightarrow> [] | Some n \<Rightarrow> node_values h S n)"

definition child_nodes :: "gc_heap \<Rightarrow> ptr set \<Rightarrow> ptr \<Rightarrow> ptr list" where
  "child_nodes h S p = classify_all S (values_of h S p)"

definition blueprint_values :: "gc_heap \<Rightarrow> ptr \<Rightarrow> gc_value list" where
  "blueprint_values h p = (let b = blueprint_at h p in
     metadata b # table_at h (method_values b)
     @ concat (map opt_list [static_scope b, super_handle b, super_map b, source_names b, properties b])
     @ opt_list (metadata_cache b))"

definition node_blueprint :: "gc_heap \<Rightarrow> ptr \<Rightarrow> ptr list" where
  "node_blueprint h p = (case node_at h p of
     Some (NInstance i) \<Rightarrow> if instance_free i then [class_ptr i] else []
   | _ \<Rightarrow> [])"

definition node_tables :: "gc_heap \<Rightarrow> ptr \<Rightarrow> ptr list" where
  "node_tables h p = (case node_at h p of
     Some (NStruct s) \<Rightarrow> if struct_free s then opt_list (method_table s) else []
   | Some (NInstance i) \<Rightarrow>
       if instance_free i then concat (map (\<lambda>m. opt_list (data_table h m)) (instance_maps i)) else []
   | _ \<Rightarrow> [])"

section \<open>The pass\<close>

text \<open>
  Step 1: the survivors, one per distinct address, and the blueprints and method tables they
  hold, one per address.
\<close>

definition upgrades :: "gc_heap \<Rightarrow> tracked_alloc \<Rightarrow> bool" where
  "upgrades h t = (is_alive h t \<and> (case (t, node_at h (tracked_ptr t)) of
     (TStruct _, Some (NStruct _)) \<Rightarrow> True
   | (TArray _, Some (NArray _)) \<Rightarrow> True
   | (TQuery _, Some (NQuery _)) \<Rightarrow> True
   | (TScope _, Some (NScope _ _)) \<Rightarrow> True
   | (TInstance _, Some (NInstance _)) \<Rightarrow> True
   | _ \<Rightarrow> False))"

fun upgrade_log :: "gc_heap \<Rightarrow> ptr list \<Rightarrow> tracked_alloc list \<Rightarrow> ptr list" where
  "upgrade_log h ns [] = ns"
| "upgrade_log h ns (t # ts) =
     upgrade_log h (if upgrades h t \<and> tracked_ptr t \<notin> set ns then ns @ [tracked_ptr t] else ns) ts"

definition blueprints_of :: "gc_heap \<Rightarrow> ptr list \<Rightarrow> ptr list" where
  "blueprints_of h ns = remdups (concat (map (node_blueprint h) ns))"

definition method_tables_of :: "gc_heap \<Rightarrow> ptr list \<Rightarrow> ptr list" where
  "method_tables_of h ns = remdups (concat (map (node_tables h) ns))"

text \<open>Step 2: the references counted from inside, and the owners of a blueprint among them.\<close>

definition count_edge :: "ptr \<Rightarrow> (ptr \<Rightarrow> nat) \<Rightarrow> ptr \<Rightarrow> nat" where
  "count_edge c m = m(c := Suc (m c))"

definition internal_in :: "gc_heap \<Rightarrow> ptr list \<Rightarrow> ptr \<Rightarrow> nat" where
  "internal_in h ns = (let S = set ns in
     fold (\<lambda>t. fold count_edge (classify_all S (table_at h t))) (method_tables_of h ns)
      (fold (\<lambda>b. fold count_edge (classify_all S (blueprint_values h b)))
         (blueprints_of h ns)
        (fold (\<lambda>p. fold count_edge (child_nodes h S p)) ns (\<lambda>_. 0))))"

definition bp_internal :: "gc_heap \<Rightarrow> ptr list \<Rightarrow> ptr \<Rightarrow> nat" where
  "bp_internal h ns = fold (\<lambda>p. fold count_edge (node_blueprint h p)) ns (\<lambda>_. 0)"

text \<open>
  While the pass runs it holds one handle of its own to every survivor and every blueprint:
  the count read is one more than the count in the heap, and that one is subtracted again.
\<close>

definition external :: "gc_heap \<Rightarrow> (ptr \<Rightarrow> nat) \<Rightarrow> ptr \<Rightarrow> nat" where
  "external h inner p = Suc (strong h p) - 1 - inner p"

text \<open>Steps 3 and 4: the live set grows from the roots along the edges of live nodes.\<close>

record mark_state =
  live :: "ptr set"
  worklist :: "ptr list"
  live_bps :: "ptr set"
  live_tables :: "ptr set"

definition mark_child :: "ptr \<Rightarrow> mark_state \<Rightarrow> mark_state" where
  "mark_child c st = (if c \<in> live st then st
     else st\<lparr>live := insert c (live st), worklist := c # worklist st\<rparr>)"

definition mark_values :: "ptr set \<Rightarrow> gc_value list \<Rightarrow> mark_state \<Rightarrow> mark_state" where
  "mark_values S vs = fold (\<lambda>v. fold mark_child (classify_value S v)) vs"

definition mark_blueprint :: "gc_heap \<Rightarrow> ptr set \<Rightarrow> ptr \<Rightarrow> mark_state \<Rightarrow> mark_state" where
  "mark_blueprint h S b st = (if b \<in> live_bps st then st
     else mark_values S (blueprint_values h b)
            (st\<lparr>live_bps := insert b (live_bps st)\<rparr>))"

definition mark_table :: "gc_heap \<Rightarrow> ptr set \<Rightarrow> ptr \<Rightarrow> mark_state \<Rightarrow> mark_state" where
  "mark_table h S t st = (if t \<in> live_tables st then st
     else mark_values S (table_at h t) (st\<lparr>live_tables := insert t (live_tables st)\<rparr>))"

definition seed_roots :: "gc_heap \<Rightarrow> ptr list \<Rightarrow> mark_state \<Rightarrow> mark_state" where
  "seed_roots h ns = (let inner = internal_in h ns in
     fold (\<lambda>p st. if 0 < external h inner p then mark_child p st else st) ns)"

definition seed_blueprints :: "gc_heap \<Rightarrow> ptr list \<Rightarrow> mark_state \<Rightarrow> mark_state" where
  "seed_blueprints h ns = (let inner = bp_internal h ns in
     fold (\<lambda>b st. if 0 < external h inner b then mark_blueprint h (set ns) b st else st)
       (blueprints_of h ns))"

definition mark_node :: "gc_heap \<Rightarrow> ptr set \<Rightarrow> ptr \<Rightarrow> mark_state \<Rightarrow> mark_state" where
  "mark_node h S p st =
     fold (mark_table h S) (node_tables h p)
      (fold (mark_blueprint h S) (node_blueprint h p)
        (fold mark_child (child_nodes h S p) st))"

section \<open>Marking terminates\<close>

text \<open>
  \<open>marks S T st st'\<close>: the step made exactly the targets \<open>T\<close>, nodes of \<open>S\<close>, live, and queued
  those that were not live before. The unmarked nodes and the queue together never grow.
\<close>

definition marks :: "ptr set \<Rightarrow> ptr set \<Rightarrow> mark_state \<Rightarrow> mark_state \<Rightarrow> bool" where
  "marks S T st st' \<longleftrightarrow> T \<subseteq> S \<and> live st' = live st \<union> T \<and>
     set (worklist st') = set (worklist st) \<union> (T - live st) \<and>
     (finite S \<longrightarrow> card (S - live st') + length (worklist st')
        = card (S - live st) + length (worklist st))"

lemma marks_refl [intro]: "marks S {} st st"
  by (simp add: marks_def)

lemma marks_trans: "marks S T st st' \<Longrightarrow> marks S U st' st'' \<Longrightarrow> marks S (T \<union> U) st st''"
  unfolding marks_def by auto

lemma marks_potential:
  "marks S T st st' \<Longrightarrow> finite S \<Longrightarrow>
     card (S - live st') + length (worklist st') = card (S - live st) + length (worklist st)"
  unfolding marks_def by blast

lemma marks_from:
  assumes "live st = live su" and "worklist st = worklist su" and "marks S T st st'"
  shows "marks S T su st'"
  using assms(3) unfolding marks_def assms(1,2) .

lemma marks_update:
  "marks S T (st\<lparr>live_bps := B\<rparr>) st' \<Longrightarrow> marks S T st st'"
  "marks S T (st\<lparr>live_tables := B\<rparr>) st' \<Longrightarrow> marks S T st st'"
  by (rule marks_from; simp)+

lemma marks_child: "c \<in> S \<Longrightarrow> marks S {c} st (mark_child c st)"
proof (cases "c \<in> live st")
  case False
  assume "c \<in> S"
  have "card (S - insert c (live st)) + Suc n = card (S - live st) + n" if "finite S" for n
  proof -
    have "S - live st = insert c (S - insert c (live st))"
      using \<open>c \<in> S\<close> False by auto
    then have "card (S - live st) = Suc (card (S - insert c (live st)))"
      using that by (metis Diff_iff card_insert_disjoint finite_Diff insertI1)
    then show ?thesis by simp
  qed
  with False \<open>c \<in> S\<close> show ?thesis by (auto simp: marks_def mark_child_def)
qed (auto simp: marks_def mark_child_def insert_absorb)

lemma marks_fold:
  assumes "\<And>x st. x \<in> set xs \<Longrightarrow> marks S (T x) st (f x st)"
  shows "marks S (\<Union>x \<in> set xs. T x) st (fold f xs st)"
  using assms
proof (induction xs arbitrary: st)
  case (Cons x xs)
  have "marks S (T x) st (f x st)" by (rule Cons.prems) simp
  moreover have "marks S (\<Union>y \<in> set xs. T y) (f x st) (fold f xs (f x st))"
    by (rule Cons.IH) (simp add: Cons.prems)
  ultimately show ?case by (auto dest: marks_trans)
qed auto

lemma marks_children: "set cs \<subseteq> S \<Longrightarrow> marks S (set cs) st (fold mark_child cs st)"
  using marks_fold [of cs S "\<lambda>c. {c}" mark_child st] by (auto intro: marks_child)

lemma classify_in_set:
  "set (classify_value S v) \<subseteq> S"
  "set (classify_function S f) \<subseteq> S"
  "set (classify_body S b) \<subseteq> S"
  "set (classify_statement S s) \<subseteq> S"
proof (induction v and f and b and s)
  case (GcFunction sc ds b)
  have "set (emitted (map_option (classify_value S) d)) \<subseteq> S" if "d \<in> set ds" for d
    using GcFunction(1) [OF that] by (cases d) auto
  with GcFunction(2) show ?case by (cases sc) (auto simp: in_set_only_def)
next
  case (SReturn r)
  then show ?case by (cases r) auto
qed (fastforce simp: in_set_only_def)+

lemma classify_all_in_set: "set (classify_all S vs) \<subseteq> S"
  using classify_in_set(1) by (fastforce simp: classify_all_def)

lemma marks_values: "marks S (set (classify_all S vs)) st (mark_values S vs st)"
proof -
  have "marks S (\<Union>v \<in> set vs. set (classify_value S v)) st (fold (\<lambda>v. fold mark_child (classify_value S v)) vs st)"
    by (rule marks_fold) (rule marks_children, rule classify_in_set)
  then show ?thesis by (simp add: mark_values_def classify_all_def)
qed

definition blueprint_targets :: "gc_heap \<Rightarrow> ptr set \<Rightarrow> ptr \<Rightarrow> ptr set" where
  "blueprint_targets h S b = set (classify_all S (blueprint_values h b))"

definition table_targets :: "gc_heap \<Rightarrow> ptr set \<Rightarrow> ptr \<Rightarrow> ptr set" where
  "table_targets h S t = set (classify_all S (table_at h t))"

lemma marks_blueprint:
  "\<exists>T \<subseteq> blueprint_targets h S b. marks S T st (mark_blueprint h S b st)"
proof (cases "b \<in> live_bps st")
  case True
  then show ?thesis by (auto simp: mark_blueprint_def)
next
  case False
  then have "marks S (blueprint_targets h S b) st (mark_blueprint h S b st)"
    unfolding mark_blueprint_def blueprint_targets_def
    using marks_update(1) [OF marks_values] by simp
  then show ?thesis by auto
qed

lemma marks_table:
  "\<exists>T \<subseteq> table_targets h S t. marks S T st (mark_table h S t st)"
proof (cases "t \<in> live_tables st")
  case True
  then show ?thesis by (auto simp: mark_table_def)
next
  case False
  then have "marks S (table_targets h S t) st (mark_table h S t st)"
    unfolding mark_table_def table_targets_def
    using marks_update(2) [OF marks_values] by simp
  then show ?thesis by auto
qed

lemma marks_fold_some:
  assumes "\<And>x st. x \<in> set xs \<Longrightarrow> \<exists>U \<subseteq> T x. marks S U st (f x st)"
  shows "\<exists>U \<subseteq> (\<Union>x \<in> set xs. T x). marks S U st (fold f xs st)"
  using assms
proof (induction xs arbitrary: st)
  case (Cons x xs)
  obtain U where U: "U \<subseteq> T x" "marks S U st (f x st)"
    using Cons.prems [of x st] by auto
  have "\<exists>V \<subseteq> (\<Union>y \<in> set xs. T y). marks S V (f x st) (fold f xs (f x st))"
    by (rule Cons.IH) (simp add: Cons.prems)
  then obtain V where V: "V \<subseteq> (\<Union>y \<in> set xs. T y)" "marks S V (f x st) (fold f xs (f x st))"
    by auto
  from marks_trans [OF U(2) V(2)] U(1) V(1) show ?case by (intro exI [of _ "U \<union> V"]) auto
qed auto

definition out_nodes :: "gc_heap \<Rightarrow> ptr set \<Rightarrow> ptr \<Rightarrow> ptr set" where
  "out_nodes h S p = set (child_nodes h S p)
     \<union> (\<Union>b \<in> set (node_blueprint h p). blueprint_targets h S b)
     \<union> (\<Union>t \<in> set (node_tables h p). table_targets h S t)"

lemma marks_node: "\<exists>T \<subseteq> out_nodes h S p. marks S T st (mark_node h S p st)"
proof -
  have a: "marks S (set (child_nodes h S p)) st (fold mark_child (child_nodes h S p) st)"
    (is "marks S ?A st ?a")
    by (rule marks_children) (simp add: child_nodes_def classify_all_in_set)
  have "\<exists>U \<subseteq> (\<Union>b \<in> set (node_blueprint h p). blueprint_targets h S b).
          marks S U ?a (fold (mark_blueprint h S) (node_blueprint h p) ?a)"
    by (rule marks_fold_some) (rule marks_blueprint)
  then obtain U where U: "U \<subseteq> (\<Union>b \<in> set (node_blueprint h p). blueprint_targets h S b)"
      "marks S U ?a (fold (mark_blueprint h S) (node_blueprint h p) ?a)" (is "marks S U ?a ?b")
    by auto
  have "\<exists>V \<subseteq> (\<Union>t \<in> set (node_tables h p). table_targets h S t).
          marks S V ?b (fold (mark_table h S) (node_tables h p) ?b)"
    by (rule marks_fold_some) (rule marks_table)
  then obtain V where V: "V \<subseteq> (\<Union>t \<in> set (node_tables h p). table_targets h S t)"
      "marks S V ?b (fold (mark_table h S) (node_tables h p) ?b)"
    by auto
  have "marks S (?A \<union> U \<union> V) st (mark_node h S p st)"
    unfolding mark_node_def using marks_trans [OF marks_trans [OF a U(2)] V(2)] .
  moreover have "?A \<union> U \<union> V \<subseteq> out_nodes h S p"
    using U(1) V(1) by (auto simp: out_nodes_def)
  ultimately show ?thesis by blast
qed

function mark_loop :: "gc_heap \<Rightarrow> ptr list \<Rightarrow> mark_state \<Rightarrow> mark_state" where
  "mark_loop h ns st = (case worklist st of
     [] \<Rightarrow> st
   | p # w \<Rightarrow> mark_loop h ns (mark_node h (set ns) p (st\<lparr>worklist := w\<rparr>)))"
  by pat_completeness auto

termination
proof (relation "measure (\<lambda>(h, ns, st). card (set ns - live st) + length (worklist st))")
  fix h :: gc_heap and ns :: "ptr list" and st :: mark_state and p w
  assume "worklist st = p # w"
  moreover obtain T where "marks (set ns) T (st\<lparr>worklist := w\<rparr>) (mark_node h (set ns) p (st\<lparr>worklist := w\<rparr>))"
    using marks_node by blast
  from marks_potential [OF this]
  have "card (set ns - live (mark_node h (set ns) p (st\<lparr>worklist := w\<rparr>)))
      + length (worklist (mark_node h (set ns) p (st\<lparr>worklist := w\<rparr>)))
    = card (set ns - live st) + length w"
    by simp
  ultimately show "((h, ns, mark_node h (set ns) p (st\<lparr>worklist := w\<rparr>)), h, ns, st)
      \<in> measure (\<lambda>(h, ns, st). card (set ns - live st) + length (worklist st))"
    by simp
qed simp

declare mark_loop.simps [simp del]

text \<open>Step 5: clearing what is not live, and handing the live survivors back.\<close>

definition clear_map :: "ptr \<Rightarrow> gc_heap \<Rightarrow> gc_heap" where
  "clear_map m h = (case node_at h m of
     Some (NStruct s) \<Rightarrow> h\<lparr>node_at := (node_at h)(m \<mapsto> NStruct (s\<lparr>struct_map := []\<rparr>))\<rparr>
   | _ \<Rightarrow> h)"

definition clear_node :: "ptr \<Rightarrow> gc_heap \<Rightarrow> gc_heap" where
  "clear_node p h = (case node_at h p of
     Some (NStruct s) \<Rightarrow> h\<lparr>node_at := (node_at h)(p \<mapsto> NStruct (s\<lparr>struct_map := []\<rparr>))\<rparr>
   | Some (NArray vs) \<Rightarrow> h\<lparr>node_at := (node_at h)(p \<mapsto> NArray [])\<rparr>
   | Some (NQuery cols) \<Rightarrow> h\<lparr>node_at := (node_at h)(p \<mapsto> NQuery [])\<rparr>
   | Some (NScope poisoned vs) \<Rightarrow>
       (if poisoned then h else h\<lparr>node_at := (node_at h)(p \<mapsto> NScope False [])\<rparr>)
   | Some (NInstance i) \<Rightarrow>
       (if instance_free i then clear_map (variables_members i) (clear_map (this_members i) h) else h)
   | None \<Rightarrow> h)"

definition downgrade :: "gc_heap \<Rightarrow> ptr \<Rightarrow> tracked_alloc" where
  "downgrade h p = (case node_at h p of
     Some (NArray _) \<Rightarrow> TArray p
   | Some (NQuery _) \<Rightarrow> TQuery p
   | Some (NScope _ _) \<Rightarrow> TScope p
   | Some (NInstance _) \<Rightarrow> TInstance p
   | _ \<Rightarrow> TStruct p)"

definition mark_live :: "gc_heap \<Rightarrow> ptr list \<Rightarrow> ptr set" where
  "mark_live h ns = live (mark_loop h ns (seed_blueprints h ns (seed_roots h ns
     \<lparr>live = {}, worklist = [], live_bps = {}, live_tables = {}\<rparr>)))"

definition collect_from_log_carrying ::
    "gc_heap \<Rightarrow> tracked_alloc list \<Rightarrow> gc_heap \<times> nat \<times> tracked_alloc list" where
  "collect_from_log_carrying h log =
     (let ns = upgrade_log h [] log in
      if ns = [] then (h, 0, [])
      else let L = mark_live h ns; dead = filter (\<lambda>p. p \<notin> L) ns
        in (fold clear_node dead h, length dead, map (downgrade h) (filter (\<lambda>p. p \<in> L) ns)))"

section \<open>The live set is what the roots reach\<close>

definition gc_edges :: "gc_heap \<Rightarrow> ptr set \<Rightarrow> (ptr \<times> ptr) set" where
  "gc_edges h S = {(p, c). c \<in> out_nodes h S p}"

definition gc_seeds :: "gc_heap \<Rightarrow> ptr list \<Rightarrow> ptr set" where
  "gc_seeds h ns = {p \<in> set ns. 0 < external h (internal_in h ns) p}
     \<union> (\<Union>b \<in> {b \<in> set (blueprints_of h ns). 0 < external h (bp_internal h ns) b}.
          blueprint_targets h (set ns) b)"

text \<open>
  What holds of the marking state between two steps, for the seeds \<open>D\<close>: everything live is
  reachable, the seeds are live, and the targets of every live node that is not queued, of every
  live blueprint and of every live table are live.
\<close>

definition mark_inv :: "gc_heap \<Rightarrow> ptr set \<Rightarrow> ptr set \<Rightarrow> mark_state \<Rightarrow> bool" where
  "mark_inv h S D st \<longleftrightarrow> D \<subseteq> live st \<and> live st \<subseteq> (gc_edges h S)\<^sup>* `` D \<and> set (worklist st) \<subseteq> live st \<and>
     (\<forall>p \<in> live st - set (worklist st). out_nodes h S p \<subseteq> live st) \<and>
     (\<forall>b \<in> live_bps st. blueprint_targets h S b \<subseteq> live st) \<and>
     (\<forall>t \<in> live_tables st. table_targets h S t \<subseteq> live st)"

definition carried :: "gc_heap \<Rightarrow> ptr set \<Rightarrow> mark_state \<Rightarrow> bool" where
  "carried h S st \<longleftrightarrow>
     (\<forall>b \<in> live_bps st. blueprint_targets h S b \<subseteq> live st) \<and>
     (\<forall>t \<in> live_tables st. table_targets h S t \<subseteq> live st)"

lemma mark_child_carriers [simp]:
  "live_bps (mark_child c st) = live_bps st"
  "live_tables (mark_child c st) = live_tables st"
  by (simp_all add: mark_child_def)

lemma fold_mark_child_carriers [simp]:
  "live_bps (fold mark_child cs st) = live_bps st"
  "live_tables (fold mark_child cs st) = live_tables st"
  by (induction cs arbitrary: st) simp_all

lemma mark_values_carriers [simp]:
  "live_bps (mark_values S vs st) = live_bps st"
  "live_tables (mark_values S vs st) = live_tables st"
  unfolding mark_values_def by (induction vs arbitrary: st) simp_all

lemma mark_values_live: "live (mark_values S vs st) = live st \<union> set (classify_all S vs)"
  using marks_values [of S vs st] by (simp add: marks_def)

lemma carried_blueprint:
  assumes "carried h S st"
  shows "carried h S (mark_blueprint h S b st) \<and>
    live (mark_blueprint h S b st) = live st \<union> blueprint_targets h S b"
  using assms by (auto simp: carried_def mark_blueprint_def mark_values_live blueprint_targets_def)

lemma carried_table:
  assumes "carried h S st"
  shows "carried h S (mark_table h S t st) \<and>
    live (mark_table h S t st) = live st \<union> table_targets h S t"
  using assms by (auto simp: carried_def mark_table_def mark_values_live table_targets_def)

lemma carried_fold:
  assumes "\<And>x st. carried h S st \<Longrightarrow> carried h S (f x st) \<and> live (f x st) = live st \<union> T x"
    and "carried h S st"
  shows "carried h S (fold f xs st) \<and> live (fold f xs st) = live st \<union> (\<Union>x \<in> set xs. T x)"
  using assms(2)
proof (induction xs arbitrary: st)
  case (Cons x xs)
  with assms(1) [of st x] show ?case by auto
qed simp

lemma carried_children:
  assumes "carried h S st" and "set cs \<subseteq> S"
  shows "carried h S (fold mark_child cs st) \<and> live (fold mark_child cs st) = live st \<union> set cs"
  using assms marks_children [of cs S st] by (auto simp: carried_def marks_def)

lemma mark_node_live:
  assumes "carried h S st"
  shows "carried h S (mark_node h S p st) \<and> live (mark_node h S p st) = live st \<union> out_nodes h S p"
proof -
  let ?a = "fold mark_child (child_nodes h S p) st"
  let ?b = "fold (mark_blueprint h S) (node_blueprint h p) ?a"
  have a: "carried h S ?a \<and> live ?a = live st \<union> set (child_nodes h S p)"
    by (rule carried_children [OF assms]) (simp add: child_nodes_def classify_all_in_set)
  then have b: "carried h S ?b \<and> live ?b = live ?a \<union> (\<Union>b \<in> set (node_blueprint h p). blueprint_targets h S b)"
    by (intro carried_fold carried_blueprint) auto
  then have "carried h S (mark_node h S p st) \<and>
      live (mark_node h S p st) = live ?b \<union> (\<Union>t \<in> set (node_tables h p). table_targets h S t)"
    unfolding mark_node_def by (intro carried_fold carried_table) auto
  with a b show ?thesis by (auto simp: out_nodes_def)
qed

lemma mark_inv_step:
  assumes inv: "mark_inv h S D st" and w: "worklist st = p # w"
  shows "mark_inv h S D (mark_node h S p (st\<lparr>worklist := w\<rparr>))" (is "mark_inv h S D ?st")
proof -
  have "carried h S (st\<lparr>worklist := w\<rparr>)"
    using inv by (simp add: mark_inv_def carried_def)
  from mark_node_live [OF this] have c: "carried h S ?st" and l: "live ?st = live st \<union> out_nodes h S p"
    by auto
  obtain T where T: "marks S T (st\<lparr>worklist := w\<rparr>) ?st"
    using marks_node by blast
  then have wl: "set (worklist ?st) = set w \<union> (live ?st - live st)"
    by (auto simp: marks_def)
  have p: "p \<in> live st" "set w \<subseteq> live st"
    using inv w by (auto simp: mark_inv_def)
  have reach: "out_nodes h S p \<subseteq> (gc_edges h S)\<^sup>* `` D"
  proof
    fix c assume "c \<in> out_nodes h S p"
    moreover obtain d where "d \<in> D" "(d, p) \<in> (gc_edges h S)\<^sup>*"
      using inv p(1) by (auto simp: mark_inv_def)
    ultimately have "(d, c) \<in> (gc_edges h S)\<^sup>*"
      by (auto simp: gc_edges_def intro: rtrancl_into_rtrancl)
    with \<open>d \<in> D\<close> show "c \<in> (gc_edges h S)\<^sup>* `` D" by auto
  qed
  have closed: "out_nodes h S q \<subseteq> live ?st" if "q \<in> live ?st - set (worklist ?st)" for q
  proof (cases "q = p")
    case False
    with that wl w have "q \<in> live st - set (worklist st)" by auto
    with inv l show ?thesis by (auto simp: mark_inv_def)
  qed (simp add: l)
  show ?thesis
    using inv c reach closed l wl p by (auto simp: mark_inv_def carried_def)
qed

lemma mark_loop_reaches:
  assumes "mark_inv h (set ns) D st"
  shows "live (mark_loop h ns st) = (gc_edges h (set ns))\<^sup>* `` D"
  using assms
proof (induction h ns st rule: mark_loop.induct)
  case (1 h ns st)
  show ?case
  proof (cases "worklist st")
    case Nil
    let ?E = "gc_edges h (set ns)"
    have "?E `` live st \<subseteq> live st" and D: "D \<subseteq> live st" and r: "live st \<subseteq> ?E\<^sup>* `` D"
      using 1(2) Nil by (auto simp: mark_inv_def gc_edges_def)
    then have "?E\<^sup>* `` live st = live st"
      by (simp add: Image_closed_trancl)
    with D r have "live st = ?E\<^sup>* `` D" by blast
    with Nil show ?thesis by (simp add: mark_loop.simps)
  next
    case (Cons p w)
    with 1(1) [OF Cons mark_inv_step [OF 1(2) Cons]] show ?thesis
      by (subst mark_loop.simps) simp
  qed
qed

lemma fold_when:
  "fold (\<lambda>x st. if P x then f x st else st) xs st = fold f (filter P xs) st"
  by (induction xs arbitrary: st) simp_all

definition gc_roots :: "gc_heap \<Rightarrow> ptr list \<Rightarrow> ptr list" where
  "gc_roots h ns = filter (\<lambda>p. 0 < external h (internal_in h ns) p) ns"

definition outside_blueprints :: "gc_heap \<Rightarrow> ptr list \<Rightarrow> ptr list" where
  "outside_blueprints h ns = filter (\<lambda>b. 0 < external h (bp_internal h ns) b) (blueprints_of h ns)"

lemma seed_roots_fold: "seed_roots h ns st = fold mark_child (gc_roots h ns) st"
  by (simp add: seed_roots_def Let_def fold_when gc_roots_def)

lemma seed_blueprints_fold:
  "seed_blueprints h ns st = fold (mark_blueprint h (set ns)) (outside_blueprints h ns) st"
  by (simp add: seed_blueprints_def Let_def fold_when outside_blueprints_def)

lemma gc_seeds_eq:
  "gc_seeds h ns = set (gc_roots h ns) \<union> (\<Union>b \<in> set (outside_blueprints h ns). blueprint_targets h (set ns) b)"
  by (simp add: gc_seeds_def gc_roots_def outside_blueprints_def)

lemma mark_live_reaches: "mark_live h ns = (gc_edges h (set ns))\<^sup>* `` gc_seeds h ns"
proof -
  let ?S = "set ns"
  let ?s0 = "\<lparr>live = {}, worklist = [], live_bps = {}, live_tables = {}\<rparr>"
  let ?s1 = "fold mark_child (gc_roots h ns) ?s0"
  let ?s2 = "fold (mark_blueprint h ?S) (outside_blueprints h ns) ?s1"
  have sub: "set (gc_roots h ns) \<subseteq> ?S" by (auto simp: gc_roots_def)
  have "carried h ?S ?s0" by (simp add: carried_def)
  from carried_children [OF this sub]
  have c1: "carried h ?S ?s1" and l1: "live ?s1 = set (gc_roots h ns)" by auto
  have "carried h ?S ?s2 \<and> live ?s2 = live ?s1 \<union> (\<Union>b \<in> set (outside_blueprints h ns). blueprint_targets h ?S b)"
    by (rule carried_fold [OF carried_blueprint c1])
  with l1 have c2: "carried h ?S ?s2" and l2: "live ?s2 = gc_seeds h ns"
    by (simp_all add: gc_seeds_eq)
  have m1: "marks ?S (set (gc_roots h ns)) ?s0 ?s1" by (rule marks_children [OF sub])
  have "\<exists>U \<subseteq> (\<Union>b \<in> set (outside_blueprints h ns). blueprint_targets h ?S b). marks ?S U ?s1 ?s2"
    by (rule marks_fold_some) (rule marks_blueprint)
  then obtain U where "marks ?S U ?s1 ?s2" by auto
  from marks_trans [OF m1 this] have "set (worklist ?s2) = live ?s2"
    by (simp add: marks_def)
  with c2 l2 have "mark_inv h ?S (gc_seeds h ns) ?s2"
    by (auto simp: mark_inv_def carried_def)
  from mark_loop_reaches [OF this] show ?thesis
    by (simp add: mark_live_def seed_roots_fold seed_blueprints_fold)
qed

lemma gc_edges_closed: "(p, c) \<in> gc_edges h S \<Longrightarrow> c \<in> S"
  using classify_all_in_set
  by (fastforce simp: gc_edges_def out_nodes_def child_nodes_def blueprint_targets_def table_targets_def)

lemma gc_seeds_subset: "gc_seeds h ns \<subseteq> set ns"
  using classify_all_in_set by (fastforce simp: gc_seeds_def blueprint_targets_def)

lemma mark_live_subset: "mark_live h ns \<subseteq> set ns"
proof
  fix p assume "p \<in> mark_live h ns"
  then obtain d where "d \<in> gc_seeds h ns" "(d, p) \<in> (gc_edges h (set ns))\<^sup>*"
    by (auto simp: mark_live_reaches)
  from this(2,1) show "p \<in> set ns"
    using gc_seeds_subset by (cases rule: rtranclE) (auto dest: gc_edges_closed)
qed

section \<open>The ledger of strong counts\<close>

text \<open>
  What the strong count of a container is. A value owns the handles it holds outside of shared
  boxes (\<open>owned\<close>); a shared box owns its own handles once, however many values hold the box.
  \<open>boxes\<close> lists the boxes of a value with the handles they own, and \<open>arc_strong vs p\<close> is the
  strong count of \<open>p\<close> when \<open>vs\<close> are all the values there are.
\<close>

primrec owned :: "gc_value \<Rightarrow> ptr list"
  and owned_function :: "gc_function \<Rightarrow> ptr list"
  and owned_body :: "gc_body \<Rightarrow> ptr list"
  and owned_statement :: "gc_statement \<Rightarrow> ptr list" where
  "owned (VStruct p) = [p]"
| "owned (VArray p) = [p]"
| "owned (VQuery p) = [p]"
| "owned (VInstance p) = [p]"
| "owned (VFunction a f) = []"
| "owned (VComponent ps ms) = concat (map owned ps) @ concat (map owned_function ms)"
| "owned (VClosure vs b) = concat (map owned vs) @ owned_body b"
| "owned (VQueryColumn a vs) = []"
| "owned (VNativeObject a vs) = []"
| "owned VOther = []"
| "owned_function (GcFunction sc ds b) =
     opt_list sc @ concat (map emitted (map (map_option owned) ds)) @ owned_body b"
| "owned_body (BExpression v) = owned v"
| "owned_body (BStatements sts) = concat (map owned_statement sts)"
| "owned_statement (SExpression v) = owned v"
| "owned_statement (SAssignment x v) = owned v"
| "owned_statement (SReturn r) = emitted (map_option owned r)"

primrec boxes :: "gc_value \<Rightarrow> (ptr \<times> ptr list) list"
  and boxes_function :: "gc_function \<Rightarrow> (ptr \<times> ptr list) list"
  and boxes_body :: "gc_body \<Rightarrow> (ptr \<times> ptr list) list"
  and boxes_statement :: "gc_statement \<Rightarrow> (ptr \<times> ptr list) list" where
  "boxes (VStruct p) = []"
| "boxes (VArray p) = []"
| "boxes (VQuery p) = []"
| "boxes (VInstance p) = []"
| "boxes (VFunction a f) = (a, owned_function f) # boxes_function f"
| "boxes (VComponent ps ms) = concat (map boxes ps) @ concat (map boxes_function ms)"
| "boxes (VClosure vs b) = concat (map boxes vs) @ boxes_body b"
| "boxes (VQueryColumn a vs) = (a, concat (map owned vs)) # concat (map boxes vs)"
| "boxes (VNativeObject a vs) = (a, concat (map owned vs)) # concat (map boxes vs)"
| "boxes VOther = []"
| "boxes_function (GcFunction sc ds b) = concat (map emitted (map (map_option boxes) ds)) @ boxes_body b"
| "boxes_body (BExpression v) = boxes v"
| "boxes_body (BStatements sts) = concat (map boxes_statement sts)"
| "boxes_statement (SExpression v) = boxes v"
| "boxes_statement (SAssignment x v) = boxes v"
| "boxes_statement (SReturn r) = emitted (map_option boxes r)"

definition all_boxes :: "gc_value list \<Rightarrow> (ptr \<times> ptr list) list" where
  "all_boxes vs = concat (map boxes vs)"

definition box_refs :: "(ptr \<times> ptr list) list \<Rightarrow> ptr \<Rightarrow> nat" where
  "box_refs bs p = sum_list (map (\<lambda>b. count_list (snd b) p) bs)"

definition arc_strong :: "gc_value list \<Rightarrow> ptr \<Rightarrow> nat" where
  "arc_strong vs p = count_list (concat (map owned vs)) p + box_refs (remdups (all_boxes vs)) p"

lemma box_refs_simps [simp]:
  "box_refs [] p = 0"
  "box_refs (b # bs) p = count_list (snd b) p + box_refs bs p"
  "box_refs (bs @ cs) p = box_refs bs p + box_refs cs p"
  by (simp_all add: box_refs_def)

lemma count_concat_split:
  assumes "\<And>x. x \<in> set xs \<Longrightarrow> count_list (f x) p = count_list (g x) p + box_refs (k x) p"
  shows "count_list (concat (map f xs)) p
    = count_list (concat (map g xs)) p + box_refs (concat (map k xs)) p"
  using assms by (induction xs) auto

text \<open>Descending through the boxes finds what the value owns and what its boxes own.\<close>

lemma classify_count:
  assumes "p \<in> S"
  shows "count_list (classify_value S v) p = count_list (owned v) p + box_refs (boxes v) p"
    "count_list (classify_function S f) p = count_list (owned_function f) p + box_refs (boxes_function f) p"
    "count_list (classify_body S b) p = count_list (owned_body b) p + box_refs (boxes_body b) p"
    "count_list (classify_statement S s) p = count_list (owned_statement s) p + box_refs (boxes_statement s) p"
proof (induction v and f and b and s)
  case (GcFunction sc ds b)
  have *: "count_list (emitted (map_option (classify_value S) d)) p
      = count_list (emitted (map_option owned d)) p + box_refs (emitted (map_option boxes d)) p"
    if "d \<in> set ds" for d
    using GcFunction(1) [OF that] by (cases d) auto
  from count_concat_split [of ds "\<lambda>d. emitted (map_option (classify_value S) d)" p
      "\<lambda>d. emitted (map_option owned d)" "\<lambda>d. emitted (map_option boxes d)", OF *] GcFunction(2) assms
  show ?case by (cases sc) (auto simp: in_set_only_def comp_def)
next
  case (SReturn r)
  then show ?case by (cases r) auto
next
  case (VComponent ps ms)
  from count_concat_split [of ps "classify_value S" p owned boxes, OF VComponent(1)]
    count_concat_split [of ms "classify_function S" p owned_function boxes_function, OF VComponent(2)]
  show ?case by simp
next
  case (BStatements sts)
  from count_concat_split [of sts "classify_statement S" p owned_statement boxes_statement, OF this]
  show ?case by simp
next
  case (VClosure vs b)
  from count_concat_split [of vs "classify_value S" p owned boxes, OF VClosure(1)] VClosure(2) show ?case by simp
next
  case (VQueryColumn a vs)
  from count_concat_split [of vs "classify_value S" p owned boxes, OF this] show ?case by simp
next
  case (VNativeObject a vs)
  from count_concat_split [of vs "classify_value S" p owned boxes, OF this] show ?case by simp
qed (use assms in \<open>auto simp: in_set_only_def\<close>)

lemma classify_all_count:
  "p \<in> S \<Longrightarrow> count_list (classify_all S vs) p = count_list (concat (map owned vs)) p + box_refs (all_boxes vs) p"
  unfolding classify_all_def all_boxes_def by (rule count_concat_split) (rule classify_count)

lemma classify_all_append [simp]:
  "classify_all S (vs @ ws) = classify_all S vs @ classify_all S ws"
  by (simp add: classify_all_def)

lemma classify_all_concat: "classify_all S (concat (map f xs)) = concat (map (\<lambda>x. classify_all S (f x)) xs)"
  by (induction xs) (simp_all add: classify_all_def)

text \<open>The values a pass looks at: those of the survivors and of their blueprints and tables.\<close>

definition walked :: "gc_heap \<Rightarrow> ptr list \<Rightarrow> gc_value list" where
  "walked h ns = concat (map (values_of h (set ns)) ns)
     @ concat (map (blueprint_values h) (blueprints_of h ns))
     @ concat (map (table_at h) (method_tables_of h ns))"

lemma fold_count_edge: "fold count_edge cs m p = m p + count_list cs p"
  by (induction cs arbitrary: m) (auto simp: count_edge_def)

lemma fold_fold_count_edge:
  "fold (\<lambda>x. fold count_edge (g x)) xs m p = m p + count_list (concat (map g xs)) p"
  by (induction xs arbitrary: m) (auto simp: fold_count_edge)

lemma internal_in_count: "internal_in h ns p = count_list (classify_all (set ns) (walked h ns)) p"
  by (simp add: internal_in_def Let_def fold_fold_count_edge walked_def classify_all_concat
      child_nodes_def [abs_def])

text \<open>
  The allocations a pass walks, with the values each of them owns, as often as the pass walks
  them: an untracked data map once per instance field that holds it, a method table once as such
  and once per blueprint whose \<open>method_values\<close> it is. The ledger has every allocation once.
\<close>

definition node_walks :: "gc_heap \<Rightarrow> ptr set \<Rightarrow> ptr \<Rightarrow> (ptr \<times> gc_value list) list" where
  "node_walks h S p = (case node_at h p of
     Some (NInstance i) \<Rightarrow> if instance_free i then
         (p, opt_list (native_parent i) @ map VStruct (filter (\<lambda>m. m \<in> S) (instance_maps i)))
         # map (\<lambda>m. (m, data_map h m)) (filter (\<lambda>m. m \<notin> S) (instance_maps i))
       else []
   | _ \<Rightarrow> [(p, values_of h S p)])"

definition blueprint_walks :: "gc_heap \<Rightarrow> ptr \<Rightarrow> (ptr \<times> gc_value list) list" where
  "blueprint_walks h p = (let b = blueprint_at h p in
     [(p, metadata b
         # concat (map opt_list [static_scope b, super_handle b, super_map b, source_names b, properties b])
         @ opt_list (metadata_cache b)),
      (method_values b, table_at h (method_values b))])"

definition walks :: "gc_heap \<Rightarrow> ptr list \<Rightarrow> (ptr \<times> gc_value list) list" where
  "walks h ns = concat (map (node_walks h (set ns)) ns)
     @ concat (map (blueprint_walks h) (blueprints_of h ns))
     @ map (\<lambda>t. (t, table_at h t)) (method_tables_of h ns)"

definition ledger :: "gc_heap \<Rightarrow> ptr list \<Rightarrow> gc_value list" where
  "ledger h ns = concat (map snd (remdups (walks h ns)))"

lemma node_walks_count:
  "count_list (classify_all S (concat (map snd (node_walks h S p)))) q
     = count_list (classify_all S (values_of h S p)) q"
  by (auto simp: node_walks_def values_of_def instance_maps_def classify_all_def
      split: option.split gc_node.split)

lemma blueprint_walks_count:
  "count_list (classify_all S (concat (map snd (blueprint_walks h b)))) q
     = count_list (classify_all S (blueprint_values h b)) q"
  by (simp add: blueprint_walks_def blueprint_values_def Let_def classify_all_def)

lemma count_classify_concat:
  "count_list (classify_all S (concat xss)) q = sum_list (map (\<lambda>xs. count_list (classify_all S xs) q) xss)"
  by (induction xss) (simp_all add: classify_all_def)

lemma walks_count:
  "count_list (classify_all S (concat (map snd (walks h ns)))) q
     = count_list (classify_all S (walked h ns)) q" if "S = set ns"
proof -
  have *: "sum_list (map (\<lambda>xs. count_list (classify_all S xs) q) (map snd (concat (map f xs))))
      = sum_list (map (\<lambda>xs. count_list (classify_all S xs) q) (map g xs))"
    if "\<And>x. count_list (classify_all S (concat (map snd (f x)))) q = count_list (classify_all S (g x)) q"
    for f :: "ptr \<Rightarrow> (ptr \<times> gc_value list) list" and g :: "ptr \<Rightarrow> gc_value list" and xs
    using that by (induction xs) (simp_all add: count_classify_concat)
  have "sum_list (map (\<lambda>xs. count_list (classify_all S xs) q) (map snd (walks h ns)))
      = sum_list (map (\<lambda>xs. count_list (classify_all S xs) q) (map (values_of h S) ns))
      + sum_list (map (\<lambda>xs. count_list (classify_all S xs) q) (map (blueprint_values h) (blueprints_of h ns)))
      + sum_list (map (\<lambda>xs. count_list (classify_all S xs) q) (map (table_at h) (method_tables_of h ns)))"
    unfolding walks_def map_append sum_list_append that [symmetric]
      * [of "node_walks h S", OF node_walks_count] * [of "blueprint_walks h", OF blueprint_walks_count]
    by (simp add: comp_def)
  then show ?thesis by (simp add: walked_def count_classify_concat that)
qed

text \<open>
  The accounting a pass relies on: the strong counts are those of the ledger together with the
  values \<open>frames\<close> held everywhere else, and nothing that owns a survivor is walked twice, neither
  an allocation nor a shared box (a function, a query column, a native object).
\<close>

definition unshared :: "gc_heap \<Rightarrow> ptr list \<Rightarrow> gc_value list \<Rightarrow> bool" where
  "unshared h ns frames \<longleftrightarrow>
     distinct (map fst (filter (\<lambda>w. classify_all (set ns) (snd w) \<noteq> []) (walks h ns))) \<and>
     distinct (map fst (filter (\<lambda>b. \<exists>q \<in> set (snd b). q \<in> set ns) 
       (all_boxes (concat (map snd (walks h ns)) @ frames))))"

definition accounted :: "gc_heap \<Rightarrow> ptr list \<Rightarrow> gc_value list \<Rightarrow> bool" where
  "accounted h ns frames \<longleftrightarrow> unshared h ns frames \<and>
     (\<forall>p \<in> set ns. strong h p = arc_strong (ledger h ns @ frames) p)"

text \<open>A sum over a list is the sum over its distinct elements when what counts occurs once.\<close>

lemma sum_list_remdups:
  fixes f :: "'a \<Rightarrow> nat"
  assumes "distinct (filter (\<lambda>x. f x \<noteq> 0) xs)"
  shows "sum_list (map f (remdups xs)) = sum_list (map f xs)"
proof -
  have *: "sum_list (map f ys) = sum_list (map f (filter (\<lambda>x. f x \<noteq> 0) ys))" for ys
    by (induction ys) auto
  have "filter (\<lambda>x. f x \<noteq> 0) (remdups xs) = filter (\<lambda>x. f x \<noteq> 0) xs"
    using assms by (simp add: remdups_filter [symmetric] distinct_remdups_id)
  then show ?thesis using * [of xs] * [of "remdups xs"] by simp
qed

lemma distinct_filter_mono:
  assumes "distinct (map f (filter P xs))" and "\<And>x. Q x \<Longrightarrow> P x"
  shows "distinct (filter Q xs)"
proof -
  have eq: "filter Q xs = filter Q (filter P xs)"
    using assms(2) by (auto intro: filter_cong)
  have "distinct (filter P xs)"
    using assms(1) by (simp add: distinct_map)
  then have "distinct (filter Q (filter P xs))" by (rule distinct_filter)
  then show ?thesis by (simp only: eq)
qed

lemma box_refs_remdups_set:
  assumes "set bs = set cs"
  shows "box_refs (remdups bs) p = box_refs (remdups cs) p"
  using assms unfolding box_refs_def by (simp add: sum_list_distinct_conv_sum_set)

lemma count_owned_concat:
  "count_list (concat (map owned (concat vss))) p
     = sum_list (map (\<lambda>vs. count_list (concat (map owned vs)) p) vss)"
  by (induction vss) simp_all

lemma arc_strong_ledger:
  assumes u: "unshared h ns frames" and p: "p \<in> set ns"
  shows "arc_strong (ledger h ns @ frames) p = count_list (classify_all (set ns) (walked h ns @ frames)) p"
proof -
  let ?W = "concat (map snd (walks h ns))"
  let ?own = "\<lambda>w. count_list (concat (map owned (snd w))) p"
  have "distinct (filter (\<lambda>w. ?own w \<noteq> 0) (walks h ns))"
  proof (rule distinct_filter_mono)
    show "distinct (map fst (filter (\<lambda>w. classify_all (set ns) (snd w) \<noteq> []) (walks h ns)))"
      using u unfolding unshared_def by blast
    show "classify_all (set ns) (snd w) \<noteq> []" if "?own w \<noteq> 0" for w
      using that classify_all_count [OF p, of "snd w"] by auto
  qed
  then have own: "count_list (concat (map owned (ledger h ns))) p = count_list (concat (map owned ?W)) p"
    unfolding ledger_def count_owned_concat map_map comp_def by (rule sum_list_remdups)
  have "distinct (filter (\<lambda>b. count_list (snd b) p \<noteq> 0) (all_boxes (?W @ frames)))"
  proof (rule distinct_filter_mono)
    show "distinct (map fst (filter (\<lambda>b. \<exists>q \<in> set (snd b). q \<in> set ns) (all_boxes (?W @ frames))))"
      using u unfolding unshared_def by blast
    show "\<exists>q \<in> set (snd b). q \<in> set ns" if "count_list (snd b) p \<noteq> 0" for b :: "ptr \<times> ptr list"
      using that p by (auto simp: count_list_0_iff)
  qed
  then have once: "box_refs (remdups (all_boxes (?W @ frames))) p = box_refs (all_boxes (?W @ frames)) p"
    unfolding box_refs_def by (rule sum_list_remdups)
  have "set (all_boxes (ledger h ns @ frames)) = set (all_boxes (?W @ frames))"
    by (simp add: all_boxes_def ledger_def)
  from box_refs_remdups_set [OF this] once own
  have "arc_strong (ledger h ns @ frames) p
      = count_list (concat (map owned (?W @ frames))) p + box_refs (all_boxes (?W @ frames)) p"
    by (simp add: arc_strong_def)
  also have "\<dots> = count_list (classify_all (set ns) (?W @ frames)) p"
    by (rule classify_all_count [OF p, symmetric])
  finally show ?thesis by (simp add: walks_count)
qed

lemma accounted_external:
  assumes "accounted h ns frames" and "p \<in> set ns"
  shows "external h (internal_in h ns) p = count_list (classify_all (set ns) frames) p"
proof -
  have "strong h p = count_list (classify_all (set ns) (walked h ns @ frames)) p"
    using assms arc_strong_ledger unfolding accounted_def by metis
  then show ?thesis by (simp add: external_def internal_in_count)
qed

lemma accounted_roots:
  assumes "accounted h ns frames"
  shows "set (gc_roots h ns) = set (classify_all (set ns) frames)"
proof -
  have "0 < external h (internal_in h ns) p \<longleftrightarrow> p \<in> set (classify_all (set ns) frames)"
    if "p \<in> set ns" for p
    using accounted_external [OF assms that] count_list_0_iff [of "classify_all (set ns) frames" p]
    by linarith
  then show ?thesis
    using classify_all_in_set [of "set ns" frames] by (auto simp: gc_roots_def)
qed

section \<open>What clearing changes\<close>

text \<open>
  Clearing the nodes \<open>D\<close> empties their containers and both data maps of their instances, and
  changes nothing else. A poisoned scope stays as it is, an instance keeps its fields.
\<close>

fun emptied_map :: "gc_node \<Rightarrow> gc_node" where
  "emptied_map (NStruct s) = NStruct (s\<lparr>struct_map := []\<rparr>)"
| "emptied_map n = n"

fun emptied :: "gc_node \<Rightarrow> gc_node" where
  "emptied (NStruct s) = NStruct (s\<lparr>struct_map := []\<rparr>)"
| "emptied (NArray vs) = NArray []"
| "emptied (NQuery cols) = NQuery []"
| "emptied (NScope poisoned vs) = NScope poisoned (if poisoned then vs else [])"
| "emptied (NInstance i) = NInstance i"

definition wiped_maps :: "gc_heap \<Rightarrow> ptr set \<Rightarrow> ptr set" where
  "wiped_maps h D = (\<Union>p \<in> D. case node_at h p of
     Some (NInstance i) \<Rightarrow> if instance_free i then set (instance_maps i) else {} | _ \<Rightarrow> {})"

definition cleared :: "gc_heap \<Rightarrow> ptr set \<Rightarrow> gc_heap" where
  "cleared h D = h\<lparr>node_at := (\<lambda>q.
     if q \<in> D then map_option emptied (node_at h q)
     else if q \<in> wiped_maps h D then map_option emptied_map (node_at h q)
     else node_at h q)\<rparr>"

lemma emptied_idem [simp]:
  "emptied_map (emptied n) = emptied n" "emptied_map (emptied_map n) = emptied_map n"
  "emptied (emptied n) = emptied n" "emptied (emptied_map n) = emptied n"
  by (cases n; simp)+

lemma map_option_emptied [simp]:
  "map_option emptied_map (map_option emptied x) = map_option emptied x"
  "map_option emptied_map (map_option emptied_map x) = map_option emptied_map x"
  "map_option emptied (map_option emptied x) = map_option emptied x"
  "map_option emptied (map_option emptied_map x) = map_option emptied x"
  by (cases x; simp)+

text \<open>A container never becomes an instance, and an instance keeps its fields.\<close>

lemma emptied_instance [simp]:
  "emptied n = NInstance i \<longleftrightarrow> n = NInstance i" "emptied_map n = NInstance i \<longleftrightarrow> n = NInstance i"
  by (cases n; simp)+

lemma cleared_instances:
  "node_at (cleared h D) p = Some (NInstance i) \<longleftrightarrow> node_at h p = Some (NInstance i)"
  by (auto simp: cleared_def)

lemma wiped_maps_iff:
  "m \<in> wiped_maps h D \<longleftrightarrow>
     (\<exists>p \<in> D. \<exists>i. node_at h p = Some (NInstance i) \<and> instance_free i \<and> m \<in> set (instance_maps i))"
proof -
  have "m \<in> (case node_at h p of
      Some (NInstance i) \<Rightarrow> if instance_free i then set (instance_maps i) else {} | _ \<Rightarrow> {}) \<longleftrightarrow>
    (\<exists>i. node_at h p = Some (NInstance i) \<and> instance_free i \<and> m \<in> set (instance_maps i))" for p
    by (auto split: option.split gc_node.split)
  then show ?thesis unfolding wiped_maps_def by simp
qed

lemma wiped_maps_cleared: "wiped_maps (cleared h D) E = wiped_maps h E"
  by (auto simp: wiped_maps_iff cleared_instances)

lemma cleared_cleared: "cleared (cleared h D) E = cleared h (D \<union> E)"
proof -
  have "wiped_maps h (D \<union> E) = wiped_maps h D \<union> wiped_maps h E"
    by (simp add: wiped_maps_def Un_ac)
  then have "node_at (cleared (cleared h D) E) q = node_at (cleared h (D \<union> E)) q" for q
    unfolding cleared_def [of "cleared h D"] wiped_maps_cleared by (simp add: cleared_def)
  then show ?thesis by (simp add: cleared_def fun_eq_iff)
qed

lemma clear_map_node: "clear_map m h = h\<lparr>node_at := (node_at h)(m := map_option emptied_map (node_at h m))\<rparr>"
  by (auto simp: clear_map_def fun_upd_idem split: option.split gc_node.split)

lemma clear_node_cleared: "clear_node p h = cleared h {p}"
proof (cases "\<exists>i. node_at h p = Some (NInstance i) \<and> instance_free i")
  case True
  then obtain i where i: "node_at h p = Some (NInstance i)" "instance_free i" by blast
  then have "wiped_maps h {p} = set (instance_maps i)"
    by (simp add: wiped_maps_def)
  with i show ?thesis
    by (auto simp: clear_node_def cleared_def clear_map_node instance_maps_def fun_eq_iff)
next
  case False
  then have "wiped_maps h {p} = {}"
    by (auto simp: wiped_maps_def split: option.split gc_node.split)
  with False show ?thesis
    by (auto simp: clear_node_def cleared_def fun_eq_iff split: option.split gc_node.split)
qed

lemma cleared_empty: "cleared h {} = h"
  by (simp add: cleared_def wiped_maps_def)

lemma clear_all: "fold clear_node ps h = cleared h (set ps)"
proof (induction ps arbitrary: h)
  case (Cons p ps)
  then show ?case by (simp add: clear_node_cleared cleared_cleared)
qed (simp add: cleared_empty)

lemma downgrade_ptr [simp]: "tracked_ptr (downgrade h p) = p"
  by (simp add: downgrade_def split: option.split gc_node.split)

lemma upgrade_log_distinct: "distinct ns \<Longrightarrow> distinct (upgrade_log h ns log)"
  by (induction h ns log rule: upgrade_log.induct) auto

section \<open>What is held from outside\<close>

text \<open>
  Handles to survivors are held from outside by the values \<open>frames\<close>, and through the untracked
  allocations the pass walks: class blueprints, data maps of instances and method tables. Such an
  allocation has an owner outside when its strong count exceeds the owners the pass has seen: the
  instance fields of a data map, the structs, data maps and blueprints of a method table.
\<close>

definition carried_maps :: "gc_heap \<Rightarrow> ptr list \<Rightarrow> ptr list" where
  "carried_maps h ns = concat (map (\<lambda>p. case node_at h p of
     Some (NInstance i) \<Rightarrow> if instance_free i then filter (\<lambda>m. m \<notin> set ns) (instance_maps i) else []
   | _ \<Rightarrow> []) ns)"

definition outside_maps :: "gc_heap \<Rightarrow> ptr list \<Rightarrow> ptr list" where
  "outside_maps h ns =
     filter (\<lambda>m. count_list (carried_maps h ns) m < strong h m) (remdups (carried_maps h ns))"

definition carried_tables :: "gc_heap \<Rightarrow> ptr list \<Rightarrow> ptr list" where
  "carried_tables h ns =
     remdups (method_tables_of h ns @ map (\<lambda>b. method_values (blueprint_at h b)) (blueprints_of h ns))"

definition table_owners :: "gc_heap \<Rightarrow> ptr list \<Rightarrow> ptr \<Rightarrow> nat" where
  "table_owners h ns t =
     length (filter (\<lambda>p. case node_at h p of
        Some (NStruct s) \<Rightarrow> struct_free s \<and> method_table s = Some t | _ \<Rightarrow> False) ns)
     + length (filter (\<lambda>m. data_table h m = Some t) (remdups (carried_maps h ns)))
     + length (filter (\<lambda>b. method_values (blueprint_at h b) = t) (blueprints_of h ns))"

definition outside_tables :: "gc_heap \<Rightarrow> ptr list \<Rightarrow> ptr list" where
  "outside_tables h ns = filter (\<lambda>t. table_owners h ns t < strong h t) (carried_tables h ns)"

definition map_targets :: "gc_heap \<Rightarrow> ptr set \<Rightarrow> ptr \<Rightarrow> ptr set" where
  "map_targets h S m = set (classify_all S (data_map h m))
     \<union> (\<Union>t \<in> set (opt_list (data_table h m)). table_targets h S t)"

definition outside_carried :: "gc_heap \<Rightarrow> ptr list \<Rightarrow> ptr set" where
  "outside_carried h ns = (\<Union>m \<in> set (outside_maps h ns). map_targets h (set ns) m)
     \<union> (\<Union>t \<in> set (outside_tables h ns). table_targets h (set ns) t)"

definition held_outside :: "gc_heap \<Rightarrow> ptr list \<Rightarrow> gc_value list \<Rightarrow> ptr set" where
  "held_outside h ns frames = set (classify_all (set ns) frames)
     \<union> (\<Union>b \<in> set (outside_blueprints h ns). blueprint_targets h (set ns) b)"

definition gc_reachable :: "gc_heap \<Rightarrow> ptr list \<Rightarrow> gc_value list \<Rightarrow> ptr set" where
  "gc_reachable h ns frames =
     (gc_edges h (set ns))\<^sup>* `` (held_outside h ns frames \<union> outside_carried h ns)"

text \<open>
  The pass takes an outside owner of a blueprint into account and not one of a data map or of a
  method table. It is exact when those lead to nothing that is not held outside in another way.
\<close>

definition carriers_covered :: "gc_heap \<Rightarrow> ptr list \<Rightarrow> gc_value list \<Rightarrow> bool" where
  "carriers_covered h ns frames \<longleftrightarrow>
     outside_carried h ns \<subseteq> (gc_edges h (set ns))\<^sup>* `` held_outside h ns frames"

lemma accounted_live:
  assumes "accounted h ns frames" and "carriers_covered h ns frames"
  shows "mark_live h ns = gc_reachable h ns frames"
proof -
  let ?E = "gc_edges h (set ns)"
  have "gc_seeds h ns = held_outside h ns frames"
    by (simp add: gc_seeds_eq accounted_roots [OF assms(1)] held_outside_def)
  moreover have "?E\<^sup>* `` outside_carried h ns \<subseteq> ?E\<^sup>* `` held_outside h ns frames"
  proof -
    have "?E\<^sup>* `` outside_carried h ns \<subseteq> ?E\<^sup>* `` (?E\<^sup>* `` held_outside h ns frames)"
      using assms(2) by (intro Image_mono) (simp_all add: carriers_covered_def)
    then show ?thesis by (simp add: relcomp_Image [symmetric])
  qed
  ultimately show ?thesis
    by (auto simp: mark_live_reaches gc_reachable_def)
qed

lemma card_filter_notin: "distinct ns \<Longrightarrow> length (filter (\<lambda>p. p \<notin> L) ns) = card (set ns - L)"
  by (simp add: distinct_card [symmetric] set_diff_eq)

text \<open>C2: The pass is exact. Assume that the strong count of every survivor is the number of handles to
  it held by the allocations the pass walks, each taken once, and by the values held elsewhere;
  that no allocation and no shared box (function, query column, native object) that owns a
  survivor is walked twice; and that an untracked data map or a method table with an owner
  elsewhere leads only to survivors that are held from elsewhere in another way. Then the
  survivors handed back are exactly those reachable from elsewhere, through a value, a class
  blueprint, a data map or a method table; the number returned is that of all others; and the
  heap afterwards is the heap before with exactly those others emptied: structs, arrays, queries
  and unpoisoned scopes have no content left, nor has either data map of an instance that is not
  locked, and every other node is as it was.
\<close>

theorem collect_exact:
  assumes log: "upgrade_log h [] log = ns" and acc: "accounted h ns frames"
    and cov: "carriers_covered h ns frames"
    and pass: "collect_from_log_carrying h log = (h', n, carry)"
  shows "tracked_ptr ` set carry = gc_reachable h ns frames \<and>
    n = card (set ns - gc_reachable h ns frames) \<and>
    h' = cleared h (set ns - gc_reachable h ns frames)"
proof (cases "ns = []")
  case True
  with pass log have "h' = h" "n = 0" "carry = []"
    by (simp_all add: collect_from_log_carrying_def)
  moreover have "gc_reachable h ns frames = {}"
    using mark_live_subset [of h ns] accounted_live [OF acc cov] True by simp
  ultimately show ?thesis using True by (simp add: cleared_empty)
next
  case False
  let ?R = "gc_reachable h ns frames"
  have sub: "?R \<subseteq> set ns"
    using mark_live_subset [of h ns] accounted_live [OF acc cov] by simp
  have "distinct ns" using upgrade_log_distinct [of "[]" h log] log by simp
  with False pass log have h': "h' = fold clear_node (filter (\<lambda>p. p \<notin> ?R) ns) h"
    and n: "n = card (set ns - ?R)"
    and carry: "carry = map (downgrade h) (filter (\<lambda>p. p \<in> ?R) ns)"
    by (auto simp: collect_from_log_carrying_def Let_def accounted_live [OF acc cov] card_filter_notin)
  have "tracked_ptr ` set carry = ?R"
    using sub by (auto simp: carry image_image)
  moreover have "h' = cleared h (set ns - ?R)"
    by (simp add: h' clear_all set_diff_eq)
  ultimately show ?thesis using n by blast
qed

definition plain_struct :: "gc_value list \<Rightarrow> gc_node" where
  "plain_struct vs = NStruct \<lparr>struct_map = vs, method_table = None, struct_free = True\<rparr>"

definition plain_blueprint :: "ptr \<Rightarrow> blueprint" where
  "plain_blueprint t = \<lparr>metadata = VOther, method_values = t, static_scope = None, super_handle = None,
     super_map = None, source_names = None, properties = None, metadata_cache = None\<rparr>"

definition example_heap :: "(ptr \<Rightarrow> gc_node option) \<Rightarrow> (ptr \<Rightarrow> nat) \<Rightarrow> (ptr \<Rightarrow> gc_value list) \<Rightarrow> gc_heap" where
  "example_heap nodes counts tables =
     \<lparr>node_at = nodes, strong = counts, blueprint_at = (\<lambda>_. plain_blueprint 30), table_at = tables\<rparr>"

definition member_map :: "gc_value list \<Rightarrow> gc_node" where
  "member_map vs = NStruct \<lparr>struct_map = vs, method_table = Some 30, struct_free = True\<rparr>"

definition plain_method :: gc_value where
  "plain_method = VFunction 31 (GcFunction None [] (BExpression VOther))"

definition closure_over :: "ptr \<Rightarrow> gc_value" where
  "closure_over sc = VFunction 9 (GcFunction (Some sc) [] (BExpression VOther))"

definition two_cycles_heap :: gc_heap where
  "two_cycles_heap = example_heap
     (\<lambda>p. if p = 1 then Some (plain_struct [VStruct 2]) else if p = 2 then Some (plain_struct [VStruct 1])
          else if p = 3 then Some (plain_struct [VArray 4]) else if p = 4 then Some (NArray [VStruct 3])
          else None)
     (\<lambda>p. if p = 3 then 2 else if p = 1 \<or> p = 2 \<or> p = 4 then 1 else 0) (\<lambda>_. [])"

text \<open>
  An instance at 1 of class 20 with the untracked data maps 10 and 11, in a cycle with the array
  2; a struct 3 in a cycle with the array 4 and held by a value elsewhere. The method table 30 of
  the class is also held by a cache.
\<close>

definition component_heap :: gc_heap where
  "component_heap = example_heap
     (\<lambda>p. if p = 1 then Some (NInstance \<lparr>class_ptr = 20, this_members = 10, variables_members = 11,
            native_parent = None, instance_free = True\<rparr>)
          else if p = 2 then Some (NArray [VInstance 1])
          else if p = 3 then Some (plain_struct [VArray 4]) else if p = 4 then Some (NArray [VStruct 3])
          else if p = 10 then Some (member_map [VArray 2]) else if p = 11 then Some (member_map [VOther])
          else None)
     (\<lambda>p. if p = 30 then 4 else if p = 3 \<or> p = 20 then 2
          else if p = 1 \<or> p = 2 \<or> p = 4 \<or> p = 10 \<or> p = 11 then 1 else 0)
     (\<lambda>t. if t = 30 then [plain_method] else [])"

theorem collect_exact_witness:
  "accounted component_heap [1, 2, 3, 4] [VStruct 3] \<and> outside_tables component_heap [1, 2, 3, 4] = [30] \<and>
   gc_reachable component_heap [1, 2, 3, 4] [VStruct 3] = {3, 4} \<and>
   fst (collect_from_log_carrying component_heap [TInstance 1, TArray 2, TStruct 3, TArray 4])
     = cleared component_heap {1, 2} \<and>
   data_map component_heap 10 = [VArray 2] \<and> data_map (cleared component_heap {1, 2}) 10 = []"
proof -
  let ?h = component_heap and ?log = "[TInstance 1, TArray 2, TStruct 3, TArray 4]"
  have log: "upgrade_log ?h [] ?log = [1, 2, 3, 4]" by code_simp
  have acc: "accounted ?h [1, 2, 3, 4] [VStruct 3]" by code_simp
  have tab: "outside_tables ?h [1, 2, 3, 4] = [30]" by code_simp
  have "outside_maps ?h [1, 2, 3, 4] = []" "table_targets ?h (set [1, 2, 3, 4]) 30 = {}" by code_simp+
  with tab have cov: "carriers_covered ?h [1, 2, 3, 4] [VStruct 3]"
    by (simp add: carriers_covered_def outside_carried_def)
  have res: "snd (collect_from_log_carrying ?h ?log) = (2, [TStruct 3, TArray 4])" by code_simp
  then have "collect_from_log_carrying ?h ?log
      = (fst (collect_from_log_carrying ?h ?log), 2, [TStruct 3, TArray 4])"
    by (metis prod.collapse)
  note exact = collect_exact [OF log acc cov this]
  then have reach: "gc_reachable ?h [1, 2, 3, 4] [VStruct 3] = {3, 4}" by simp
  have "set [1, 2, 3, 4] - {3, 4} = {1, 2 :: nat}" by auto
  with exact reach have "fst (collect_from_log_carrying ?h ?log) = cleared ?h {1, 2}" by simp
  moreover have "data_map ?h 10 = [VArray 2]" "data_map (cleared ?h {1, 2}) 10 = []" by code_simp+
  ultimately show ?thesis using acc tab reach by simp
qed

section \<open>Where the accounting fails\<close>

definition shared_closure_heap :: gc_heap where
  "shared_closure_heap = example_heap
     (\<lambda>p. if p = 1 then Some (plain_struct [VStruct 1, closure_over 3])
          else if p = 3 then Some (NScope False [VOther]) else None)
     (\<lambda>p. if p = 1 \<or> p = 3 then 1 else 0) (\<lambda>_. [])"

text \<open>
  A closure held both by a cyclic structure that has become garbage and by a value in use: the
  strong counts are right, the closure in use reaches its captured scope, and yet the pass clears
  that scope. The edge is counted once per holder of the closure, while the function object owns
  its scope once.
\<close>

lemma shared_closure_overcollected:
  "let h = shared_closure_heap; ns = [1, 3]; frames = [closure_over 3];
       (h', n, carry) = collect_from_log_carrying h [TStruct 1, TScope 3]
   in upgrade_log h [] [TStruct 1, TScope 3] = ns \<and>
      map (strong h) ns = map (arc_strong (ledger h ns @ frames)) ns \<and>
      3 \<in> set (classify_all (set ns) frames) \<and>
      n = 2 \<and> carry = [] \<and> node_at h' 3 = Some (NScope False [])"
  by code_simp

definition shared_map_heap :: gc_heap where
  "shared_map_heap = example_heap
     (\<lambda>p. if p = 1 then Some (NInstance \<lparr>class_ptr = 20, this_members = 2, variables_members = 3,
            native_parent = None, instance_free = True\<rparr>)
          else if p = 2 then Some (plain_struct [VInstance 1])
          else if p = 3 then Some (plain_struct [VOther]) else None)
     (\<lambda>p. if p = 3 then 2 else if p = 1 \<or> p = 2 \<or> p = 20 \<or> p = 30 then 1 else 0) (\<lambda>_. [])"

text \<open>
  A component instance whose \<open>variables\<close> map is also held by a value in use: the accounting is
  exact and the pass hands the map back as live, but clearing the instance empties it.
\<close>

lemma live_data_map_wiped:
  "let h = shared_map_heap; frames = [VStruct 3];
       (h', n, carry) = collect_from_log_carrying h [TInstance 1, TStruct 3]
   in accounted h [1, 3] frames \<and> outside_maps h [1, 3] = [] \<and> outside_tables h [1, 3] = [] \<and>
      carry = [TStruct 3] \<and> n = 1 \<and> data_map h 3 = [VOther] \<and> data_map h' 3 = []"
  by code_simp

definition outside_table_heap :: gc_heap where
  "outside_table_heap = example_heap
     (\<lambda>p. if p = 1 then Some (NStruct \<lparr>struct_map = [VStruct 1], method_table = Some 5, struct_free = True\<rparr>)
          else if p = 3 then Some (NScope False [VOther]) else None)
     (\<lambda>p. if p = 1 \<or> p = 3 then 1 else if p = 5 then 2 else 0)
     (\<lambda>t. if t = 5 then [closure_over 3] else [])"

text \<open>
  A method table with an owner outside the survivors (a class cache), unlike a blueprint, does
  not keep what its functions captured alive.
\<close>

lemma outside_table_overcollected:
  "let (h', n, carry) = collect_from_log_carrying outside_table_heap [TStruct 1, TScope 3]
   in accounted outside_table_heap [1, 3] [] \<and> outside_tables outside_table_heap [1, 3] = [5] \<and>
      3 \<in> table_targets outside_table_heap {1, 3} 5 \<and>
      n = 2 \<and> carry = [] \<and> node_at h' 3 = Some (NScope False [])"
  by code_simp

definition method_scope_heap :: gc_heap where
  "method_scope_heap = example_heap
     (\<lambda>p. if p = 1 then Some (NInstance \<lparr>class_ptr = 20, this_members = 10, variables_members = 11,
            native_parent = None, instance_free = True\<rparr>)
          else if p = 3 then Some (NScope False [VOther])
          else if p = 10 then Some (member_map [VInstance 1]) else if p = 11 then Some (member_map [])
          else None)
     (\<lambda>p. if p = 30 then 3 else if p = 3 then 2 else if p = 1 \<or> p = 10 \<or> p = 11 \<or> p = 20 then 1 else 0)
     (\<lambda>t. if t = 30 then [closure_over 3] else [])"

text \<open>
  The method table of an instance is the \<open>method_values\<close> of its class, and the pass counts its
  edges for both: a scope captured by a method and held once more by a value in use counts as
  owned from inside twice, and is cleared.
\<close>

lemma method_table_counted_twice:
  "let h = method_scope_heap; ns = [1, 3];
       frames = [VFunction 8 (GcFunction (Some 3) [] (BExpression VOther))];
       (h', n, carry) = collect_from_log_carrying h [TInstance 1, TScope 3]
   in map (strong h) ns = map (arc_strong (ledger h ns @ frames)) ns \<and>
      internal_in h ns 3 = 2 \<and> 3 \<in> set (classify_all (set ns) frames) \<and>
      n = 2 \<and> carry = [] \<and> node_at h' 3 = Some (NScope False [])"
  by code_simp

end
