(* ===== verification/Transition.thy ===== *)
theory Transition
  imports Main
begin

text \<open>
  Concurrent components as transition systems: a step relation, an initial state, and an
  invariant that holds initially and is kept by every step. The collector's bookkeeping and the
  scheduler are its instances.
\<close>

locale invariant_system =
  fixes step :: "'s \<Rightarrow> 's \<Rightarrow> bool"
    and start :: 's
    and inv :: "'s \<Rightarrow> bool"
  assumes inv_start: "inv start"
    and inv_step: "step s s' \<Longrightarrow> inv s \<Longrightarrow> inv s'"
begin

lemma inv_reachable: "step\<^sup>*\<^sup>* start s \<Longrightarrow> inv s"
  by (induction rule: rtranclp_induct) (auto intro: inv_start inv_step)

lemma inv_onwards: "step\<^sup>*\<^sup>* start s \<Longrightarrow> step\<^sup>*\<^sup>* s s' \<Longrightarrow> inv s'"
  using inv_reachable by (meson rtranclp_trans)

end

end
