(* ===== verification/Gc_Log.thy ===== *)
theory Gc_Log
  imports Cycle_Gc Transition
begin

text \<open>
  The bookkeeping around the collection pass, \<open>cfml-common/src/cycle_gc.rs\<close>: the allocation
  log of a thread with its young and old generation, the deferred logs of requests whose threads
  are still running, the set of survivors carried across requests, and the sweeps that follow the
  displacement of a generation from a persistent scope.

  The thread-local cells are the record \<open>gc_thread\<close>, the process-wide ones the record
  \<open>gc_globals\<close>. The thresholds read from the environment are the record \<open>gc_config\<close>. The heap is
  an argument of every operation that looks at it: between two operations the program may change
  it at will.
\<close>

section \<open>State\<close>

record gc_config =
  incremental_threshold :: nat
  log_cap :: nat
  persistent_base :: nat
  persistent_always :: bool
  displace_sweep_min :: nat

definition saturating :: "nat \<Rightarrow> nat" where
  "saturating n = min n usize_max"

record gc_thread =
  alloc_log :: "tracked_alloc list option"
  alloc_total :: "64 word"
  old_log :: "tracked_alloc list"
  old_set :: "ptr set"
  next_sweep :: nat
  next_major :: nat
  log_paused :: bool
  relog_seen :: "ptr set"

record persistent_set =
  entries :: "tracked_alloc list"
  seen :: "ptr set"
  next_set_sweep :: nat
  pruned_at :: nat

record deferred_entry =
  deferred_log :: "tracked_alloc list"
  joins :: "nat list"

record gc_globals =
  persistent :: "persistent_set option"
  deferred :: "deferred_entry list"
  displaced_pending :: bool
  displace_attempts :: nat
  displace_size :: nat
  displace_last_ms :: nat
  running_bodies :: "64 word"

definition PRUNE_STEP :: nat where
  "PRUNE_STEP = 10000"

definition DISPLACE_RETRY_SECS :: nat where
  "DISPLACE_RETRY_SECS = 5"

definition DISPLACE_MAX_ATTEMPTS :: nat where
  "DISPLACE_MAX_ATTEMPTS = 6"

section \<open>The log of a thread\<close>

definition enable :: "gc_config \<Rightarrow> gc_thread \<Rightarrow> gc_thread" where
  "enable cfg th = th\<lparr>alloc_log := Some [], alloc_total := 0, old_log := [], old_set := {},
     next_sweep := incremental_threshold cfg, next_major := incremental_threshold cfg,
     log_paused := False, relog_seen := {}\<rparr>"

definition disable_and_clear :: "gc_thread \<Rightarrow> gc_thread" where
  "disable_and_clear th = th\<lparr>alloc_log := None, old_log := [], old_set := {}\<rparr>"

definition relog_first_sight :: "ptr \<Rightarrow> gc_thread \<Rightarrow> bool \<times> gc_thread" where
  "relog_first_sight p th = (p \<notin> relog_seen th, th\<lparr>relog_seen := insert p (relog_seen th)\<rparr>)"

text \<open>\<open>compact_loop\<close> is the \<open>retain\<close> with the set of the addresses already kept.\<close>

fun compact_loop :: "gc_heap \<Rightarrow> ptr set \<Rightarrow> tracked_alloc list \<Rightarrow> tracked_alloc list" where
  "compact_loop h kept [] = []"
| "compact_loop h kept (t # ts) =
     (if is_alive h t \<and> tracked_ptr t \<notin> kept then t # compact_loop h (insert (tracked_ptr t) kept) ts
      else compact_loop h kept ts)"

definition compact_log :: "gc_heap \<Rightarrow> tracked_alloc list \<Rightarrow> tracked_alloc list" where
  "compact_log h v = compact_loop h {} v"

definition log_push :: "gc_config \<Rightarrow> gc_heap \<Rightarrow> tracked_alloc \<Rightarrow> gc_thread \<Rightarrow> gc_thread" where
  "log_push cfg h t th0 = (let th = th0\<lparr>alloc_total := alloc_total th0 + 1\<rparr> in
     case alloc_log th of
       None \<Rightarrow> th
     | Some v \<Rightarrow>
         if log_paused th then th
         else if log_cap cfg \<le> length v then
           (let v' = compact_log h v in
            if log_cap cfg div 4 * 3 \<le> length v' then th\<lparr>alloc_log := Some v', log_paused := True\<rparr>
            else th\<lparr>alloc_log := Some (v' @ [t])\<rparr>)
         else th\<lparr>alloc_log := Some (v @ [t])\<rparr>)"

definition take_full_log :: "gc_thread \<Rightarrow> tracked_alloc list option \<times> gc_thread" where
  "take_full_log th = (case alloc_log th of
     None \<Rightarrow> (None, th)
   | Some young \<Rightarrow>
       (Some (if old_log th = [] then young else old_log th @ young),
        th\<lparr>alloc_log := None, old_log := [], old_set := {}\<rparr>))"

section \<open>Mid-request sweeps\<close>

text \<open>Promotion: a survivor already in the old generation is not entered again.\<close>

fun promote :: "tracked_alloc list \<Rightarrow> ptr set \<times> tracked_alloc list \<Rightarrow> ptr set \<times> tracked_alloc list" where
  "promote [] acc = acc"
| "promote (t # ts) (known, old) =
     (if tracked_ptr t \<in> known then promote ts (known, old)
      else promote ts (insert (tracked_ptr t) known, old @ [t]))"

definition prune_old :: "gc_heap \<Rightarrow> nat \<Rightarrow> gc_thread \<Rightarrow> gc_thread" where
  "prune_old h budget th = (if budget \<le> length (old_log th) then
     (let o' = filter (is_alive h) (old_log th)
      in th\<lparr>old_log := o', old_set := tracked_ptr ` set o'\<rparr>)
   else th)"

text \<open>The log a sweep covers: the young entries, with the old ones when the sweep is major.\<close>

definition sweep_source ::
    "gc_heap \<Rightarrow> nat \<Rightarrow> tracked_alloc list \<Rightarrow> gc_thread \<Rightarrow> bool \<times> tracked_alloc list \<times> gc_thread" where
  "sweep_source h major_at young th = (let th1 = prune_old h major_at th in
     if major_at \<le> length (old_log th1)
     then (True, old_log th1 @ young, th1\<lparr>old_log := [], old_set := {}\<rparr>)
     else (False, young, th1))"

definition sweep_budget :: "nat \<Rightarrow> nat \<Rightarrow> nat" where
  "sweep_budget base n = (if n = usize_max then base else n)"

definition collect_incremental :: "gc_config \<Rightarrow> gc_heap \<Rightarrow> gc_thread \<Rightarrow> gc_heap \<times> gc_thread \<times> nat" where
  "collect_incremental cfg h th = (let base = incremental_threshold cfg in
     if base = 0 then (h, th, 0)
     else case alloc_log th of
       None \<Rightarrow> (h, th, 0)
     | Some young \<Rightarrow>
         if length young < sweep_budget base (next_sweep th) then (h, th, 0)
         else let (major, log, th1) = sweep_source h (sweep_budget base (next_major th)) young
                    (th\<lparr>alloc_log := Some []\<rparr>);
                  (h', reclaimed, survivors) = collect_from_log_carrying h log;
                  (known, old) = promote survivors (old_set th1, old_log th1);
                  th2 = th1\<lparr>old_set := known, old_log := old\<rparr>;
                  th3 = (if major then th2\<lparr>next_major :=
                            min (max base (saturating (2 * length old))) (log_cap cfg)\<rparr> else th2)
              in (h', th3\<lparr>next_sweep := base, relog_seen := {}\<rparr>, reclaimed))"

section \<open>The survivors carried across requests\<close>

text \<open>
  A sweep of the carried set takes the entries out, collects without the lock, and puts the rest
  back: other requests may carry survivors in between. The two halves are separate operations.
\<close>

definition empty_set :: "nat \<Rightarrow> persistent_set" where
  "empty_set base = \<lparr>entries = [], seen = {}, next_set_sweep = base, pruned_at = 0\<rparr>"

definition carry_into :: "tracked_alloc list \<Rightarrow> persistent_set \<Rightarrow> persistent_set" where
  "carry_into ts p = (let (known, es) = promote ts (seen p, entries p) in p\<lparr>seen := known, entries := es\<rparr>)"

definition prune_dead_entries :: "gc_heap \<Rightarrow> persistent_set \<Rightarrow> persistent_set" where
  "prune_dead_entries h p = (let es = filter (is_alive h) (entries p)
     in p\<lparr>entries := es, seen := tracked_ptr ` set es, pruned_at := length es\<rparr>)"

definition get_or_insert :: "nat \<Rightarrow> persistent_set option \<Rightarrow> persistent_set" where
  "get_or_insert base p = (case p of None \<Rightarrow> empty_set base | Some q \<Rightarrow> q)"

definition carry_begin ::
    "gc_config \<Rightarrow> gc_heap \<Rightarrow> tracked_alloc list \<Rightarrow> gc_globals \<Rightarrow> tracked_alloc list option \<times> gc_globals" where
  "carry_begin cfg h ts g = (if persistent_base cfg = 0 then (None, g)
     else let p = carry_into ts (get_or_insert (persistent_base cfg) (persistent g)) in
     if persistent_always cfg \<or> next_set_sweep p \<le> length (entries p) then
       (Some (entries p), g\<lparr>persistent := Some (p\<lparr>seen := {}, entries := []\<rparr>)\<rparr>)
     else if saturating (pruned_at p + PRUNE_STEP) \<le> length (entries p) then
       (None, g\<lparr>persistent := Some (prune_dead_entries h p)\<rparr>)
     else (None, g\<lparr>persistent := Some p\<rparr>))"

definition sweep_finish :: "nat \<Rightarrow> tracked_alloc list \<Rightarrow> gc_globals \<Rightarrow> gc_globals" where
  "sweep_finish base still_live g =
     (let p = carry_into still_live (get_or_insert base (persistent g))
      in g\<lparr>persistent := Some (p\<lparr>next_set_sweep := max base (saturating (2 * length still_live)),
                                 pruned_at := length (entries p)\<rparr>)\<rparr>)"

definition sweep_entries ::
    "nat \<Rightarrow> gc_heap \<Rightarrow> tracked_alloc list \<Rightarrow> gc_globals \<Rightarrow> gc_heap \<times> gc_globals \<times> nat" where
  "sweep_entries base h es g =
     (let (h', reclaimed, still_live) = collect_from_log_carrying h es
      in (h', sweep_finish base still_live g, reclaimed))"

definition carry_survivors ::
    "gc_config \<Rightarrow> gc_heap \<Rightarrow> tracked_alloc list \<Rightarrow> gc_globals \<Rightarrow> gc_heap \<times> gc_globals \<times> nat" where
  "carry_survivors cfg h ts g = (case carry_begin cfg h ts g of
     (None, g') \<Rightarrow> (h, g', 0)
   | (Some es, g') \<Rightarrow> sweep_entries (persistent_base cfg) h es g')"

definition sweep_begin :: "gc_config \<Rightarrow> gc_globals \<Rightarrow> tracked_alloc list option \<times> gc_globals" where
  "sweep_begin cfg g = (if persistent_base cfg = 0 then (None, g)
     else case persistent g of
       None \<Rightarrow> (None, g)
     | Some p \<Rightarrow> if entries p = [] then (None, g)
                else (Some (entries p), g\<lparr>persistent := Some (p\<lparr>seen := {}, entries := []\<rparr>)\<rparr>))"

definition sweep_persistent :: "gc_config \<Rightarrow> gc_heap \<Rightarrow> gc_globals \<Rightarrow> gc_heap \<times> gc_globals \<times> nat" where
  "sweep_persistent cfg h g = (case sweep_begin cfg g of
     (None, g') \<Rightarrow> (h, g', 0)
   | (Some es, g') \<Rightarrow> sweep_entries (persistent_base cfg) h es g')"

definition collect ::
    "gc_config \<Rightarrow> gc_heap \<Rightarrow> gc_thread \<Rightarrow> gc_globals \<Rightarrow> gc_heap \<times> gc_thread \<times> gc_globals \<times> nat" where
  "collect cfg h th g = (case take_full_log th of
     (None, th') \<Rightarrow> (h, th', g, 0)
   | (Some log, th') \<Rightarrow>
       (let (h', reclaimed, survivors) = collect_from_log_carrying h log;
            (h'', g', swept) = carry_survivors cfg h' survivors g
        in (h'', th'\<lparr>relog_seen := {}\<rparr>, g', reclaimed + swept)))"

section \<open>Deferred logs\<close>

definition defer_current_log :: "nat list \<Rightarrow> gc_thread \<Rightarrow> gc_globals \<Rightarrow> gc_thread \<times> gc_globals" where
  "defer_current_log js th g = (case take_full_log th of
     (Some log, th') \<Rightarrow>
       (th', if log \<noteq> [] \<and> js \<noteq> []
             then g\<lparr>deferred := deferred g @ [\<lparr>deferred_log = log, joins = js\<rparr>]\<rparr> else g)
   | (None, th') \<Rightarrow> (th', g))"

text \<open>\<open>Vec::swap_remove\<close>: the last element takes the place of the one removed.\<close>

definition swap_remove :: "nat \<Rightarrow> 'a list \<Rightarrow> 'a list" where
  "swap_remove i xs = (if Suc i = length xs then butlast xs else butlast (xs[i := last xs]))"

lemma swap_remove_length [simp]: "length (swap_remove i xs) = length xs - 1"
  by (simp add: swap_remove_def)

function ready_loop :: "('a \<Rightarrow> bool) \<Rightarrow> nat \<Rightarrow> 'a list \<Rightarrow> 'a list \<Rightarrow> 'a list \<times> 'a list" where
  "ready_loop ok i q ready = (if i < length q
     then if ok (q ! i) then ready_loop ok i (swap_remove i q) (ready @ [q ! i])
          else ready_loop ok (Suc i) q ready
     else (ready, q))"
  by pat_completeness auto

termination
  by (relation "measure (\<lambda>(ok, i, q, ready). length q - i)") auto

declare ready_loop.simps [simp del]

fun collect_logs :: "gc_heap \<Rightarrow> deferred_entry list \<Rightarrow> gc_heap \<times> nat" where
  "collect_logs h [] = (h, 0)"
| "collect_logs h (e # es) =
     (let (h', n, carry) = collect_from_log_carrying h (deferred_log e); (h'', m) = collect_logs h' es
      in (h'', n + m))"

definition collect_ready_deferred :: "(nat \<Rightarrow> bool) \<Rightarrow> gc_heap \<Rightarrow> gc_globals \<Rightarrow> gc_heap \<times> gc_globals \<times> nat" where
  "collect_ready_deferred finished h g = (if deferred g = [] then (h, g, 0)
     else let (ready, q) = ready_loop (\<lambda>e. list_all finished (joins e)) 0 (deferred g) [];
              (h', n) = collect_logs h ready
          in (h', g\<lparr>deferred := q\<rparr>, n))"

section \<open>Sweeps after a displacement\<close>

definition note_displacement :: "gc_config \<Rightarrow> nat \<Rightarrow> gc_globals \<Rightarrow> gc_globals" where
  "note_displacement cfg n g =
     (if 0 < displace_sweep_min cfg \<and> displace_sweep_min cfg \<le> n then
        if displaced_pending g then g
        else g\<lparr>displaced_pending := True, displace_attempts := 0, displace_size := n\<rparr>
      else g)"

definition sweep_if_displaced ::
    "gc_config \<Rightarrow> nat \<Rightarrow> gc_heap \<Rightarrow> gc_globals \<Rightarrow> gc_heap \<times> gc_globals \<times> nat" where
  "sweep_if_displaced cfg now h g =
     (if \<not> displaced_pending g then (h, g, 0)
      else if 0 < displace_attempts g \<and> now - displace_last_ms g < DISPLACE_RETRY_SECS * 1000 then (h, g, 0)
      else let attempts = displace_attempts g;
               g1 = g\<lparr>displace_attempts := attempts + 1, displace_last_ms := now\<rparr>;
               (h', g2, n) = sweep_persistent cfg h g1;
               target = max (displace_sweep_min cfg) (displace_size g2 div 2);
               finished = (target \<le> n \<or> DISPLACE_MAX_ATTEMPTS \<le> attempts + 1)
           in (h', if finished then g2\<lparr>displaced_pending := False\<rparr> else g2, n))"

definition body_started :: "gc_globals \<Rightarrow> gc_globals" where
  "body_started g = g\<lparr>running_bodies := running_bodies g + 1\<rparr>"

definition body_finished :: "gc_config \<Rightarrow> nat \<Rightarrow> gc_heap \<Rightarrow> gc_globals \<Rightarrow> gc_heap \<times> gc_globals" where
  "body_finished cfg now h g =
     (let (h', g', n) = sweep_if_displaced cfg now h (g\<lparr>running_bodies := running_bodies g - 1\<rparr>)
      in (h', g'))"

section \<open>The logs are sets of addresses\<close>

definition keyed :: "ptr set \<Rightarrow> tracked_alloc list \<Rightarrow> bool" where
  "keyed known ts \<longleftrightarrow> known = tracked_ptr ` set ts \<and> distinct (map tracked_ptr ts)"

definition thread_inv :: "gc_config \<Rightarrow> gc_thread \<Rightarrow> bool" where
  "thread_inv cfg th \<longleftrightarrow> keyed (old_set th) (old_log th) \<and>
     (\<forall>v. alloc_log th = Some v \<longrightarrow> length v \<le> log_cap cfg)"

definition globals_inv :: "gc_globals \<Rightarrow> bool" where
  "globals_inv g \<longleftrightarrow> (\<forall>p. persistent g = Some p \<longrightarrow> keyed (seen p) (entries p)) \<and>
     (\<forall>e \<in> set (deferred g). deferred_log e \<noteq> [] \<and> joins e \<noteq> [])"

lemma keyed_empty [simp]: "keyed {} []"
  by (simp add: keyed_def)

lemma keyed_filter: "keyed known ts \<Longrightarrow> keyed (tracked_ptr ` set (filter P ts)) (filter P ts)"
  by (simp add: keyed_def distinct_map_filter)

lemma promote_keyed:
  assumes "keyed known old" and "promote ts (known, old) = (known', old')"
  shows "keyed known' old' \<and> set old \<subseteq> set old' \<and> set old' \<subseteq> set old \<union> set ts \<and>
    tracked_ptr ` set old' = tracked_ptr ` set old \<union> tracked_ptr ` set ts"
  using assms
proof (induction ts arbitrary: known old)
  case (Cons t ts)
  show ?case
  proof (cases "tracked_ptr t \<in> known")
    case True
    with Cons.prems(2) have "promote ts (known, old) = (known', old')" by simp
    from Cons.IH [OF Cons.prems(1) this] True Cons.prems(1) show ?thesis
      by (auto simp: keyed_def)
  next
    case False
    with Cons.prems have "keyed (insert (tracked_ptr t) known) (old @ [t])"
      "promote ts (insert (tracked_ptr t) known, old @ [t]) = (known', old')"
      by (auto simp: keyed_def)
    from Cons.IH [OF this] show ?thesis by auto
  qed
qed auto

lemma compact_loop_length: "length (compact_loop h kept v) \<le> length v"
  by (induction h kept v rule: compact_loop.induct) auto

lemma compact_loop_ptrs:
  "tracked_ptr ` set (compact_loop h kept v) = {tracked_ptr t |t. t \<in> set v \<and> is_alive h t} - kept"
proof (induction h kept v rule: compact_loop.induct)
  case (2 h kept t ts)
  show ?case
  proof (cases "is_alive h t \<and> tracked_ptr t \<notin> kept")
    case True
    with 2(1) show ?thesis by auto
  next
    case False
    with 2(2) show ?thesis by auto
  qed
qed simp

lemma log_push_inv:
  assumes "thread_inv cfg th" and "0 < log_cap cfg"
  shows "thread_inv cfg (log_push cfg h t th)"
  using assms compact_loop_length [of h "{}"]
  by (auto simp: thread_inv_def log_push_def Let_def compact_log_def split: option.split)

lemma take_full_log_inv:
  "thread_inv cfg th \<Longrightarrow> thread_inv cfg (snd (take_full_log th))"
  by (auto simp: thread_inv_def take_full_log_def split: option.split)

lemma prune_old_keyed:
  "keyed (old_set th) (old_log th) \<Longrightarrow> keyed (old_set (prune_old h b th)) (old_log (prune_old h b th))"
  using keyed_filter [of "old_set th" "old_log th" "is_alive h"] by (simp add: prune_old_def Let_def)

lemma prune_old_log [simp]: "alloc_log (prune_old h b th) = alloc_log th"
  by (simp add: prune_old_def Let_def)

definition alive_ptrs :: "gc_heap \<Rightarrow> tracked_alloc list \<Rightarrow> ptr set" where
  "alive_ptrs h ts = {tracked_ptr t |t. t \<in> set ts \<and> is_alive h t}"

lemma alive_ptrs_simps [simp]:
  "alive_ptrs h [] = {}"
  "alive_ptrs h (ts @ us) = alive_ptrs h ts \<union> alive_ptrs h us"
  "alive_ptrs h (filter (is_alive h) ts) = alive_ptrs h ts"
  by (auto simp: alive_ptrs_def)

definition tracked_alive :: "gc_heap \<Rightarrow> gc_thread \<Rightarrow> ptr set" where
  "tracked_alive h th = alive_ptrs h (old_log th @ emitted (alloc_log th))"

lemma sweep_source_props:
  assumes "sweep_source h b young th = (major, log, th')" and "keyed (old_set th) (old_log th)"
  shows "keyed (old_set th') (old_log th') \<and> alloc_log th' = alloc_log th \<and>
    alive_ptrs h log \<union> alive_ptrs h (old_log th') = alive_ptrs h young \<union> alive_ptrs h (old_log th) \<and>
    set log \<subseteq> set young \<union> set (old_log th)"
proof -
  have "alive_ptrs h (old_log (prune_old h b th)) = alive_ptrs h (old_log th)"
    "set (old_log (prune_old h b th)) \<subseteq> set (old_log th)"
    by (auto simp: prune_old_def Let_def)
  then show ?thesis
    using assms prune_old_keyed [OF assms(2), of h b]
    by (auto simp: sweep_source_def Let_def split: if_splits)
qed

lemma upgrade_log_set: "set (upgrade_log h ns log) = set ns \<union> {tracked_ptr t |t. t \<in> set log \<and> upgrades h t}"
  by (induction h ns log rule: upgrade_log.induct) auto

lemma carry_ptrs:
  assumes "collect_from_log_carrying h log = (h', n, carry)"
  shows "tracked_ptr ` set carry = mark_live h (upgrade_log h [] log) \<and>
    n = card (set (upgrade_log h [] log) - mark_live h (upgrade_log h [] log))"
proof -
  let ?ns = "upgrade_log h [] log"
  have "mark_live h ?ns \<subseteq> set ?ns" by (rule mark_live_subset)
  moreover have "distinct ?ns" by (simp add: upgrade_log_distinct)
  ultimately show ?thesis
    using assms by (auto simp: collect_from_log_carrying_def Let_def card_filter_notin image_image
        split: if_splits)
qed

lemma alive_ptrs_image: "alive_ptrs h ts = {p \<in> tracked_ptr ` set ts. 0 < strong h p}"
  by (auto simp: alive_ptrs_def is_alive_def)

lemma sweep_tracks:
  assumes src: "sweep_source h b young th = (major, log, th1)"
    and keyed: "keyed (old_set th) (old_log th)"
    and kinds: "list_all (\<lambda>t. is_alive h t = upgrades h t) (old_log th @ young)"
    and pass: "collect_from_log_carrying h log = (g, r, carry)"
    and pro: "promote carry (old_set th1, old_log th1) = (known, old)"
  defines "dead \<equiv> set (upgrade_log h [] log) - mark_live h (upgrade_log h [] log)"
  shows "set log \<subseteq> set (old_log th @ young) \<and> r = card dead \<and>
    alive_ptrs h (old_log th @ young) - dead \<subseteq> alive_ptrs h old \<and>
    alive_ptrs h old \<subseteq> alive_ptrs h (old_log th @ young)"
proof -
  let ?ns = "upgrade_log h [] log"
  have k: "keyed (old_set th1) (old_log th1)"
    and alive: "alive_ptrs h log \<union> alive_ptrs h (old_log th1) = alive_ptrs h young \<union> alive_ptrs h (old_log th)"
    and sub: "set log \<subseteq> set young \<union> set (old_log th)"
    using sweep_source_props [OF src keyed] by auto
  have old: "tracked_ptr ` set old = tracked_ptr ` set (old_log th1) \<union> tracked_ptr ` set carry"
    using promote_keyed [OF k pro] by auto
  have ns: "set ?ns = alive_ptrs h log"
    using kinds sub by (auto simp: upgrade_log_set alive_ptrs_def list_all_iff)
  have c: "tracked_ptr ` set carry = mark_live h ?ns" "r = card dead"
    using carry_ptrs [OF pass] by (auto simp: dead_def)
  have "mark_live h ?ns \<subseteq> alive_ptrs h log"
    using mark_live_subset [of h ?ns] ns by simp
  then have "alive_ptrs h old = alive_ptrs h (old_log th1) \<union> mark_live h ?ns"
    using old c(1) by (auto simp: alive_ptrs_image)
  with alive ns sub c(2) mark_live_subset [of h ?ns] show ?thesis
    unfolding dead_def by auto
qed

lemma collect_incremental_idle:
  assumes "incremental_threshold cfg = 0 \<or> alloc_log th = None \<or>
      length (emitted (alloc_log th)) < sweep_budget (incremental_threshold cfg) (next_sweep th)"
  shows "collect_incremental cfg h th = (h, th, 0)"
  using assms by (cases "alloc_log th") (auto simp: collect_incremental_def Let_def)

lemma collect_incremental_sweep:
  assumes "\<not> (incremental_threshold cfg = 0 \<or> alloc_log th = None \<or>
      length (emitted (alloc_log th)) < sweep_budget (incremental_threshold cfg) (next_sweep th))"
    and "thread_inv cfg th"
  obtains young major log th1 g r carry known old th' where
    "alloc_log th = Some young"
    "sweep_source h (sweep_budget (incremental_threshold cfg) (next_major th)) young
       (th\<lparr>alloc_log := Some []\<rparr>) = (major, log, th1)"
    "keyed (old_set th1) (old_log th1)"
    "collect_from_log_carrying h log = (g, r, carry)"
    "promote carry (old_set th1, old_log th1) = (known, old)"
    "collect_incremental cfg h th = (g, th', r)"
    "old_log th' = old" "old_set th' = known" "alloc_log th' = Some []"
proof -
  let ?b = "sweep_budget (incremental_threshold cfg) (next_major th)"
  obtain young where young: "alloc_log th = Some young" using assms(1) by auto
  obtain major log th1 where src: "sweep_source h ?b young (th\<lparr>alloc_log := Some []\<rparr>) = (major, log, th1)"
    by (cases "sweep_source h ?b young (th\<lparr>alloc_log := Some []\<rparr>)")
  obtain g r carry where pass: "collect_from_log_carrying h log = (g, r, carry)"
    by (cases "collect_from_log_carrying h log")
  obtain known old where pro: "promote carry (old_set th1, old_log th1) = (known, old)"
    by (cases "promote carry (old_set th1, old_log th1)")
  obtain th' where sweep: "collect_incremental cfg h th = (g, th', r)"
    and th': "old_log th' = old" "old_set th' = known" "alloc_log th' = alloc_log th1"
    using assms(1) young src pass pro by (simp add: collect_incremental_def Let_def)
  have th1: "keyed (old_set th1) (old_log th1)" "alloc_log th1 = Some []"
    using sweep_source_props [OF src] assms(2) by (simp_all add: thread_inv_def)
  from that [OF young src th1(1) pass pro sweep th'(1,2)] th'(3) th1(2) show thesis by simp
qed

text \<open>C12: A mid-request sweep loses track of nothing but what it reclaims: it reclaims a set of
  nodes that the pass found unreachable, as many as it reports, and every other live node of the
  two generations is still in one of them afterwards; nothing else is added.
\<close>

theorem incremental_keeps_tracking:
  assumes inv: "thread_inv cfg th"
    and kinds: "list_all (\<lambda>t. is_alive h t = upgrades h t) (old_log th @ emitted (alloc_log th))"
    and sweep: "collect_incremental cfg h th = (h', th', n)"
  shows "\<exists>log. set log \<subseteq> set (old_log th @ emitted (alloc_log th)) \<and>
    (let ns = upgrade_log h [] log; dead = set ns - mark_live h ns
     in n = card dead \<and> tracked_alive h th - dead \<subseteq> tracked_alive h th' \<and>
        tracked_alive h th' \<subseteq> tracked_alive h th)"
proof (cases "incremental_threshold cfg = 0 \<or> alloc_log th = None \<or>
    length (emitted (alloc_log th)) < sweep_budget (incremental_threshold cfg) (next_sweep th)")
  case True
  from collect_incremental_idle [OF this] sweep have "th' = th" "n = 0" by auto
  then show ?thesis by (intro exI [of _ "[]"]) (simp add: Let_def)
next
  case False
  obtain young major log th1 g r carry known old th'' where young: "alloc_log th = Some young"
    and src: "sweep_source h (sweep_budget (incremental_threshold cfg) (next_major th)) young
       (th\<lparr>alloc_log := Some []\<rparr>) = (major, log, th1)"
    and th1: "keyed (old_set th1) (old_log th1)"
    and pass: "collect_from_log_carrying h log = (g, r, carry)"
    and pro: "promote carry (old_set th1, old_log th1) = (known, old)"
    and sweep': "collect_incremental cfg h th = (g, th'', r)"
    and th': "old_log th'' = old" "old_set th'' = known" "alloc_log th'' = Some []"
    by (rule collect_incremental_sweep [OF False inv, of h])
  have eq: "th' = th''" "n = r" using sweep sweep' by auto
  from sweep_tracks [OF src _ _ pass pro] inv kinds young show ?thesis
    by (intro exI [of _ log]) (simp add: Let_def tracked_alive_def th' eq thread_inv_def)
qed

definition small_config :: gc_config where
  "small_config = \<lparr>incremental_threshold = 2, log_cap = 100, persistent_base = 2,
     persistent_always = False, displace_sweep_min = 3\<rparr>"

definition young_thread :: gc_thread where
  "young_thread = \<lparr>alloc_log = Some [TStruct 2, TStruct 3], alloc_total = 4,
     old_log = [TStruct 1, TArray 4], old_set = {1, 4}, next_sweep = 2, next_major = 2,
     log_paused = False, relog_seen = {}\<rparr>"

theorem incremental_keeps_tracking_witness:
  "\<exists>h' th' log. collect_incremental small_config two_cycles_heap young_thread = (h', th', 2) \<and>
     set log \<subseteq> {TStruct 1, TStruct 2, TStruct 3, TArray 4} \<and>
     (let ns = upgrade_log two_cycles_heap [] log; dead = set ns - mark_live two_cycles_heap ns
      in 2 = card dead \<and> {1, 2, 3, 4} - dead \<subseteq> tracked_alive two_cycles_heap th' \<and>
         tracked_alive two_cycles_heap th' \<subseteq> {1, 2, 3, 4})"
proof -
  let ?h = two_cycles_heap and ?th = young_thread
  have inv: "thread_inv small_config ?th"
    by (simp add: thread_inv_def keyed_def young_thread_def small_config_def)
  have kinds: "list_all (\<lambda>t. is_alive ?h t = upgrades ?h t) (old_log ?th @ emitted (alloc_log ?th))"
    by code_simp
  have "snd (collect_from_log_carrying ?h [TStruct 1, TArray 4, TStruct 2, TStruct 3])
      = (2, [TArray 4, TStruct 3])"
    by code_simp
  then obtain g where pass: "collect_from_log_carrying ?h [TStruct 1, TArray 4, TStruct 2, TStruct 3]
      = (g, 2, [TArray 4, TStruct 3])"
    by (metis prod.collapse)
  have alive4: "filter (is_alive ?h) [TStruct 1, TArray 4] = [TStruct 1, TArray 4]" by code_simp
  obtain h' th' where sweep: "collect_incremental small_config ?h ?th = (h', th', 2)"
    using pass alive4
    by (simp add: collect_incremental_def Let_def young_thread_def small_config_def sweep_source_def
        prune_old_def sweep_budget_def usize_max_def)
  have alive: "tracked_alive ?h ?th = {1, 2, 3, 4}"
    by (auto simp: tracked_alive_def alive_ptrs_image young_thread_def two_cycles_heap_def example_heap_def)
  have logs: "set (old_log ?th @ emitted (alloc_log ?th)) = {TStruct 1, TStruct 2, TStruct 3, TArray 4}"
    by (auto simp: young_thread_def)
  from incremental_keeps_tracking [OF inv kinds sweep, unfolded alive logs] sweep show ?thesis
    by blast
qed

section \<open>Every interleaving keeps the bookkeeping consistent\<close>

text \<open>
  The threads of the process with their logs, the process-wide state, and the entry lists that
  sweeps of the carried set have taken out and not yet put back. Every step is one operation on
  one thread, on a heap that is not constrained.
\<close>

record gc_world =
  threads :: "nat \<Rightarrow> gc_thread"
  globals :: gc_globals
  in_flight :: "tracked_alloc list list"

definition on_thread :: "nat \<Rightarrow> gc_thread \<Rightarrow> gc_world \<Rightarrow> gc_world" where
  "on_thread i th w = w\<lparr>threads := (threads w)(i := th)\<rparr>"

definition take_out :: "tracked_alloc list option \<times> gc_globals \<Rightarrow> gc_world \<Rightarrow> gc_world" where
  "take_out r w = w\<lparr>globals := snd r, in_flight := opt_list (fst r) @ in_flight w\<rparr>"

inductive gc_step :: "gc_config \<Rightarrow> gc_world \<Rightarrow> gc_world \<Rightarrow> bool" for cfg where
  Enable: "gc_step cfg w (on_thread i (enable cfg (threads w i)) w)"
| Disable: "gc_step cfg w (on_thread i (disable_and_clear (threads w i)) w)"
| Push: "gc_step cfg w (on_thread i (log_push cfg h t (threads w i)) w)"
| Relog: "gc_step cfg w (on_thread i (snd (relog_first_sight p (threads w i))) w)"
| Incremental: "collect_incremental cfg h (threads w i) = (h', th', n) \<Longrightarrow>
    gc_step cfg w (on_thread i th' w)"
| Collect: "take_full_log (threads w i) = (Some log, th') \<Longrightarrow>
    collect_from_log_carrying h log = (h', n, carry) \<Longrightarrow>
    gc_step cfg w (take_out (carry_begin cfg h' carry (globals w)) (on_thread i (th'\<lparr>relog_seen := {}\<rparr>) w))"
| Sweep: "gc_step cfg w (take_out (sweep_begin cfg (globals w)) w)"
| Put_back: "es \<in> set (in_flight w) \<Longrightarrow> collect_from_log_carrying h es = (h', n, carry) \<Longrightarrow>
    gc_step cfg w (w\<lparr>globals := sweep_finish (persistent_base cfg) carry (globals w),
      in_flight := remove1 es (in_flight w)\<rparr>)"
| Defer: "defer_current_log js (threads w i) (globals w) = (th', g') \<Longrightarrow>
    gc_step cfg w ((on_thread i th' w)\<lparr>globals := g'\<rparr>)"
| Ready: "collect_ready_deferred finished h (globals w) = (h', g', n) \<Longrightarrow> gc_step cfg w (w\<lparr>globals := g'\<rparr>)"
| Displace: "gc_step cfg w (w\<lparr>globals := note_displacement cfg n (globals w)\<rparr>)"

inductive_cases gc_stepE: "gc_step cfg w w'"

definition fresh_thread :: gc_thread where
  "fresh_thread = \<lparr>alloc_log = None, alloc_total = 0, old_log = [], old_set = {}, next_sweep = usize_max,
     next_major = usize_max, log_paused = False, relog_seen = {}\<rparr>"

definition initial_world :: gc_world where
  "initial_world = \<lparr>threads = (\<lambda>_. fresh_thread),
     globals = \<lparr>persistent = None, deferred = [], displaced_pending = False, displace_attempts = 0,
       displace_size = 0, displace_last_ms = 0, running_bodies = 0\<rparr>,
     in_flight = []\<rparr>"

definition world_inv :: "gc_config \<Rightarrow> gc_world \<Rightarrow> bool" where
  "world_inv cfg w \<longleftrightarrow> (\<forall>i. thread_inv cfg (threads w i)) \<and> globals_inv (globals w)"

lemma collect_incremental_inv:
  assumes inv: "thread_inv cfg th" and sweep: "collect_incremental cfg h th = (h', th', n)"
  shows "thread_inv cfg th'"
proof (cases "incremental_threshold cfg = 0 \<or> alloc_log th = None \<or>
    length (emitted (alloc_log th)) < sweep_budget (incremental_threshold cfg) (next_sweep th)")
  case True
  from collect_incremental_idle [OF this] sweep inv show ?thesis by auto
next
  case False
  obtain young major log th1 g r carry known old th'' where young: "alloc_log th = Some young"
    and src: "sweep_source h (sweep_budget (incremental_threshold cfg) (next_major th)) young
       (th\<lparr>alloc_log := Some []\<rparr>) = (major, log, th1)"
    and th1: "keyed (old_set th1) (old_log th1)"
    and pass: "collect_from_log_carrying h log = (g, r, carry)"
    and pro: "promote carry (old_set th1, old_log th1) = (known, old)"
    and sweep': "collect_incremental cfg h th = (g, th'', r)"
    and th': "old_log th'' = old" "old_set th'' = known" "alloc_log th'' = Some []"
    by (rule collect_incremental_sweep [OF False inv, of h])
  from promote_keyed [OF th1 pro] th' sweep sweep' show ?thesis
    by (simp add: thread_inv_def)
qed

lemma carry_into_keyed:
  "keyed (seen p) (entries p) \<Longrightarrow> keyed (seen (carry_into ts p)) (entries (carry_into ts p))"
  using promote_keyed [of "seen p" "entries p" ts]
  by (auto simp: carry_into_def split: prod.split)

lemma get_or_insert_keyed:
  "globals_inv g \<Longrightarrow> keyed (seen (get_or_insert base (persistent g))) (entries (get_or_insert base (persistent g)))"
  by (auto simp: globals_inv_def get_or_insert_def empty_set_def split: option.split)

lemma carried_keyed:
  "globals_inv g \<Longrightarrow> keyed (seen (carry_into ts (get_or_insert base (persistent g))))
     (entries (carry_into ts (get_or_insert base (persistent g))))"
  by (intro carry_into_keyed get_or_insert_keyed)

lemma prune_dead_keyed:
  "keyed (seen p) (entries p) \<Longrightarrow> keyed (seen (prune_dead_entries h p)) (entries (prune_dead_entries h p))"
  using keyed_filter [of "seen p" "entries p" "is_alive h"] by (simp add: prune_dead_entries_def Let_def)

lemma globals_inv_persistent:
  "globals_inv g \<Longrightarrow> keyed (seen p) (entries p) \<Longrightarrow> globals_inv (g\<lparr>persistent := Some p\<rparr>)"
  by (simp add: globals_inv_def)

lemma carry_begin_inv:
  assumes "globals_inv g"
  shows "globals_inv (snd (carry_begin cfg h ts g))"
proof -
  let ?p = "carry_into ts (get_or_insert (persistent_base cfg) (persistent g))"
  have k: "keyed (seen ?p) (entries ?p)" by (rule carried_keyed [OF assms])
  have "globals_inv (g\<lparr>persistent := Some (?p\<lparr>seen := {}, entries := []\<rparr>)\<rparr>)"
    "globals_inv (g\<lparr>persistent := Some (prune_dead_entries h ?p)\<rparr>)"
    "globals_inv (g\<lparr>persistent := Some ?p\<rparr>)"
    using k by (auto intro: globals_inv_persistent [OF assms] prune_dead_keyed)
  then show ?thesis using assms by (simp add: carry_begin_def Let_def)
qed

lemma sweep_begin_inv: "globals_inv g \<Longrightarrow> globals_inv (snd (sweep_begin cfg g))"
  by (auto simp: sweep_begin_def intro: globals_inv_persistent split: option.split)

lemma sweep_finish_inv: "globals_inv g \<Longrightarrow> globals_inv (sweep_finish base ts g)"
  unfolding sweep_finish_def Let_def
  by (rule globals_inv_persistent, assumption) (simp add: carried_keyed)

lemma globals_inv_cong:
  "persistent g' = persistent g \<Longrightarrow> set (deferred g') \<subseteq> set (deferred g) \<Longrightarrow> globals_inv g \<Longrightarrow> globals_inv g'"
  by (auto simp: globals_inv_def)

lemma defer_inv:
  assumes "defer_current_log js th g = (th', g')" and "thread_inv cfg th" and "globals_inv g"
  shows "thread_inv cfg th' \<and> globals_inv g'"
proof -
  obtain r th1 where take: "take_full_log th = (r, th1)" by (cases "take_full_log th")
  with take_full_log_inv [OF assms(2)] have "thread_inv cfg th1" by simp
  with take assms(1,3) show ?thesis
    by (auto simp: defer_current_log_def globals_inv_def split: option.splits if_splits)
qed

section \<open>Deferred logs are collected once\<close>

lemma mset_swap_remove: "i < length q \<Longrightarrow> add_mset (q ! i) (mset (swap_remove i q)) = mset q"
proof -
  assume i: "i < length q"
  then have q: "q = butlast q @ [last q]" by (metis append_butlast_last_id length_0_conv not_less0)
  show ?thesis
  proof (cases "Suc i = length q")
    case True
    then have "q ! i = last q" using i by (metis diff_Suc_1 last_conv_nth length_0_conv not_less0)
    with True show ?thesis by (subst (3) q) (simp add: swap_remove_def)
  next
    case False
    with i have lt: "i < length (butlast q)" by simp
    have "butlast (q[i := last q]) = (butlast q)[i := last q]"
      using lt by (simp add: butlast_list_update)
    moreover have "q ! i = butlast q ! i" using lt by (simp add: nth_butlast)
    moreover have "add_mset (butlast q ! i) (mset ((butlast q)[i := last q])) = add_mset (last q) (mset (butlast q))"
      using lt by (simp add: mset_update)
    ultimately show ?thesis using False by (subst (3) q) (simp add: swap_remove_def)
  qed
qed

lemma take_swap_remove: "i < length q \<Longrightarrow> take i (swap_remove i q) = take i q"
  by (cases "Suc i = length q") (auto simp: swap_remove_def take_butlast butlast_conv_take)

lemma ready_loop_partition:
  assumes "ready_loop ok i q ready = (r, q')" and "list_all (\<lambda>x. \<not> ok x) (take i q)"
  shows "mset r = mset ready + filter_mset ok (mset q) \<and> mset q' = filter_mset (\<lambda>x. \<not> ok x) (mset q)"
  using assms
proof (induction ok i q ready arbitrary: r q' rule: ready_loop.induct)
  case (1 ok i q ready)
  show ?case
  proof (cases "i < length q")
    case False
    with 1(3,4) have "r = ready" "q' = q" "\<forall>x \<in> set q. \<not> ok x"
      by (simp_all add: ready_loop.simps [of ok i q] list_all_iff)
    then show ?thesis
      by (metis (no_types, lifting) add.right_neutral filter_mset_False filter_mset_True
          filter_mset_cong set_mset_mset)
  next
    case True
    note i = this
    show ?thesis
    proof (cases "ok (q ! i)")
      case True
      with 1(3) i have "ready_loop ok i (swap_remove i q) (ready @ [q ! i]) = (r, q')"
        by (simp add: ready_loop.simps [of ok i q])
      from 1(1) [OF i True this] 1(4) i True mset_swap_remove [OF i] show ?thesis
        by (auto simp: take_swap_remove simp flip: mset_swap_remove [OF i])
    next
      case False
      with 1(3) i have "ready_loop ok (Suc i) q ready = (r, q')"
        by (simp add: ready_loop.simps [of ok i q])
      from 1(2) [OF i False this] 1(4) i False show ?thesis
        by (simp add: take_Suc_conv_app_nth)
    qed
  qed
qed

text \<open>C20: Sweeping the deferred logs: the logs whose threads have all finished are collected, each
  exactly once, and exactly the others stay in the queue, whatever order the in-place removal
  leaves them in. The survivors of these logs are not carried across requests.
\<close>

theorem ready_deferred_partition:
  "\<exists>ready. mset ready = filter_mset (\<lambda>e. list_all finished (joins e)) (mset (deferred g)) \<and>
     (let (h', g', n) = collect_ready_deferred finished h g
      in collect_logs h ready = (h', n) \<and> persistent g' = persistent g \<and>
         mset (deferred g') = filter_mset (\<lambda>e. \<not> list_all finished (joins e)) (mset (deferred g)))"
proof -
  let ?ok = "\<lambda>e. list_all finished (joins e)"
  obtain ready q where r: "ready_loop ?ok 0 (deferred g) [] = (ready, q)"
    by (cases "ready_loop ?ok 0 (deferred g) []")
  obtain h' n where c: "collect_logs h ready = (h', n)" by (cases "collect_logs h ready")
  have p: "mset ready = filter_mset ?ok (mset (deferred g))"
    "mset q = filter_mset (\<lambda>e. \<not> ?ok e) (mset (deferred g))"
    using ready_loop_partition [OF r] by auto
  show ?thesis
  proof (cases "deferred g = []")
    case True
    with r have "ready = []" by (simp add: ready_loop.simps)
    with True c show ?thesis by (intro exI [of _ "[]"]) (simp add: collect_ready_deferred_def)
  next
    case False
    with r c p show ?thesis by (intro exI [of _ ready]) (simp add: collect_ready_deferred_def)
  qed
qed

lemma ready_inv:
  assumes "collect_ready_deferred finished h g = (h', g', n)" and "globals_inv g"
  shows "globals_inv g'"
proof (rule globals_inv_cong [OF _ _ assms(2)])
  obtain ready q where r: "ready_loop (\<lambda>e. list_all finished (joins e)) 0 (deferred g) [] = (ready, q)"
    by (cases "ready_loop (\<lambda>e. list_all finished (joins e)) 0 (deferred g) []")
  have "mset q = filter_mset (\<lambda>e. \<not> list_all finished (joins e)) (mset (deferred g))"
    using ready_loop_partition [OF r] by simp
  then have "set q \<subseteq> set (deferred g)"
    by (metis mset_filter set_mset_mset filter_is_subset)
  then show "set (deferred g') \<subseteq> set (deferred g)" "persistent g' = persistent g"
    using assms(1) r by (auto simp: collect_ready_deferred_def split: if_splits prod.splits)
qed

lemma world_inv_thread:
  "world_inv cfg w \<Longrightarrow> thread_inv cfg th \<Longrightarrow> world_inv cfg (on_thread i th w)"
  by (simp add: world_inv_def on_thread_def)

lemma world_inv_globals:
  "world_inv cfg w \<Longrightarrow> globals_inv g \<Longrightarrow> world_inv cfg (w\<lparr>globals := g\<rparr>)"
  "world_inv cfg w \<Longrightarrow> globals_inv g \<Longrightarrow> world_inv cfg (w\<lparr>globals := g, in_flight := es\<rparr>)"
  by (simp_all add: world_inv_def)

lemma thread_ops_inv:
  assumes "thread_inv cfg th"
  shows "thread_inv cfg (enable cfg th)" "thread_inv cfg (disable_and_clear th)"
    "thread_inv cfg (snd (relog_first_sight p th))" "thread_inv cfg (th\<lparr>relog_seen := {}\<rparr>)"
  using assms
  by (simp_all add: enable_def disable_and_clear_def relog_first_sight_def thread_inv_def)

lemma note_displacement_inv: "globals_inv g \<Longrightarrow> globals_inv (note_displacement cfg n g)"
  by (simp add: note_displacement_def globals_inv_def)

lemma gc_step_inv:
  assumes "gc_step cfg w w'" and inv: "world_inv cfg w" and cap: "0 < log_cap cfg"
  shows "world_inv cfg w'"
  using assms(1)
proof cases
  have th: "thread_inv cfg (threads w i)" for i using inv by (simp add: world_inv_def)
  have gl: "globals_inv (globals w)" using inv by (simp add: world_inv_def)
  note thread = world_inv_thread [OF inv] and glob = world_inv_globals [OF inv]
  {
    case (Enable i)
    then show ?thesis using thread thread_ops_inv(1) [OF th] by simp
  next
    case (Disable i)
    then show ?thesis using thread thread_ops_inv(2) [OF th] by simp
  next
    case (Push i h t)
    then show ?thesis using thread log_push_inv [OF th cap] by simp
  next
    case (Relog i p)
    then show ?thesis using thread thread_ops_inv(3) [OF th] by simp
  next
    case (Incremental h i h' th' n)
    then show ?thesis using thread collect_incremental_inv [OF th Incremental(2)] by simp
  next
    case (Collect i log th' h h' n carry)
    have "thread_inv cfg th'" using take_full_log_inv [OF th, of i] Collect(2) by simp
    from thread [OF thread_ops_inv(4) [OF this], of i] carry_begin_inv [OF gl, of cfg h' carry]
    show ?thesis unfolding Collect(1) take_out_def by (rule world_inv_globals(2))
  next
    case Sweep
    then show ?thesis unfolding take_out_def using glob(2) sweep_begin_inv [OF gl] by simp
  next
    case (Put_back es h h' n carry)
    then show ?thesis using glob(2) sweep_finish_inv [OF gl] by simp
  next
    case (Defer js i th' g')
    from defer_inv [OF Defer(2) th gl] show ?thesis
      unfolding Defer(1) by (auto intro: world_inv_globals thread)
  next
    case (Ready finished h h' g' n)
    then show ?thesis using glob(1) ready_inv [OF Ready(2) gl] by simp
  next
    case (Displace n)
    then show ?thesis using glob(1) note_displacement_inv [OF gl] by simp
  }
qed

interpretation gc: invariant_system "gc_step cfg" initial_world "\<lambda>w. 0 < log_cap cfg \<longrightarrow> world_inv cfg w" for cfg
proof unfold_locales
  show "0 < log_cap cfg \<longrightarrow> world_inv cfg initial_world"
    by (simp add: world_inv_def initial_world_def fresh_thread_def thread_inv_def globals_inv_def)
next
  fix w w'
  assume "gc_step cfg w w'" and "0 < log_cap cfg \<longrightarrow> world_inv cfg w"
  then show "0 < log_cap cfg \<longrightarrow> world_inv cfg w'" using gc_step_inv by blast
qed

text \<open>C6: In every state that any interleaving of the collector's operations can reach, over heaps
  that change arbitrarily in between: the old generation of every thread and the set carried
  across requests hold each address once, and their address sets are exactly the addresses of
  their entries; the young log of every thread is within its cap; and no deferred log is empty or
  waits for no thread.
\<close>

theorem gc_bookkeeping_invariant:
  assumes "(gc_step cfg)\<^sup>*\<^sup>* initial_world w" and "0 < log_cap cfg"
  shows "world_inv cfg w"
  using gc.inv_reachable [OF assms(1)] assms(2) by blast

theorem gc_bookkeeping_invariant_witness:
  "\<exists>w. (gc_step small_config)\<^sup>*\<^sup>* initial_world w \<and> alloc_log (threads w 0) = Some [TStruct 1] \<and>
     world_inv small_config w"
proof -
  let ?w1 = "on_thread 0 (enable small_config (threads initial_world 0)) initial_world"
  let ?w2 = "on_thread 0 (log_push small_config two_cycles_heap (TStruct 1) (threads ?w1 0)) ?w1"
  have "gc_step small_config initial_world ?w1" "gc_step small_config ?w1 ?w2"
    by (rule gc_step.Enable, rule gc_step.Push)
  then have reach: "(gc_step small_config)\<^sup>*\<^sup>* initial_world ?w2" by simp
  moreover have "alloc_log (threads ?w2 0) = Some [TStruct 1]"
    by (simp add: on_thread_def enable_def log_push_def Let_def small_config_def)
  moreover have "world_inv small_config ?w2"
    by (rule gc_bookkeeping_invariant [OF reach]) (simp add: small_config_def)
  ultimately show ?thesis by blast
qed

section \<open>A displacement is settled after finitely many sweeps\<close>

text \<open>Calls of \<open>sweep_if_displaced\<close> at successive times, on whatever heap there is then.\<close>

fun sweep_calls :: "gc_config \<Rightarrow> (nat \<times> gc_heap) list \<Rightarrow> gc_globals \<Rightarrow> gc_globals" where
  "sweep_calls cfg [] g = g"
| "sweep_calls cfg ((now, h) # cs) g = sweep_calls cfg cs (fst (snd (sweep_if_displaced cfg now h g)))"

fun spaced :: "nat \<Rightarrow> nat list \<Rightarrow> bool" where
  "spaced earlier [] = True"
| "spaced earlier (now # ts) = (earlier + DISPLACE_RETRY_SECS * 1000 \<le> now \<and> spaced now ts)"

definition same_displacement :: "gc_globals \<Rightarrow> gc_globals \<Rightarrow> bool" where
  "same_displacement g g' \<longleftrightarrow> displaced_pending g' = displaced_pending g \<and>
     displace_attempts g' = displace_attempts g \<and> displace_size g' = displace_size g \<and>
     displace_last_ms g' = displace_last_ms g"

lemma sweep_persistent_displacement:
  "same_displacement g (fst (snd (sweep_persistent cfg h g)))"
  by (auto simp: sweep_persistent_def sweep_begin_def sweep_entries_def sweep_finish_def
      same_displacement_def Let_def split: option.split prod.split)

lemma sweep_idle: "\<not> displaced_pending g \<Longrightarrow> sweep_calls cfg cs g = g"
  by (induction cfg cs g rule: sweep_calls.induct) (simp_all add: sweep_if_displaced_def)

text \<open>One call outside the retry window makes one attempt, and the last one settles it.\<close>

lemma sweep_attempt:
  fixes g :: gc_globals and cfg :: gc_config and h :: gc_heap
  assumes "displaced_pending g" and "displace_last_ms g + DISPLACE_RETRY_SECS * 1000 \<le> now"
  defines "g' \<equiv> fst (snd (sweep_if_displaced cfg now h g))"
  shows "displace_attempts g' = Suc (displace_attempts g) \<and> displace_last_ms g' = now \<and>
    (DISPLACE_MAX_ATTEMPTS \<le> Suc (displace_attempts g) \<longrightarrow> \<not> displaced_pending g')"
proof -
  let ?g1 = "g\<lparr>displace_attempts := displace_attempts g + 1, displace_last_ms := now\<rparr>"
  have "\<not> (now - displace_last_ms g < DISPLACE_RETRY_SECS * 1000)" using assms(2) by simp
  with assms(1) sweep_persistent_displacement [of ?g1 cfg h] show ?thesis
    by (auto simp: g'_def sweep_if_displaced_def same_displacement_def Let_def split: prod.splits)
qed

lemma sweeps_settle:
  assumes "displace_attempts g + length cs = DISPLACE_MAX_ATTEMPTS" and "cs \<noteq> []"
    and "spaced (displace_last_ms g) (map fst cs)"
  shows "\<not> displaced_pending (sweep_calls cfg cs g)"
  using assms
proof (induction cs arbitrary: g)
  case (Cons c cs)
  obtain now h where c: "c = (now, h)" by (cases c)
  show ?case
  proof (cases "displaced_pending g")
    case False
    then show ?thesis using sweep_idle by simp
  next
    case True
    let ?g' = "fst (snd (sweep_if_displaced cfg now h g))"
    have step: "displace_attempts ?g' = Suc (displace_attempts g)" "displace_last_ms ?g' = now"
      "DISPLACE_MAX_ATTEMPTS \<le> Suc (displace_attempts g) \<Longrightarrow> \<not> displaced_pending ?g'"
      using sweep_attempt [OF True, of now cfg h] Cons.prems(3) c by auto
    show ?thesis
    proof (cases "cs = []")
      case True
      with step(3) Cons.prems(1) c show ?thesis by simp
    next
      case False
      with Cons.IH [of ?g'] step(1,2) Cons.prems c show ?thesis by simp
    qed
  qed
qed simp

lemma sweep_calls_append: "sweep_calls cfg (cs @ ds) g = sweep_calls cfg ds (sweep_calls cfg cs g)"
  by (induction cfg cs g rule: sweep_calls.induct) simp_all

lemma spaced_append: "spaced t (xs @ ys) \<Longrightarrow> spaced t xs"
  by (induction xs arbitrary: t) auto

text \<open>C19: A displaced generation is not swept for ever, and is not forgotten either: after
  \<open>note_displacement\<close>, once \<open>sweep_if_displaced\<close> has been called six times at least five seconds
  apart, whatever the heap holds, the request is settled and further calls do nothing.
\<close>

theorem displacement_settles:
  assumes "DISPLACE_MAX_ATTEMPTS \<le> length cs"
    and "spaced (displace_last_ms g) (map fst cs)"
    and "\<not> displaced_pending g"
  shows "\<not> displaced_pending (sweep_calls cfg cs (note_displacement cfg n g)) \<and>
    sweep_calls cfg (cs @ ds) (note_displacement cfg n g) = sweep_calls cfg cs (note_displacement cfg n g)"
proof -
  let ?g = "note_displacement cfg n g"
  let ?six = "take DISPLACE_MAX_ATTEMPTS cs"
  have "\<not> displaced_pending (sweep_calls cfg ?six ?g)"
  proof (cases "displaced_pending ?g")
    case False
    then show ?thesis using sweep_idle by simp
  next
    case True
    then have "displace_attempts ?g = 0" "displace_last_ms ?g = displace_last_ms g"
      using assms(3) by (auto simp: note_displacement_def split: if_splits)
    moreover have "map fst cs = map fst ?six @ map fst (drop DISPLACE_MAX_ATTEMPTS cs)"
      by (simp flip: map_append)
    then have "spaced (displace_last_ms g) (map fst ?six)"
      using assms(2) spaced_append by metis
    moreover have "?six \<noteq> []" using assms(1) by (auto simp: DISPLACE_MAX_ATTEMPTS_def)
    ultimately show ?thesis using assms(1) by (intro sweeps_settle) auto
  qed
  moreover have "sweep_calls cfg cs ?g
      = sweep_calls cfg (drop DISPLACE_MAX_ATTEMPTS cs) (sweep_calls cfg ?six ?g)"
    by (simp flip: sweep_calls_append)
  ultimately have "\<not> displaced_pending (sweep_calls cfg cs ?g)"
    by (simp add: sweep_idle)
  then show ?thesis by (simp add: sweep_calls_append sweep_idle)
qed

theorem displacement_settles_witness:
  "displaced_pending (note_displacement small_config 7 (globals initial_world)) \<and>
   \<not> displaced_pending (sweep_calls small_config
       (map (\<lambda>i. (5000 * i, two_cycles_heap)) [1, 2, 3, 4, 5, 6])
       (note_displacement small_config 7 (globals initial_world)))"
proof -
  let ?cs = "map (\<lambda>i. (5000 * i, two_cycles_heap)) [1, 2, 3, 4, 5, 6 :: nat]"
  have "DISPLACE_MAX_ATTEMPTS \<le> length ?cs" by (simp add: DISPLACE_MAX_ATTEMPTS_def)
  moreover have "spaced (displace_last_ms (globals initial_world)) (map fst ?cs)"
    by (simp add: initial_world_def DISPLACE_RETRY_SECS_def)
  moreover have "\<not> displaced_pending (globals initial_world)" by (simp add: initial_world_def)
  ultimately have "\<not> displaced_pending (sweep_calls small_config ?cs
      (note_displacement small_config 7 (globals initial_world)))"
    using displacement_settles [of ?cs "globals initial_world" small_config 7 "[]"] by blast
  then show ?thesis by (simp add: note_displacement_def small_config_def initial_world_def)
qed

end
