(* ===== verification/Schedule.thy ===== *)
theory Schedule
  imports Prelude Transition "HOL-Library.Product_Lexorder"
begin

text \<open>
  The scheduler of periodic and delayed tasks, \<open>cfml-vm/src/schedule_wheel.rs\<close>, with the
  permits of pooled schedules of \<open>cfml-vm/src/async_kernel.rs\<close>: one timer thread over a heap of
  deadlines, a queue of due tasks, and a pool of runner threads that run a body and re-arm its
  schedule.

  An \<open>Instant\<close> is a number of milliseconds. The record \<open>wheel\<close> is the state under the mutex; the
  cancel flags, the channels of the schedules, the runner threads and the permits of the pools
  are in \<open>sched_world\<close>. Threads take turns: a step of the relation is one critical section, or
  one blocking call returning. What a body does is the result it reports, an input of its step.
\<close>

section \<open>State\<close>

definition MAX_RUNNERS :: nat where
  "MAX_RUNNERS = 64"

datatype thread_result = ThreadResult (status: ustr)

definition terminated :: thread_result where
  "terminated = ThreadResult (str ''TERMINATED'')"

record task =
  period :: "(int \<times> bool) option"
  permits :: "nat option"
  run_at :: nat
  first_run :: bool

type_synonym job = "nat \<times> task"

record wheel =
  heap :: "(nat \<times> nat) list"
  tasks :: "job list"
  pending :: "job list"
  next_id :: nat
  timer_started :: bool
  idle_runners :: nat
  live_runners :: nat

text \<open>
  The heap is kept as the ordered list of its entries: \<open>peek\<close> and \<open>pop\<close> of the min-heap see its
  head. The task table is an association list with one entry for an id.
\<close>

definition heap_push :: "nat \<times> nat \<Rightarrow> wheel \<Rightarrow> wheel" where
  "heap_push e g = g\<lparr>heap := insort e (heap g)\<rparr>"

definition remove_task :: "nat \<Rightarrow> job list \<Rightarrow> job list" where
  "remove_task i ts = filter (\<lambda>t. fst t \<noteq> i) ts"

definition insert_task :: "job \<Rightarrow> wheel \<Rightarrow> wheel" where
  "insert_task j g = g\<lparr>tasks := j # remove_task (fst j) (tasks g)\<rparr>"

section \<open>Arming a schedule\<close>

text \<open>The period of a schedule, from the two optional arguments of the caller.\<close>

definition schedule_period :: "int option \<Rightarrow> int option \<Rightarrow> (int \<times> bool) option" where
  "schedule_period every_ms spaced_ms = (case every_ms of
     Some v \<Rightarrow> if 0 < v then Some (v, True)
               else (case spaced_ms of Some u \<Rightarrow> if 0 < u then Some (u, False) else None | None \<Rightarrow> None)
   | None \<Rightarrow> (case spaced_ms of Some u \<Rightarrow> if 0 < u then Some (u, False) else None | None \<Rightarrow> None))"

definition schedule :: "nat \<Rightarrow> int \<Rightarrow> (int \<times> bool) option \<Rightarrow> nat option \<Rightarrow> bool \<Rightarrow> wheel \<Rightarrow> wheel" where
  "schedule now delay_ms per pm spawn_ok g =
     (let due = now + nat (max delay_ms 0); i = next_id g;
          g1 = insert_task (i, \<lparr>period = per, permits = pm, run_at = due, first_run = True\<rparr>)
                 (g\<lparr>next_id := i + 1\<rparr>);
          g2 = heap_push (due, i) g1
      in if timer_started g2 then g2 else g2\<lparr>timer_started := spawn_ok\<rparr>)"

section \<open>The timer\<close>

text \<open>What a pass of the timer ends with: it parks, or goes on, perhaps with a new runner.\<close>

datatype timer_action = Park | Park_until nat | Go_on | Queued bool

definition retire_cancelled :: "nat set \<Rightarrow> wheel \<Rightarrow> wheel \<times> nat list" where
  "retire_cancelled flags g =
     (let dead = map fst (filter (\<lambda>t. fst t \<in> flags) (tasks g))
      in (g\<lparr>tasks := filter (\<lambda>t. fst t \<notin> set dead) (tasks g)\<rparr>, dead))"

fun drop_stale :: "job list \<Rightarrow> (nat \<times> nat) list \<Rightarrow> (nat \<times> nat) list" where
  "drop_stale ts [] = []"
| "drop_stale ts ((d, i) # es) = (if map_of ts i = None then drop_stale ts es else (d, i) # es)"

definition timer_pass :: "nat set \<Rightarrow> nat \<Rightarrow> bool \<Rightarrow> wheel \<Rightarrow> wheel \<times> nat list \<times> timer_action" where
  "timer_pass flags now spawn_ok g0 =
     (let (g1, dead) = retire_cancelled flags g0;
          g = g1\<lparr>heap := drop_stale (tasks g1) (heap g1)\<rparr>
      in case heap g of
           [] \<Rightarrow> (g, dead, Park)
         | (d, i) # es \<Rightarrow>
             if now < d then (g, dead, Park_until d)
             else let g2 = g\<lparr>heap := es\<rparr> in
               case map_of (tasks g2) i of
                 None \<Rightarrow> (g2, dead, Go_on)
               | Some t \<Rightarrow>
                   let g3 = g2\<lparr>tasks := remove_task i (tasks g2)\<rparr> in
                   if i \<in> flags then (g3, dead @ [i], Go_on)
                   else let g4 = g3\<lparr>pending := pending g3 @ [(i, t)]\<rparr>;
                            wanted = (idle_runners g4 = 0 \<and> live_runners g4 < MAX_RUNNERS)
                        in (if wanted \<and> spawn_ok then g4\<lparr>live_runners := live_runners g4 + 1\<rparr> else g4,
                            dead, Queued (wanted \<and> spawn_ok)))"

section \<open>The runners\<close>

definition runner_take :: "wheel \<Rightarrow> (job \<times> wheel) option" where
  "runner_take g = (case pending g of [] \<Rightarrow> None | j # js \<Rightarrow> Some (j, g\<lparr>pending := js\<rparr>))"

definition runner_park :: "wheel \<Rightarrow> wheel" where
  "runner_park g = g\<lparr>idle_runners := idle_runners g + 1\<rparr>"

definition runner_woken :: "wheel \<Rightarrow> wheel" where
  "runner_woken g = g\<lparr>idle_runners := idle_runners g - 1\<rparr>"

text \<open>Permits: a wait that returned either takes a permit, gives up, or waits again.\<close>

datatype acquired = Acquired | Given_up | Waits

definition acquire :: "nat \<Rightarrow> nat \<Rightarrow> bool \<Rightarrow> acquired" where
  "acquire scheduled_running max_concurrent cancelled =
     (if max_concurrent \<le> scheduled_running then if cancelled then Given_up else Waits else Acquired)"

text \<open>The loop that skips missed ticks of a fixed-rate schedule.\<close>

partial_function (option) catch_up :: "nat \<Rightarrow> nat \<Rightarrow> nat \<Rightarrow> nat option" where
  "catch_up per now n = (if n \<le> now then catch_up per now (n + per) else Some n)"

definition next_run :: "nat \<Rightarrow> int \<Rightarrow> bool \<Rightarrow> nat \<Rightarrow> nat option" where
  "next_run now period_ms fixed_rate start =
     (let per = nat (max period_ms 0)
      in if fixed_rate then catch_up per now (start + per) else Some (now + per))"

text \<open>
  The end of a run: the message sent, if any, and the task to put back with its deadline, if any.
  \<open>None\<close> stands for a call that does not return.
\<close>

definition run_finish ::
    "bool \<Rightarrow> nat \<Rightarrow> thread_result option \<Rightarrow> task \<Rightarrow> (thread_result option \<times> task option) option" where
  "run_finish cancelled now res t =
     (let terminated_run = (case res of None \<Rightarrow> True | Some r \<Rightarrow> status r = str ''TERMINATED'') in
      if first_run t \<and> period t = None then Some (res, None)
      else case period t of
        None \<Rightarrow> Some (None, None)
      | Some (period_ms, fixed_rate) \<Rightarrow>
          if terminated_run \<or> cancelled then Some (Some terminated, None)
          else map_option (\<lambda>n. (None, Some (t\<lparr>first_run := False, run_at := n\<rparr>)))
                 (next_run now period_ms fixed_rate (run_at t)))"

definition re_arm :: "job \<Rightarrow> wheel \<Rightarrow> wheel" where
  "re_arm j g = heap_push (run_at (snd j), fst j) (insert_task j g)"

section \<open>Fixed-rate schedules keep their phase\<close>

lemma catch_up_from:
  assumes "0 < per" and "n \<le> now"
  shows "catch_up per now n = Some (n + per * ((now - n) div per + 1))"
  using assms(2)
proof (induction "now - n" arbitrary: n rule: less_induct)
  case less
  show ?case
  proof (cases "n + per \<le> now")
    case True
    have "now - n = (now - (n + per)) + per" using True by simp
    then have "(now - n) div per = (now - (n + per)) div per + 1"
      using assms(1) by (metis div_add_self2 add.commute gr_implies_not0)
    moreover have "now - (n + per) < now - n" using True assms(1) by simp
    from less(1) [OF this True]
    have "catch_up per now (n + per) = Some (n + per + per * ((now - (n + per)) div per + 1))" .
    ultimately show ?thesis using less(2) by (subst catch_up.simps) (simp add: algebra_simps)
  next
    case False
    then have "(now - n) div per = 0" using less(2) by simp
    with False less(2) show ?thesis
      by (subst catch_up.simps, subst catch_up.simps) simp
  qed
qed

lemma catch_up_returns: "catch_up per now n = Some y \<Longrightarrow> per = 0 \<longrightarrow> now < n"
proof (rule catch_up.raw_induct [where P = "\<lambda>per now n y. per = 0 \<longrightarrow> now < n"])
  fix f :: "nat \<Rightarrow> nat \<Rightarrow> nat \<Rightarrow> nat option" and per now n y
  assume ih: "\<And>per now n y. f per now n = Some y \<Longrightarrow> per = 0 \<longrightarrow> now < n"
    and eq: "(if n \<le> now then f per now (n + per) else Some n) = Some y"
  show "per = 0 \<longrightarrow> now < n" using ih [of per now "n + per" y] eq by (auto split: if_splits)
qed

text \<open>A period of zero would never return once a tick is missed.\<close>

lemma catch_up_zero: "n \<le> now \<Longrightarrow> catch_up 0 now n = None"
  using catch_up_returns [of 0 now n] by (cases "catch_up 0 now n") auto

lemma catch_up_spec:
  assumes "0 < per"
  obtains k where "catch_up per now (start + per) = Some (start + k * per)" and "1 \<le> k"
    and "now < start + k * per" and "\<And>j. 1 \<le> j \<Longrightarrow> j < k \<Longrightarrow> start + j * per \<le> now"
proof (cases "start + per \<le> now")
  case True
  define q where "q = (now - (start + per)) div per"
  have q: "q * per \<le> now - (start + per)" "now - (start + per) < (q + 1) * per"
    using assms by (simp_all add: q_def div_times_less_eq_dividend dividend_less_div_times add.commute)
  have "start + j * per \<le> now" if "j < q + 2" for j
  proof -
    have "j * per \<le> (q + 1) * per" using that by (intro mult_le_mono1) simp
    with q(1) True show ?thesis by simp
  qed
  moreover have "now < start + (q + 2) * per" using q(2) True by simp
  moreover have "catch_up per now (start + per) = Some (start + (q + 2) * per)"
    using catch_up_from [OF assms True] by (simp add: q_def algebra_simps)
  ultimately show thesis by (intro that [of "q + 2"]) auto
next
  case False
  then show thesis by (intro that [of 1]) (simp_all add: catch_up.simps)
qed

lemma schedule_period_pos: "schedule_period e s = Some (p, fixed) \<Longrightarrow> 0 < p"
  by (auto simp: schedule_period_def split: option.splits if_splits)

text \<open>C21: The end of a run returns for every schedule whose period comes from the caller's
  arguments. It sends a message or puts the schedule back, never both. A schedule put back is due
  after now; a fixed-rate one stays on its phase, at the first tick that has not been missed.
\<close>

theorem run_finish_returns:
  assumes "period t = schedule_period every_ms spaced_ms"
  shows "\<exists>m r. run_finish cancelled now res t = Some (m, r) \<and> (m = None \<or> r = None) \<and>
    (\<forall>t' p fixed. r = Some t' \<and> period t = Some (p, fixed) \<longrightarrow> period t' = period t \<and> now < run_at t' \<and>
       (fixed \<longrightarrow> (\<exists>k \<ge> 1. run_at t' = run_at t + k * nat p \<and>
          (\<forall>j \<ge> 1. j < k \<longrightarrow> run_at t + j * nat p \<le> now))))"
proof (cases "period t")
  case None
  then show ?thesis by (auto simp: run_finish_def Let_def)
next
  case (Some pf)
  obtain p fixed where pf: "pf = (p, fixed)" by (cases pf)
  have "0 < p" using assms Some pf schedule_period_pos by metis
  then have per: "0 < nat p" and pmax: "max p 0 = p" by simp_all
  obtain k where k: "catch_up (nat p) now (run_at t + nat p) = Some (run_at t + k * nat p)" "1 \<le> k"
    "now < run_at t + k * nat p" "\<And>j. 1 \<le> j \<Longrightarrow> j < k \<Longrightarrow> run_at t + j * nat p \<le> now"
    using catch_up_spec [OF per] by metis
  then have phase: "\<exists>k' \<ge> 1. run_at t + k * nat p = run_at t + k' * nat p \<and>
      (\<forall>j \<ge> 1. j < k' \<longrightarrow> run_at t + j * nat p \<le> now)"
    by blast
  show ?thesis
  proof (cases fixed)
    case True
    with Some pf k(1,3) phase pmax show ?thesis by (simp add: run_finish_def Let_def next_run_def)
  next
    case False
    with Some pf pmax per show ?thesis by (simp add: run_finish_def Let_def next_run_def)
  qed
qed

theorem run_finish_returns_witness:
  "run_finish False 25 (Some (ThreadResult (str ''COMPLETED'')))
     \<lparr>period = schedule_period (Some 10) None, permits = None, run_at = 3, first_run = True\<rparr>
   = Some (None, Some \<lparr>period = Some (10, True), permits = None, run_at = 33, first_run = False\<rparr>)"
proof -
  let ?t = "\<lparr>period = schedule_period (Some 10) None, permits = None, run_at = 3, first_run = True\<rparr>"
  have "\<exists>m r. run_finish False 25 (Some (ThreadResult (str ''COMPLETED''))) ?t = Some (m, r)"
    using run_finish_returns [of ?t "Some 10" None False 25 "Some (ThreadResult (str ''COMPLETED''))"]
    by auto
  then show ?thesis
    by (simp add: run_finish_def Let_def next_run_def schedule_period_def catch_up_from)
qed

section \<open>The threads of the scheduler\<close>

text \<open>
  A runner is at the top of its loop (\<open>free_runners\<close>), parked, waiting for a permit, or running
  a body. \<open>sent\<close> lists the messages on the channels of the schedules. \<open>dropped\<close> lists the tasks
  that went out of scope without a message: their channels are closed, and who waits on one of
  them learns only that.
\<close>

record sched_world =
  wheel_of :: wheel
  clock :: nat
  flags :: "nat set"
  free_runners :: nat
  parked_runners :: nat
  waiting :: "job list"
  running :: "job list"
  sent :: "(nat \<times> thread_result) list"
  dropped :: "job list"
  pool_running :: "nat \<Rightarrow> nat"
  pool_max :: "nat \<Rightarrow> nat"

definition send_terminated :: "nat list \<Rightarrow> sched_world \<Rightarrow> sched_world" where
  "send_terminated is w = w\<lparr>sent := sent w @ map (\<lambda>i. (i, terminated)) is\<rparr>"

definition timer_turn :: "bool \<Rightarrow> sched_world \<Rightarrow> sched_world" where
  "timer_turn spawn_ok w =
     (let (g, dead, act) = timer_pass (flags w) (clock w) spawn_ok (wheel_of w);
          w1 = send_terminated dead (w\<lparr>wheel_of := g\<rparr>)
      in if act = Queued True then w1\<lparr>free_runners := free_runners w1 + 1\<rparr> else w1)"

definition release_permit :: "nat option \<Rightarrow> (nat \<Rightarrow> nat) \<Rightarrow> nat \<Rightarrow> nat" where
  "release_permit pm used = (case pm of None \<Rightarrow> used | Some p \<Rightarrow> used(p := used p - 1))"

definition start_run :: "job \<Rightarrow> sched_world \<Rightarrow> sched_world" where
  "start_run j w = w\<lparr>waiting := remove1 j (waiting w), running := j # running w\<rparr>"

inductive sched_step :: "sched_world \<Rightarrow> sched_world \<Rightarrow> bool" where
  Arm: "sched_step w (w\<lparr>wheel_of := schedule (clock w) delay_ms (schedule_period e s) pm spawn_ok (wheel_of w)\<rparr>)"
| Cancel: "sched_step w (w\<lparr>flags := insert i (flags w)\<rparr>)"
| Time: "clock w \<le> now \<Longrightarrow> sched_step w (w\<lparr>clock := now\<rparr>)"
| Timer: "timer_started (wheel_of w) \<Longrightarrow> sched_step w (timer_turn spawn_ok w)"
| Take: "0 < free_runners w \<Longrightarrow> runner_take (wheel_of w) = Some (j, g) \<Longrightarrow>
    sched_step w (w\<lparr>wheel_of := g, free_runners := free_runners w - 1, waiting := j # waiting w\<rparr>)"
| Parks: "0 < free_runners w \<Longrightarrow> runner_take (wheel_of w) = None \<Longrightarrow>
    sched_step w (w\<lparr>wheel_of := runner_park (wheel_of w), free_runners := free_runners w - 1,
      parked_runners := parked_runners w + 1\<rparr>)"
| Wakes: "0 < parked_runners w \<Longrightarrow>
    sched_step w (w\<lparr>wheel_of := runner_woken (wheel_of w), free_runners := free_runners w + 1,
      parked_runners := parked_runners w - 1\<rparr>)"
| Start: "j \<in> set (waiting w) \<Longrightarrow> permits (snd j) = None \<Longrightarrow> sched_step w (start_run j w)"
| Start_pooled: "j \<in> set (waiting w) \<Longrightarrow> permits (snd j) = Some p \<Longrightarrow>
    acquire (pool_running w p) (pool_max w p) (fst j \<in> flags w) = Acquired \<Longrightarrow>
    sched_step w ((start_run j w)\<lparr>pool_running := (pool_running w)(p := pool_running w p + 1)\<rparr>)"
| Gives_up: "j \<in> set (waiting w) \<Longrightarrow> permits (snd j) = Some p \<Longrightarrow>
    acquire (pool_running w p) (pool_max w p) (fst j \<in> flags w) = Given_up \<Longrightarrow>
    sched_step w (send_terminated [fst j]
      (w\<lparr>waiting := remove1 j (waiting w), free_runners := free_runners w + 1\<rparr>))"
| Finish: "j \<in> set (running w) \<Longrightarrow>
    run_finish (fst j \<in> flags w) (clock w) res (snd j) = Some (m, r) \<Longrightarrow>
    sched_step w (w\<lparr>running := remove1 j (running w), free_runners := free_runners w + 1,
      pool_running := release_permit (permits (snd j)) (pool_running w),
      sent := sent w @ (case m of None \<Rightarrow> [] | Some x \<Rightarrow> [(fst j, x)]),
      dropped := (if m = None \<and> r = None then j # dropped w else dropped w),
      wheel_of := (case r of None \<Rightarrow> wheel_of w | Some t \<Rightarrow> re_arm (fst j, t) (wheel_of w))\<rparr>)"

inductive_cases sched_stepE: "sched_step w w'"

definition initial_sched :: "(nat \<Rightarrow> nat) \<Rightarrow> sched_world" where
  "initial_sched caps = \<lparr>wheel_of = \<lparr>heap = [], tasks = [], pending = [], next_id = 0, timer_started = False,
       idle_runners = 0, live_runners = 0\<rparr>,
     clock = 0, flags = {}, free_runners = 0, parked_runners = 0, waiting = [], running = [], sent = [],
     dropped = [], pool_running = (\<lambda>_. 0), pool_max = caps\<rparr>"

section \<open>What every interleaving keeps\<close>

definition active :: "sched_world \<Rightarrow> job list" where
  "active w = tasks (wheel_of w) @ pending (wheel_of w) @ waiting w @ running w"

definition world_ids :: "sched_world \<Rightarrow> nat list" where
  "world_ids w = map fst (active w) @ map fst (sent w) @ map fst (dropped w)"

text \<open>
  Every schedule armed so far, that is every id below \<open>next_id\<close>, is at exactly one place: in the
  table, queued, at a runner, resolved by a message, or dropped; and only a schedule without a
  period is dropped.
\<close>

definition ids_ok :: "sched_world \<Rightarrow> bool" where
  "ids_ok w \<longleftrightarrow> distinct (world_ids w) \<and> set (world_ids w) = {..<next_id (wheel_of w)} \<and>
     (\<forall>j \<in> set (dropped w). period (snd j) = None)"

definition heap_fits :: "wheel \<Rightarrow> nat set \<Rightarrow> bool" where
  "heap_fits g busy \<longleftrightarrow> sorted (heap g) \<and> distinct (map snd (heap g)) \<and>
     (\<forall>j \<in> set (tasks g). (run_at (snd j), fst j) \<in> set (heap g)) \<and>
     (\<forall>e \<in> set (heap g). snd e < next_id g \<and> snd e \<notin> busy)"

definition busy_ids :: "sched_world \<Rightarrow> nat set" where
  "busy_ids w = fst ` set (pending (wheel_of w) @ waiting w @ running w)"

definition heap_ok :: "sched_world \<Rightarrow> bool" where
  "heap_ok w \<longleftrightarrow> heap_fits (wheel_of w) (busy_ids w)"

definition runners_ok :: "sched_world \<Rightarrow> bool" where
  "runners_ok w \<longleftrightarrow> idle_runners (wheel_of w) = parked_runners w \<and>
     live_runners (wheel_of w) = free_runners w + parked_runners w + length (waiting w) + length (running w) \<and>
     live_runners (wheel_of w) \<le> MAX_RUNNERS"

definition pool_jobs :: "nat \<Rightarrow> job list \<Rightarrow> nat" where
  "pool_jobs p js = length (filter (\<lambda>j. permits (snd j) = Some p) js)"

definition pools_ok :: "sched_world \<Rightarrow> bool" where
  "pools_ok w \<longleftrightarrow> (\<forall>p. pool_running w p = pool_jobs p (running w)) \<and>
     (\<forall>p. pool_jobs p (running w) \<le> pool_max w p)"

definition periods_ok :: "sched_world \<Rightarrow> bool" where
  "periods_ok w \<longleftrightarrow> (\<forall>j \<in> set (active w). \<exists>e s. period (snd j) = schedule_period e s)"

definition sched_inv :: "sched_world \<Rightarrow> bool" where
  "sched_inv w \<longleftrightarrow> ids_ok w \<and> heap_ok w \<and> runners_ok w \<and> pools_ok w \<and> periods_ok w"

definition kept_tasks :: "nat set \<Rightarrow> wheel \<Rightarrow> job list" where
  "kept_tasks fl g = filter (\<lambda>j. fst j \<notin> fl) (tasks g)"

definition retired :: "nat set \<Rightarrow> wheel \<Rightarrow> nat list" where
  "retired fl g = map fst (filter (\<lambda>j. fst j \<in> fl) (tasks g))"

lemma retire_cancelled_eq: "retire_cancelled fl g = (g\<lparr>tasks := kept_tasks fl g\<rparr>, retired fl g)"
proof -
  have "filter (\<lambda>t. fst t \<notin> set (retired fl g)) (tasks g) = kept_tasks fl g"
    unfolding kept_tasks_def by (rule filter_cong) (auto simp: retired_def)
  then show ?thesis by (simp add: retire_cancelled_def Let_def retired_def)
qed

lemma drop_stale_head: "drop_stale ts es = (d, i) # fs \<Longrightarrow> \<exists>t. map_of ts i = Some t"
  by (induction ts es rule: drop_stale.induct) (auto split: if_splits)

lemma drop_stale_suffix: "\<exists>us. es = us @ drop_stale ts es \<and> (\<forall>(d, i) \<in> set us. map_of ts i = None)"
proof (induction ts es rule: drop_stale.induct)
  case (2 ts d i es)
  show ?case
  proof (cases "map_of ts i = None")
    case True
    with 2 obtain us where "es = us @ drop_stale ts es" "\<forall>(d, i) \<in> set us. map_of ts i = None" by auto
    with True show ?thesis by (intro exI [of _ "(d, i) # us"]) auto
  qed auto
qed simp

text \<open>
  A pass of the timer either parks, or queues the task with the earliest deadline; in both cases
  the cancelled tasks are gone. The two guards against a task that is missing or cancelled after
  all are never taken under the one lock.
\<close>

lemma timer_pass_cases:
  assumes "timer_pass fl now spawn_ok g = (g', dead, act)"
  obtains (parks) "act = Park \<or> (\<exists>d. act = Park_until d \<and> now < d)" "dead = retired fl g"
      "g' = g\<lparr>tasks := kept_tasks fl g, heap := drop_stale (kept_tasks fl g) (heap g)\<rparr>"
      "\<And>d i es. heap g' = (d, i) # es \<Longrightarrow> now < d"
  | (queues) d i es t b where "drop_stale (kept_tasks fl g) (heap g) = (d, i) # es" "d \<le> now"
      "map_of (kept_tasks fl g) i = Some t" "act = Queued b" "dead = retired fl g"
      "b \<longrightarrow> idle_runners g = 0 \<and> live_runners g < MAX_RUNNERS"
      "g' = g\<lparr>tasks := remove_task i (kept_tasks fl g), heap := es, pending := pending g @ [(i, t)],
              live_runners := live_runners g + (if b then 1 else 0)\<rparr>"
proof (cases "drop_stale (kept_tasks fl g) (heap g)")
  case Nil
  with assms show thesis by (intro parks) (auto simp: timer_pass_def retire_cancelled_eq)
next
  case (Cons e es)
  obtain d i where e: "e = (d, i)" by (cases e)
  show thesis
  proof (cases "now < d")
    case True
    with assms Cons e show thesis by (intro parks) (auto simp: timer_pass_def retire_cancelled_eq)
  next
    case False
    obtain t where t: "map_of (kept_tasks fl g) i = Some t" using drop_stale_head Cons e by blast
    then have "i \<notin> fl" by (auto simp: kept_tasks_def dest: map_of_SomeD)
    with False assms Cons e t show thesis
      by (intro queues [of d i es t "idle_runners g = 0 \<and> live_runners g < MAX_RUNNERS \<and> spawn_ok"])
        (auto simp: timer_pass_def retire_cancelled_eq Let_def)
  qed
qed

lemma remove_task_mset:
  assumes "distinct (map fst ts)" and "map_of ts i = Some t"
  shows "add_mset (i, t) (mset (remove_task i ts)) = mset ts"
  using assms
proof (induction ts)
  case (Cons j ts)
  show ?case
  proof (cases "fst j = i")
    case True
    with Cons.prems have "j = (i, t)" "remove_task i ts = ts"
      by (cases j; auto simp: remove_task_def filter_id_conv)+
    with True show ?thesis by (simp add: remove_task_def)
  next
    case False
    with Cons show ?thesis by (cases j) (simp add: remove_task_def add_mset_commute)
  qed
qed simp

lemma mset_split: "mset (map f (filter (\<lambda>x. \<not> P x) xs)) + mset (map f (filter P xs)) = mset (map f xs)"
  by (induction xs) auto

lemma kept_mset: "mset (map fst (kept_tasks fl g)) + mset (retired fl g) = mset (map fst (tasks g))"
  unfolding kept_tasks_def retired_def by (rule mset_split)

lemma kept_distinct: "distinct (map fst (tasks g)) \<Longrightarrow> distinct (map fst (kept_tasks fl g))"
  by (simp add: kept_tasks_def distinct_map_filter)

lemma ids_okI:
  assumes "ids_ok w" and "mset (world_ids w') = mset (world_ids w)"
    and "next_id (wheel_of w') = next_id (wheel_of w)"
    and "\<forall>j \<in> set (dropped w'). period (snd j) = None"
  shows "ids_ok w'"
proof -
  have "set (world_ids w') = set (world_ids w)" by (rule mset_eq_setD [OF assms(2)])
  moreover have "distinct (world_ids w') = distinct (world_ids w)"
    by (rule mset_eq_imp_distinct_iff [OF assms(2)])
  ultimately show ?thesis using assms(1,3,4) by (simp add: ids_ok_def)
qed

lemma ids_ok_dropped: "ids_ok w \<Longrightarrow> \<forall>j \<in> set (dropped w). period (snd j) = None"
  by (simp add: ids_ok_def)

lemma ids_ok_tasks: "ids_ok w \<Longrightarrow> distinct (map fst (tasks (wheel_of w)))"
  by (simp add: ids_ok_def world_ids_def active_def)

lemma timer_turn_eq:
  assumes "timer_pass (flags w) (clock w) spawn_ok (wheel_of w) = (g, dead, act)"
  shows "timer_turn spawn_ok w = w\<lparr>wheel_of := g, sent := sent w @ map (\<lambda>i. (i, terminated)) dead,
    free_runners := free_runners w + (if act = Queued True then 1 else 0)\<rparr>"
  using assms by (simp add: timer_turn_def send_terminated_def Let_def)

lemma timer_turn_frame [simp]:
  "running (timer_turn spawn_ok w) = running w" "waiting (timer_turn spawn_ok w) = waiting w"
  "pool_running (timer_turn spawn_ok w) = pool_running w" "pool_max (timer_turn spawn_ok w) = pool_max w"
  "dropped (timer_turn spawn_ok w) = dropped w"
  by (simp_all add: timer_turn_def send_terminated_def Let_def split: prod.split)

lemma timer_turn_ids:
  assumes "ids_ok w"
  shows "mset (world_ids (timer_turn spawn_ok w)) = mset (world_ids w) \<and>
    next_id (wheel_of (timer_turn spawn_ok w)) = next_id (wheel_of w)"
proof -
  let ?fl = "flags w" and ?g = "wheel_of w"
  obtain g dead act where pass: "timer_pass ?fl (clock w) spawn_ok ?g = (g, dead, act)"
    by (cases "timer_pass ?fl (clock w) spawn_ok ?g")
  have d: "distinct (map fst (kept_tasks ?fl ?g))" by (rule kept_distinct [OF ids_ok_tasks [OF assms]])
  note eq = timer_turn_eq [OF pass] world_ids_def active_def
  from pass show ?thesis
  proof (cases rule: timer_pass_cases)
    case parks
    then show ?thesis using kept_mset [of ?fl ?g, symmetric] by (simp add: eq comp_def)
  next
    case (queues dd i es t b)
    have "add_mset i (mset (map fst (remove_task i (kept_tasks ?fl ?g)))) = mset (map fst (kept_tasks ?fl ?g))"
      using arg_cong [OF remove_task_mset [OF d queues(3)], of "image_mset fst"] by simp
    then show ?thesis using queues kept_mset [of ?fl ?g, symmetric] by (simp add: eq comp_def)
  qed
qed

lemma heap_fits_mono:
  "heap_fits g B \<Longrightarrow> B' \<subseteq> B \<Longrightarrow> heap g' = heap g \<Longrightarrow> tasks g' = tasks g \<Longrightarrow> next_id g' = next_id g \<Longrightarrow>
     heap_fits g' B'"
  by (auto simp: heap_fits_def)

lemma heap_fits_push:
  assumes "heap_fits g B" and "i < next_id g" and "i \<notin> snd ` set (heap g)" and "B' \<subseteq> B" and "i \<notin> B'"
  shows "heap_fits (heap_push (run_at t, i) (insert_task (i, t) g)) B'"
proof -
  have "distinct (map snd (insort (run_at t, i) (heap g)))"
    using assms(1,3) mset_eq_imp_distinct_iff [of "map snd (insort (run_at t, i) (heap g))" "i # map snd (heap g)"]
    by (simp add: heap_fits_def)
  then show ?thesis
    using assms by (auto simp: heap_fits_def heap_push_def insert_task_def remove_task_def
        sorted_insort set_insort_key)
qed

lemma heap_fits_stale:
  assumes "heap_fits g B" and "set ts \<subseteq> set (tasks g)"
  shows "heap_fits (g\<lparr>tasks := ts, heap := drop_stale ts (heap g)\<rparr>) B"
proof -
  obtain us where us: "heap g = us @ drop_stale ts (heap g)" "\<forall>(d, i) \<in> set us. map_of ts i = None"
    using drop_stale_suffix by blast
  have "(run_at (snd j), fst j) \<in> set (drop_stale ts (heap g))" if "j \<in> set ts" for j
  proof -
    have "(run_at (snd j), fst j) \<in> set (heap g)" using assms that by (auto simp: heap_fits_def)
    moreover have "map_of ts (fst j) \<noteq> None" using that by (simp add: map_of_eq_None_iff)
    ultimately show ?thesis using us by (metis (mono_tags, lifting) Un_iff case_prodD set_append)
  qed
  moreover have "sorted (drop_stale ts (heap g))" "distinct (map snd (drop_stale ts (heap g)))"
    "set (drop_stale ts (heap g)) \<subseteq> set (heap g)"
    using assms(1) us(1) unfolding heap_fits_def by (metis sorted_append, metis distinct_append map_append, metis set_append Un_upper2)
  ultimately show ?thesis using assms(1) by (auto simp: heap_fits_def)
qed

lemma heap_fits_timer:
  assumes fits: "heap_fits g B" and pass: "timer_pass fl now spawn_ok g = (g', dead, act)"
    and "fst ` set (pending g) \<subseteq> B"
  shows "heap_fits g' (B \<union> fst ` set (pending g'))"
proof -
  let ?g1 = "g\<lparr>tasks := kept_tasks fl g, heap := drop_stale (kept_tasks fl g) (heap g)\<rparr>"
  have f1: "heap_fits ?g1 B" by (rule heap_fits_stale [OF fits]) (auto simp: kept_tasks_def)
  from pass show ?thesis
  proof (cases rule: timer_pass_cases)
    case parks
    with f1 assms(3) show ?thesis by (simp add: Un_absorb2)
  next
    case (queues d i es t b)
    have "i \<notin> snd ` set es" using f1 queues(1) by (auto simp: heap_fits_def)
    moreover have "(run_at (snd j), fst j) \<in> set es" if "j \<in> set (kept_tasks fl g)" "fst j \<noteq> i" for j
      using f1 queues(1) that by (auto simp: heap_fits_def)
    ultimately have "heap_fits g' (insert i B)"
      using f1 queues(1,7) by (auto simp: heap_fits_def remove_task_def)
    moreover have "B \<union> fst ` set (pending g') = insert i B" using queues(7) assms(3) by auto
    ultimately show ?thesis by simp
  qed
qed

lemma remove1_fst: "j \<in> set xs \<Longrightarrow> mset (map fst xs) = add_mset (fst j) (mset (map fst (remove1 j xs)))"
  by (induction xs) auto

lemma remove_task_fresh: "i \<notin> fst ` set ts \<Longrightarrow> remove_task i ts = ts"
  by (auto simp: remove_task_def filter_id_conv)

lemma run_finish_one: "run_finish c now res t = Some (m, r) \<Longrightarrow> m = None \<or> r = None"
  by (auto simp: run_finish_def Let_def split: if_splits option.splits prod.splits)

lemma run_finish_dropped: "run_finish c now res t = Some (None, None) \<Longrightarrow> period t = None"
  by (auto simp: run_finish_def Let_def split: if_splits option.splits prod.splits)

lemma schedule_eq:
  "\<exists>t st. schedule now delay_ms per pm spawn_ok g
      = (heap_push (run_at t, next_id g) (insert_task (next_id g, t) (g\<lparr>next_id := next_id g + 1\<rparr>)))\<lparr>timer_started := st\<rparr> \<and>
    period t = per"
  by (intro exI [of _ "\<lparr>period = per, permits = pm, run_at = now + nat (max delay_ms 0), first_run = True\<rparr>"]
      exI [of _ "timer_started g \<or> spawn_ok"], cases g)
    (simp add: schedule_def Let_def heap_push_def insert_task_def)

lemma wheel_ops [simp]:
  "tasks (heap_push e g) = tasks g" "pending (heap_push e g) = pending g"
  "next_id (heap_push e g) = next_id g" "idle_runners (heap_push e g) = idle_runners g"
  "live_runners (heap_push e g) = live_runners g"
  "pending (insert_task j g) = pending g" "next_id (insert_task j g) = next_id g"
  "idle_runners (insert_task j g) = idle_runners g" "live_runners (insert_task j g) = live_runners g"
  "heap (insert_task j g) = heap g" "tasks (insert_task j g) = j # remove_task (fst j) (tasks g)"
  by (simp_all add: heap_push_def insert_task_def)

lemma finish_ids:
  assumes ids: "ids_ok w" and j: "j \<in> set (running w)"
    and fin: "run_finish c now res (snd j) = Some (m, r)"
    and w': "wheel_of w' = (case r of None \<Rightarrow> wheel_of w | Some t \<Rightarrow> re_arm (fst j, t) (wheel_of w))"
      "waiting w' = waiting w" "running w' = remove1 j (running w)"
      "sent w' = sent w @ (case m of None \<Rightarrow> [] | Some x \<Rightarrow> [(fst j, x)])"
      "dropped w' = (if m = None \<and> r = None then j # dropped w else dropped w)"
  shows "ids_ok w'"
proof (rule ids_okI [OF ids])
  have "fst j \<in> fst ` set (running w)" using j by auto
  then have "fst j \<notin> fst ` set (tasks (wheel_of w))"
    using ids by (auto simp: ids_ok_def world_ids_def active_def)
  then have rm: "remove_task (fst j) (tasks (wheel_of w)) = tasks (wheel_of w)"
    by (rule remove_task_fresh)
  show "mset (world_ids w') = mset (world_ids w)"
    using run_finish_one [OF fin] rm w' remove1_fst [OF j]
    by (cases m; cases r) (simp_all add: world_ids_def active_def re_arm_def)
  show "next_id (wheel_of w') = next_id (wheel_of w)"
    using w'(1) by (cases r) (simp_all add: re_arm_def)
  show "\<forall>k \<in> set (dropped w'). period (snd k) = None"
    using w'(5) ids_ok_dropped [OF ids] run_finish_dropped [of c now res "snd j"] fin by simp
qed

lemma arm_ids:
  assumes ids: "ids_ok w"
    and w': "wheel_of w' = schedule now delay_ms per pm spawn_ok (wheel_of w)"
      "waiting w' = waiting w" "running w' = running w" "sent w' = sent w" "dropped w' = dropped w"
  shows "ids_ok w'"
proof -
  have fresh: "next_id (wheel_of w) \<notin> set (world_ids w)"
    using ids by (auto simp: ids_ok_def)
  then have fresh': "next_id (wheel_of w) \<notin> fst ` set (tasks (wheel_of w))"
    by (auto simp: world_ids_def active_def)
  obtain t st where sch: "wheel_of w' = (heap_push (run_at t, next_id (wheel_of w))
      (insert_task (next_id (wheel_of w), t)
        ((wheel_of w)\<lparr>next_id := next_id (wheel_of w) + 1\<rparr>)))\<lparr>timer_started := st\<rparr>"
    using schedule_eq w'(1) by metis
  then have "world_ids w' = next_id (wheel_of w) # world_ids w"
    using w' remove_task_fresh [OF fresh'] by (simp add: world_ids_def active_def)
  moreover have "next_id (wheel_of w') = next_id (wheel_of w) + 1" using sch by simp
  ultimately show ?thesis using ids fresh w'(5) by (auto simp: ids_ok_def)
qed

lemma sched_step_ids:
  assumes "sched_step w w'" and ids: "ids_ok w"
  shows "ids_ok w'"
  using assms(1)
proof cases
  case (Arm delay_ms e s pm spawn_ok)
  then show ?thesis by (intro arm_ids [OF ids]) simp_all
next
  case (Timer spawn_ok)
  then show ?thesis using timer_turn_ids [OF ids, of spawn_ok] ids_ok_dropped [OF ids]
    by (intro ids_okI [OF ids]) simp_all
next
  case (Finish j res m r)
  from finish_ids [OF ids Finish(2,3)] Finish(1) show ?thesis by simp
next
  case (Take j g)
  then show ?thesis using ids_ok_dropped [OF ids] by (intro ids_okI [OF ids])
      (auto simp: world_ids_def active_def runner_take_def split: list.splits)
next
  case (Start j)
  then show ?thesis using remove1_fst [OF Start(2)] ids_ok_dropped [OF ids]
    by (intro ids_okI [OF ids]) (simp_all add: world_ids_def active_def start_run_def)
next
  case (Start_pooled j p)
  then show ?thesis using remove1_fst [OF Start_pooled(2)] ids_ok_dropped [OF ids]
    by (intro ids_okI [OF ids]) (simp_all add: world_ids_def active_def start_run_def)
next
  case (Gives_up j p)
  then show ?thesis using remove1_fst [OF Gives_up(2)] ids_ok_dropped [OF ids]
    by (intro ids_okI [OF ids]) (simp_all add: world_ids_def active_def send_terminated_def)
qed (use ids in \<open>simp_all add: ids_ok_def world_ids_def active_def runner_park_def runner_woken_def\<close>)

lemma ids_not_busy:
  assumes "ids_ok w" and "j \<in> set (running w)"
  shows "fst j \<notin> fst ` set (pending (wheel_of w) @ waiting w @ remove1 j (running w))"
proof -
  have "distinct (map fst (pending (wheel_of w) @ waiting w @ running w))"
    using assms(1) by (auto simp: ids_ok_def world_ids_def active_def)
  moreover have "mset (map fst (pending (wheel_of w) @ waiting w @ running w))
      = mset (fst j # map fst (pending (wheel_of w) @ waiting w @ remove1 j (running w)))"
    using remove1_fst [OF assms(2)] by simp
  ultimately have "distinct (fst j # map fst (pending (wheel_of w) @ waiting w @ remove1 j (running w)))"
    using mset_eq_imp_distinct_iff by blast
  then show ?thesis by (simp add: image_Un)
qed

lemma finish_heap:
  assumes "ids_ok w" and "heap_ok w" and j: "j \<in> set (running w)"
    and w': "wheel_of w' = (case r of None \<Rightarrow> wheel_of w | Some t \<Rightarrow> re_arm (fst j, t) (wheel_of w))"
      "waiting w' = waiting w" "running w' = remove1 j (running w)"
  shows "heap_ok w'"
proof -
  have fits: "heap_fits (wheel_of w) (busy_ids w)" using assms(2) by (simp add: heap_ok_def)
  have "pending (wheel_of w') = pending (wheel_of w)"
    using w'(1) by (cases r) (simp_all add: re_arm_def)
  then have b: "busy_ids w' = fst ` set (pending (wheel_of w) @ waiting w @ remove1 j (running w))"
    by (simp add: busy_ids_def w'(2,3))
  have nb: "fst j \<notin> busy_ids w'" unfolding b by (rule ids_not_busy [OF assms(1) j])
  have "set (pending (wheel_of w) @ waiting w @ remove1 j (running w))
      \<subseteq> set (pending (wheel_of w) @ waiting w @ running w)"
    using set_remove1_subset [of j "running w"] by auto
  from image_mono [OF this, of fst] have sub: "busy_ids w' \<subseteq> busy_ids w"
    unfolding b by (simp only: busy_ids_def)
  have "fst j \<in> busy_ids w" using j by (simp add: busy_ids_def)
  then have nh: "fst j \<notin> snd ` set (heap (wheel_of w))"
    using fits by (auto simp: heap_fits_def)
  have "fst j < next_id (wheel_of w)"
    using assms(1) j by (auto simp: ids_ok_def world_ids_def active_def)
  with heap_fits_push [OF fits this nh sub nb] heap_fits_mono [OF fits sub] w'(1) show ?thesis
    by (cases r) (simp_all add: heap_ok_def re_arm_def)
qed

lemma sched_step_heap:
  assumes "sched_step w w'" and ids: "ids_ok w" and heap: "heap_ok w"
  shows "heap_ok w'"
  using assms(1)
proof cases
  have fits: "heap_fits (wheel_of w) (busy_ids w)" using heap by (simp add: heap_ok_def)
  {
    case (Arm delay_ms e s pm spawn_ok)
    let ?i = "next_id (wheel_of w)"
    obtain t st where sch: "wheel_of w' = (heap_push (run_at t, ?i)
        (insert_task (?i, t) ((wheel_of w)\<lparr>next_id := ?i + 1\<rparr>)))\<lparr>timer_started := st\<rparr>"
      using schedule_eq Arm by (metis sched_world.select_convs(1) sched_world.surjective sched_world.update_convs(1))
    have "heap_fits ((wheel_of w)\<lparr>next_id := ?i + 1\<rparr>) (busy_ids w)"
      "?i \<notin> snd ` set (heap (wheel_of w))" "?i \<notin> busy_ids w"
      using fits ids by (auto simp: heap_fits_def ids_ok_def world_ids_def active_def busy_ids_def)
    then have "heap_fits (heap_push (run_at t, ?i) (insert_task (?i, t) ((wheel_of w)\<lparr>next_id := ?i + 1\<rparr>))) (busy_ids w)"
      by (intro heap_fits_push) auto
    then show ?thesis using Arm sch by (auto simp: heap_ok_def busy_ids_def elim: heap_fits_mono)
  next
    case (Timer spawn_ok)
    obtain g dead act where pass: "timer_pass (flags w) (clock w) spawn_ok (wheel_of w) = (g, dead, act)"
      by (cases "timer_pass (flags w) (clock w) spawn_ok (wheel_of w)")
    have "fst ` set (pending (wheel_of w)) \<subseteq> busy_ids w" by (auto simp: busy_ids_def)
    from heap_fits_timer [OF fits pass this] have "heap_fits g (busy_ids w \<union> fst ` set (pending g))" .
    then show ?thesis
      unfolding Timer(1) timer_turn_eq [OF pass] heap_ok_def
      by (rule heap_fits_mono) (auto simp: busy_ids_def)
  next
    case (Finish j res m r)
    from finish_heap [OF ids heap Finish(2)] Finish(1) show ?thesis by simp
  next
    case (Take j g)
    then have "pending (wheel_of w) = j # pending g \<and> heap g = heap (wheel_of w) \<and>
        tasks g = tasks (wheel_of w) \<and> next_id g = next_id (wheel_of w)"
      by (auto simp: runner_take_def split: list.splits)
    then show ?thesis unfolding heap_ok_def Take(1)
      by (intro heap_fits_mono [OF fits]) (auto simp: busy_ids_def)
  }
qed (use heap in \<open>auto simp: heap_ok_def busy_ids_def start_run_def send_terminated_def runner_park_def
      runner_woken_def dest: set_remove1_subset [THEN subsetD] elim!: heap_fits_mono\<close>)

lemma length_remove1_mem: "j \<in> set xs \<Longrightarrow> length xs = Suc (length (remove1 j xs))"
  by (induction xs) auto

lemma timer_turn_runners:
  assumes "runners_ok w"
  shows "runners_ok (timer_turn spawn_ok w)"
proof -
  obtain g dead act where pass: "timer_pass (flags w) (clock w) spawn_ok (wheel_of w) = (g, dead, act)"
    by (cases "timer_pass (flags w) (clock w) spawn_ok (wheel_of w)")
  from pass show ?thesis
    by (cases rule: timer_pass_cases)
      (use assms in \<open>auto simp: timer_turn_eq [OF pass] runners_ok_def\<close>)
qed

lemma sched_step_runners:
  assumes "sched_step w w'" and ok: "runners_ok w"
  shows "runners_ok w'"
  using assms(1)
proof cases
  case (Arm delay_ms e s pm spawn_ok)
  obtain t st where "schedule (clock w) delay_ms (schedule_period e s) pm spawn_ok (wheel_of w)
      = (heap_push (run_at t, next_id (wheel_of w)) (insert_task (next_id (wheel_of w), t)
          ((wheel_of w)\<lparr>next_id := next_id (wheel_of w) + 1\<rparr>)))\<lparr>timer_started := st\<rparr>"
    using schedule_eq by blast
  with Arm ok show ?thesis by (simp add: runners_ok_def)
next
  case (Timer spawn_ok)
  then show ?thesis using timer_turn_runners [OF ok] by simp
next
  case (Take j g)
  then show ?thesis using ok by (auto simp: runners_ok_def runner_take_def split: list.splits)
next
  case (Start j)
  then show ?thesis using ok length_remove1_mem [OF Start(2)] by (simp add: runners_ok_def start_run_def)
next
  case (Start_pooled j p)
  then show ?thesis using ok length_remove1_mem [OF Start_pooled(2)]
    by (simp add: runners_ok_def start_run_def)
next
  case (Gives_up j p)
  then show ?thesis using ok length_remove1_mem [OF Gives_up(2)]
    by (simp add: runners_ok_def send_terminated_def)
next
  case (Finish j res m r)
  then show ?thesis using ok length_remove1_mem [OF Finish(2)]
    by (cases r) (simp_all add: runners_ok_def re_arm_def)
qed (use ok in \<open>auto simp: runners_ok_def runner_park_def runner_woken_def\<close>)

lemma pool_jobs_remove1:
  "j \<in> set js \<Longrightarrow> pool_jobs p js = pool_jobs p (remove1 j js) + (if permits (snd j) = Some p then 1 else 0)"
  unfolding pool_jobs_def by (induction js) auto

lemma pool_jobs_Cons:
  "pool_jobs p (j # js) = pool_jobs p js + (if permits (snd j) = Some p then 1 else 0)"
  by (simp add: pool_jobs_def)

lemma sched_step_pools:
  assumes "sched_step w w'" and ok: "pools_ok w"
  shows "pools_ok w'"
  using assms(1)
proof cases
  have all: "pool_running w p = pool_jobs p (running w)" "pool_jobs p (running w) \<le> pool_max w p" for p
    using ok by (simp_all add: pools_ok_def)
  {
    case (Start j)
    then show ?thesis using all by (simp add: pools_ok_def start_run_def pool_jobs_Cons)
  next
    case (Start_pooled j q)
    have "pool_jobs q (running w) < pool_max w q"
      using Start_pooled(4) all by (auto simp: acquire_def split: if_splits)
    then show ?thesis using Start_pooled(1,3) all
      by (simp add: pools_ok_def start_run_def pool_jobs_Cons)
  next
    case (Finish j res m r)
    have "release_permit (permits (snd j)) (pool_running w) p = pool_jobs p (remove1 j (running w)) \<and>
        pool_jobs p (remove1 j (running w)) \<le> pool_max w p" for p
      using all [of p] pool_jobs_remove1 [OF Finish(2), of p]
      by (auto simp: release_permit_def split: option.split if_splits)
    then show ?thesis using Finish(1) by (simp add: pools_ok_def)
  }
qed (use ok in \<open>simp_all add: pools_ok_def send_terminated_def\<close>)

lemma timer_turn_active: "set (active (timer_turn spawn_ok w)) \<subseteq> set (active w)"
proof -
  obtain g dead act where pass: "timer_pass (flags w) (clock w) spawn_ok (wheel_of w) = (g, dead, act)"
    by (cases "timer_pass (flags w) (clock w) spawn_ok (wheel_of w)")
  from pass show ?thesis
  proof (cases rule: timer_pass_cases)
    case parks
    then show ?thesis by (auto simp: timer_turn_eq [OF pass] active_def kept_tasks_def)
  next
    case (queues d i es t b)
    then show ?thesis
      by (auto simp: timer_turn_eq [OF pass] active_def kept_tasks_def remove_task_def dest: map_of_SomeD)
  qed
qed

lemma run_finish_period: "run_finish c now res t = Some (m, Some t') \<Longrightarrow> period t' = period t"
  by (auto simp: run_finish_def Let_def split: if_splits option.splits prod.splits)

lemma sched_step_periods:
  assumes "sched_step w w'" and ok: "periods_ok w"
  shows "periods_ok w'"
proof -
  have sub: "periods_ok w'" if "set (active w') \<subseteq> set (active w)" for w'
    using ok that by (auto simp: periods_ok_def)
  have shrink: "set (remove1 j js) \<subseteq> set js" for j :: job and js by (rule set_remove1_subset)
  show ?thesis
    using assms(1)
  proof cases
    case (Arm delay_ms e s pm spawn_ok)
    obtain t st where "schedule (clock w) delay_ms (schedule_period e s) pm spawn_ok (wheel_of w)
        = (heap_push (run_at t, next_id (wheel_of w)) (insert_task (next_id (wheel_of w), t)
            ((wheel_of w)\<lparr>next_id := next_id (wheel_of w) + 1\<rparr>)))\<lparr>timer_started := st\<rparr>"
      "period t = schedule_period e s"
      using schedule_eq by blast
    with Arm ok show ?thesis by (auto simp: periods_ok_def active_def remove_task_def)
  next
    case (Finish j res m r)
    have "period t = period (snd j)" if "r = Some t" for t
      using Finish(3) that run_finish_period by blast
    moreover have "\<exists>e s. period (snd j) = schedule_period e s"
      using ok Finish(2) by (auto simp: periods_ok_def active_def)
    ultimately show ?thesis using Finish(1) ok shrink [of j "running w"]
      by (cases r) (auto simp: periods_ok_def active_def re_arm_def remove_task_def)
  next
    case (Timer spawn_ok)
    then show ?thesis using sub [OF timer_turn_active] by simp
  qed (rule sub, (use shrink in \<open>fastforce simp: active_def runner_take_def start_run_def
        send_terminated_def runner_park_def runner_woken_def split: list.splits\<close>))+
qed

interpretation sched: invariant_system sched_step "initial_sched caps" sched_inv for caps
proof unfold_locales
  show "sched_inv (initial_sched caps)"
    by (simp add: sched_inv_def initial_sched_def ids_ok_def world_ids_def active_def heap_ok_def
        heap_fits_def runners_ok_def pools_ok_def periods_ok_def pool_jobs_def)
next
  fix w w'
  assume step: "sched_step w w'" and inv: "sched_inv w"
  then show "sched_inv w'"
    using sched_step_ids [OF step] sched_step_heap [OF step] sched_step_runners [OF step]
      sched_step_pools [OF step] sched_step_periods [OF step]
    by (simp add: sched_inv_def)
qed

text \<open>C4: In every state the scheduler can reach, under every interleaving of its threads: every schedule
  armed so far is in exactly one place. It waits in the table, is queued, or is at a runner; or it
  has resolved its future, by one message; or its body ended without a result and its channel is
  closed, which happens to schedules without a period only, so a periodic schedule is never lost.
  Every waiting schedule has its deadline on the heap, and a schedule at a runner has none;
  there are at most 64 runners, every one of them is accounted for, and the idle counter is the
  number of those parked; a pool runs no more scheduled bodies at once than its limit, and its
  counter is their number; and every period in use is one that \<open>schedule_period\<close> gives, so positive.
\<close>

theorem scheduler_invariant:
  assumes "sched_step\<^sup>*\<^sup>* (initial_sched caps) w"
  shows "ids_ok w \<and> heap_ok w \<and> runners_ok w \<and> pools_ok w \<and> periods_ok w"
  using sched.inv_reachable [OF assms] by (simp add: sched_inv_def)

section \<open>Due schedules are queued, cancelled ones resolved\<close>

definition due_key :: "job \<Rightarrow> nat \<times> nat" where
  "due_key j = (run_at (snd j), fst j)"

text \<open>What the timer has done of \<open>w\<close> when it parks, the due tasks queued being \<open>due\<close>.\<close>

definition drained :: "sched_world \<Rightarrow> job list \<Rightarrow> sched_world \<Rightarrow> bool" where
  "drained w due w' \<longleftrightarrow> pending (wheel_of w') = pending (wheel_of w) @ due \<and>
     set due = {j \<in> set (tasks (wheel_of w)). fst j \<notin> flags w \<and> run_at (snd j) \<le> clock w} \<and>
     sorted (map due_key due) \<and> distinct (map fst due) \<and>
     set (tasks (wheel_of w')) = {j \<in> set (tasks (wheel_of w)). fst j \<notin> flags w \<and> clock w < run_at (snd j)} \<and>
     set (sent w') = set (sent w) \<union>
       {(fst j, terminated) |j. j \<in> set (tasks (wheel_of w)) \<and> fst j \<in> flags w}"

lemma kept_set: "set (kept_tasks fl g) = {j \<in> set (tasks g). fst j \<notin> fl}"
  by (auto simp: kept_tasks_def)

lemma retired_set: "set (retired fl g) = {fst j |j. j \<in> set (tasks g) \<and> fst j \<in> fl}"
  by (force simp: retired_def)

lemma drained_parks:
  assumes fits: "heap_fits (wheel_of w) B"
    and pass: "timer_pass (flags w) (clock w) spawn_ok (wheel_of w) = (g, dead, act)"
    and g: "g = (wheel_of w)\<lparr>tasks := kept_tasks (flags w) (wheel_of w),
      heap := drop_stale (kept_tasks (flags w) (wheel_of w)) (heap (wheel_of w))\<rparr>"
    and dead: "dead = retired (flags w) (wheel_of w)"
    and later: "\<And>d i es. heap g = (d, i) # es \<Longrightarrow> clock w < d"
  shows "drained w [] (timer_turn spawn_ok w)"
proof -
  have f: "heap_fits g B" unfolding g by (rule heap_fits_stale [OF fits]) (auto simp: kept_tasks_def)
  have "clock w < run_at (snd j)" if "j \<in> set (tasks g)" for j
  proof -
    have mem: "(run_at (snd j), fst j) \<in> set (heap g)" using f that by (auto simp: heap_fits_def)
    then obtain d i es where h: "heap g = (d, i) # es" by (cases "heap g") auto
    then have "d \<le> run_at (snd j)"
      using f mem by (auto simp: heap_fits_def less_eq_prod_def)
    with later [OF h] show ?thesis by simp
  qed
  then have late: "clock w < run_at (snd j)" if "j \<in> set (tasks (wheel_of w))" "fst j \<notin> flags w" for j
    using that by (simp add: g kept_set)
  have none: "{j \<in> set (tasks (wheel_of w)). fst j \<notin> flags w \<and> run_at (snd j) \<le> clock w} = {}"
    using late by (metis (mono_tags, lifting) empty_Collect_eq not_le)
  have all: "set (tasks g) = {j \<in> set (tasks (wheel_of w)). fst j \<notin> flags w \<and> clock w < run_at (snd j)}"
    unfolding g using late by (simp add: kept_set) blast
  have sent: "(\<lambda>i. (i, terminated)) ` set dead
      = {(fst j, terminated) |j. j \<in> set (tasks (wheel_of w)) \<and> fst j \<in> flags w}"
    by (force simp: dead retired_set)
  show ?thesis
    unfolding drained_def timer_turn_eq [OF pass] using none all sent by (simp add: g)
qed

lemma drained_queues:
  assumes fits: "heap_fits (wheel_of w) B" and dist: "distinct (map fst (tasks (wheel_of w)))"
    and es: "drop_stale (kept_tasks (flags w) (wheel_of w)) (heap (wheel_of w)) = (d, i) # es"
    and due: "d \<le> clock w" and t: "map_of (kept_tasks (flags w) (wheel_of w)) i = Some t"
    and w1: "tasks (wheel_of w1) = remove_task i (kept_tasks (flags w) (wheel_of w))"
      "pending (wheel_of w1) = pending (wheel_of w) @ [(i, t)]" "flags w1 = flags w" "clock w1 = clock w"
      "set (sent w1) = set (sent w) \<union> {(fst j, terminated) |j. j \<in> set (tasks (wheel_of w)) \<and> fst j \<in> flags w}"
    and rest': "drained w1 js w'"
  shows "drained w ((i, t) # js) w'"
proof -
  let ?g = "(wheel_of w)\<lparr>tasks := kept_tasks (flags w) (wheel_of w),
      heap := drop_stale (kept_tasks (flags w) (wheel_of w)) (heap (wheel_of w))\<rparr>"
  have f: "heap_fits ?g B" by (rule heap_fits_stale [OF fits]) (auto simp: kept_tasks_def)
  have it: "(i, t) \<in> set (tasks (wheel_of w))" "i \<notin> flags w"
    using map_of_SomeD [OF t] by (auto simp: kept_set)
  have d: "d = run_at t"
  proof -
    have "(run_at t, i) \<in> set ((d, i) # es)"
      using f map_of_SomeD [OF t] es by (force simp: heap_fits_def)
    moreover have "i \<notin> snd ` set es" using f es by (auto simp: heap_fits_def)
    ultimately show ?thesis by force
  qed
  have key: "due_key (i, t) \<le> due_key j" if "j \<in> set (remove_task i (kept_tasks (flags w) (wheel_of w)))" for j
  proof -
    have "due_key j \<in> set ((d, i) # es)"
      using f es that by (auto simp: heap_fits_def due_key_def remove_task_def)
    with f es d show ?thesis by (auto simp: heap_fits_def due_key_def)
  qed
  let ?ts = "remove_task i (kept_tasks (flags w) (wheel_of w))"
  have split: "{j \<in> set (tasks (wheel_of w)). fst j \<notin> flags w} = insert (i, t) (set ?ts)"
  proof (rule set_eqI)
    fix j
    show "j \<in> {j \<in> set (tasks (wheel_of w)). fst j \<notin> flags w} \<longleftrightarrow> j \<in> insert (i, t) (set ?ts)"
      using it eq_key_imp_eq_value [OF dist it(1), of "snd j"]
      by (cases "fst j = i") (auto simp: remove_task_def kept_set)
  qed
  have ts: "fst j \<notin> flags w \<and> fst j \<noteq> i" if "j \<in> set ?ts" for j
    using that by (auto simp: remove_task_def kept_set)
  have r: "set js = {j \<in> set ?ts. fst j \<notin> flags w \<and> run_at (snd j) \<le> clock w}"
    "set (tasks (wheel_of w')) = {j \<in> set ?ts. fst j \<notin> flags w \<and> clock w < run_at (snd j)}"
    "set (sent w') = set (sent w1) \<union> {(fst j, terminated) |j. j \<in> set ?ts \<and> fst j \<in> flags w}"
    "sorted (map due_key js)" "distinct (map fst js)"
    using rest' by (simp_all add: drained_def w1)
  have "\<forall>j \<in> set js. due_key (i, t) \<le> due_key j" using key r(1) by simp
  moreover have "i \<notin> fst ` set js" using r(1) ts by auto
  ultimately have "sorted (map due_key ((i, t) # js))" "distinct (map fst ((i, t) # js))"
    using r(4,5) by simp_all
  moreover have sub: "{j \<in> set (tasks (wheel_of w)). fst j \<notin> flags w \<and> P j}
      = {j \<in> insert (i, t) (set ?ts). P j}" for P
    unfolding split [symmetric] by blast
  have "set ((i, t) # js) = {j \<in> set (tasks (wheel_of w)). fst j \<notin> flags w \<and> run_at (snd j) \<le> clock w}"
    unfolding sub using r(1) ts d due by auto
  moreover have "set (tasks (wheel_of w')) = {j \<in> set (tasks (wheel_of w)). fst j \<notin> flags w \<and> clock w < run_at (snd j)}"
    unfolding sub using r(2) ts d due by auto
  moreover have "set (sent w') = set (sent w) \<union>
       {(fst j, terminated) |j. j \<in> set (tasks (wheel_of w)) \<and> fst j \<in> flags w}"
    using r(3) ts w1(5) by blast
  ultimately show ?thesis using rest' w1(2) by (simp add: drained_def)
qed

lemma timer_drains:
  assumes "heap_fits (wheel_of w) (fst ` set (pending (wheel_of w)))"
    and "distinct (map fst (tasks (wheel_of w)))"
  shows "\<exists>k \<le> Suc (length (heap (wheel_of w))). \<exists>due. drained w due ((timer_turn spawn_ok ^^ k) w)"
  using assms
proof (induction "length (heap (wheel_of w))" arbitrary: w rule: less_induct)
  case less
  let ?fl = "flags w" and ?g = "wheel_of w"
  obtain g dead act where pass: "timer_pass ?fl (clock w) spawn_ok ?g = (g, dead, act)"
    by (cases "timer_pass ?fl (clock w) spawn_ok ?g")
  from pass show ?case
  proof (cases rule: timer_pass_cases)
    case parks
    from drained_parks [OF less(2) pass parks(3,2,4)]
    have "drained w [] ((timer_turn spawn_ok ^^ 1) w)" by simp
    then show ?thesis by (intro exI [of _ 1]) auto
  next
    case (queues d i es t b)
    let ?w1 = "timer_turn spawn_ok w"
    have w1: "wheel_of ?w1 = g" "flags ?w1 = flags w" "clock ?w1 = clock w"
      "set (sent ?w1) = set (sent w) \<union> {(fst j, terminated) |j. j \<in> set (tasks ?g) \<and> fst j \<in> ?fl}"
      by (auto simp: timer_turn_eq [OF pass] queues(5) retired_set image_iff)
    have g: "tasks g = remove_task i (kept_tasks ?fl ?g)" "heap g = es" "pending g = pending ?g @ [(i, t)]"
      using queues(7) by simp_all
    obtain us where "heap ?g = us @ (d, i) # es" using drop_stale_suffix queues(1) by metis
    then have len: "length (heap (wheel_of ?w1)) < length (heap ?g)" by (simp add: w1(1) g(2))
    have "heap_fits g (fst ` set (pending ?g) \<union> fst ` set (pending g))"
      by (rule heap_fits_timer [OF less(2) pass]) simp
    then have f1: "heap_fits (wheel_of ?w1) (fst ` set (pending (wheel_of ?w1)))"
      unfolding w1(1) by (rule heap_fits_mono) auto
    have d1: "distinct (map fst (tasks (wheel_of ?w1)))"
      using kept_distinct [OF less(3), of ?fl] by (simp add: w1(1) g(1) remove_task_def distinct_map_filter)
    from less(1) [OF len f1 d1] obtain k js where k: "k \<le> Suc (length es)"
      and dr: "drained ?w1 js ((timer_turn spawn_ok ^^ k) ?w1)"
      by (auto simp: w1(1) g(2))
    have "drained w ((i, t) # js) ((timer_turn spawn_ok ^^ k) ?w1)"
      by (rule drained_queues [OF less(2,3) queues(1,2,3) _ _ w1(2,3,4) dr])
        (simp_all add: w1(1) g)
    then have "drained w ((i, t) # js) ((timer_turn spawn_ok ^^ Suc k) w)"
      by (simp add: funpow_swap1)
    moreover have "Suc k \<le> Suc (length (heap ?g))" using k len by (simp add: w1(1) g(2))
    ultimately show ?thesis by blast
  qed
qed

text \<open>C7: The timer leaves no schedule behind. From every reachable state, within one pass more than
  there are entries on the heap, it has queued every schedule whose deadline has passed, in order
  of deadlines and each once, has resolved the future of every waiting schedule that was
  cancelled, and has left exactly the others waiting.
\<close>

theorem timer_liveness:
  assumes "sched_step\<^sup>*\<^sup>* (initial_sched caps) w"
  shows "\<exists>k \<le> Suc (length (heap (wheel_of w))). \<exists>due. drained w due ((timer_turn spawn_ok ^^ k) w)"
proof (rule timer_drains)
  have inv: "ids_ok w" "heap_fits (wheel_of w) (busy_ids w)"
    using sched.inv_reachable [OF assms] by (simp_all add: sched_inv_def heap_ok_def)
  then show "distinct (map fst (tasks (wheel_of w)))" by (simp add: ids_ok_tasks)
  from inv(2) show "heap_fits (wheel_of w) (fst ` set (pending (wheel_of w)))"
    by (rule heap_fits_mono) (auto simp: busy_ids_def)
qed

section \<open>A concrete run\<close>

text \<open>
  Three one-shot schedules due at once at time 0. The first runs and ends, and its runner parks;
  the timer then queues the other two.
\<close>

definition shot :: task where
  "shot = \<lparr>period = None, permits = None, run_at = 0, first_run = True\<rparr>"

definition completed :: thread_result where
  "completed = ThreadResult (str ''COMPLETED'')"

definition scene :: "(nat \<times> nat) list \<Rightarrow> job list \<Rightarrow> job list \<Rightarrow> nat \<Rightarrow> nat \<Rightarrow> nat \<Rightarrow> nat \<Rightarrow> nat \<Rightarrow>
    job list \<Rightarrow> job list \<Rightarrow> (nat \<times> thread_result) list \<Rightarrow> sched_world" where
  "scene hs ts ps n idle alive free parked wt rn out =
     \<lparr>wheel_of = \<lparr>heap = hs, tasks = ts, pending = ps, next_id = n, timer_started = True,
        idle_runners = idle, live_runners = alive\<rparr>,
      clock = 0, flags = {}, free_runners = free, parked_runners = parked, waiting = wt, running = rn,
      sent = out, dropped = [], pool_running = (\<lambda>_. 0), pool_max = (\<lambda>_. 1)\<rparr>"

lemma scene_arm:
  "sched_step (scene hs ts ps n idle alive free parked wt rn out)
     (scene (insort (0, n) hs) ((n, shot) # remove_task n ts) ps (Suc n) idle alive free parked wt rn out)"
  using sched_step.Arm [of "scene hs ts ps n idle alive free parked wt rn out" 0 None None None True]
  by (simp add: scene_def schedule_def Let_def heap_push_def insert_task_def shot_def schedule_period_def)

lemma scene_first_arm: "sched_step (initial_sched (\<lambda>_. 1)) (scene [(0, 0)] [(0, shot)] [] 1 0 0 0 0 [] [] [])"
  using sched_step.Arm [of "initial_sched (\<lambda>_. 1)" 0 None None None True]
  by (simp add: scene_def initial_sched_def schedule_def Let_def heap_push_def insert_task_def shot_def
      schedule_period_def remove_task_def)

lemma scene_timer:
  "sched_step (scene ((0, i) # hs) ts ps n idle alive free parked wt rn out)
     (timer_turn True (scene ((0, i) # hs) ts ps n idle alive free parked wt rn out))"
  by (rule sched_step.Timer) (simp add: scene_def)

lemma scene_take:
  "sched_step (scene hs ts (j # ps) n idle alive (Suc free) parked wt rn out)
     (scene hs ts ps n idle alive free parked (j # wt) rn out)"
  using sched_step.Take [of "scene hs ts (j # ps) n idle alive (Suc free) parked wt rn out"]
  by (simp add: scene_def runner_take_def)

lemma scene_start:
  "sched_step (scene hs ts ps n idle alive free parked ((i, shot) # wt) rn out)
     (scene hs ts ps n idle alive free parked wt ((i, shot) # rn) out)"
  using sched_step.Start [of "(i, shot)" "scene hs ts ps n idle alive free parked ((i, shot) # wt) rn out"]
  by (simp add: scene_def start_run_def shot_def)

lemma scene_finish:
  "sched_step (scene hs ts ps n idle alive free parked wt ((i, shot) # rn) out)
     (scene hs ts ps n idle alive (Suc free) parked wt rn (out @ [(i, completed)]))"
  using sched_step.Finish [of "(i, shot)" "scene hs ts ps n idle alive free parked wt ((i, shot) # rn) out"
      "Some completed" "Some completed" None]
  by (simp add: scene_def run_finish_def shot_def release_permit_def)

lemma scene_park:
  "sched_step (scene hs ts [] n idle alive (Suc free) parked wt rn out)
     (scene hs ts [] n (Suc idle) alive free (Suc parked) wt rn out)"
  using sched_step.Parks [of "scene hs ts [] n idle alive (Suc free) parked wt rn out"]
  by (simp add: scene_def runner_take_def runner_park_def)

lemma scene_wake:
  "sched_step (scene hs ts ps n (Suc idle) alive free (Suc parked) wt rn out)
     (scene hs ts ps n idle alive (Suc free) parked wt rn out)"
  using sched_step.Wakes [of "scene hs ts ps n (Suc idle) alive free (Suc parked) wt rn out"]
  by (simp add: scene_def runner_woken_def)

lemmas scene_timer_eval = scene_def timer_turn_def timer_pass_def retire_cancelled_def Let_def
  remove_task_def send_terminated_def MAX_RUNNERS_def

lemma scene_first_run:
  "sched_step\<^sup>*\<^sup>* (initial_sched (\<lambda>_. 1)) (scene [] [] [] 1 1 1 0 1 [] [] [(0, completed)])"
proof -
  have "timer_turn True (scene [(0, 0)] [(0, shot)] [] 1 0 0 0 0 [] [] [])
      = scene [] [] [(0, shot)] 1 0 1 1 0 [] [] []"
    by (simp add: scene_timer_eval)
  with scene_timer [of 0 "[]" "[(0, shot)]" "[]" 1 0 0 0 0 "[]" "[]" "[]"]
  have s2: "sched_step (scene [(0, 0)] [(0, shot)] [] 1 0 0 0 0 [] [] [])
      (scene [] [] [(0, shot)] 1 0 1 1 0 [] [] [])"
    by simp
  have s3: "sched_step (scene [] [] [(0, shot)] 1 0 1 1 0 [] [] [])
      (scene [] [] [] 1 0 1 0 0 [(0, shot)] [] [])"
    using scene_take [of "[]" "[]" "(0, shot)" "[]" 1 0 1 0 0 "[]" "[]" "[]"] by simp
  have s4: "sched_step (scene [] [] [] 1 0 1 0 0 [(0, shot)] [] [])
      (scene [] [] [] 1 0 1 0 0 [] [(0, shot)] [])"
    by (rule scene_start)
  have s5: "sched_step (scene [] [] [] 1 0 1 0 0 [] [(0, shot)] [])
      (scene [] [] [] 1 0 1 1 0 [] [] [(0, completed)])"
    using scene_finish [of "[]" "[]" "[]" 1 0 1 0 0 "[]" 0 "[]" "[]"] by simp
  have s6: "sched_step (scene [] [] [] 1 0 1 1 0 [] [] [(0, completed)])
      (scene [] [] [] 1 1 1 0 1 [] [] [(0, completed)])"
    using scene_park [of "[]" "[]" 1 0 1 0 0 "[]" "[]" "[(0, completed)]"] by simp
  note first = converse_rtranclp_into_rtranclp [where r = sched_step]
  show ?thesis
    by (rule first [OF scene_first_arm], rule first [OF s2], rule first [OF s3], rule first [OF s4],
        rule first [OF s5], rule first [OF s6], rule rtranclp.rtrancl_refl)
qed

definition second_wave :: sched_world where
  "second_wave = scene [(0, 1), (0, 2)] [(2, shot), (1, shot)] [] 3 1 1 0 1 [] [] [(0, completed)]"

lemma second_wave_reachable: "sched_step\<^sup>*\<^sup>* (initial_sched (\<lambda>_. 1)) second_wave"
proof -
  have a: "sched_step (scene [] [] [] 1 1 1 0 1 [] [] [(0, completed)])
      (scene [(0, 1)] [(1, shot)] [] 2 1 1 0 1 [] [] [(0, completed)])"
    using scene_arm [of "[]" "[]" "[]" 1 1 1 0 1 "[]" "[]" "[(0, completed)]"]
    by (simp add: remove_task_def numeral_2_eq_2)
  have b: "sched_step (scene [(0, 1)] [(1, shot)] [] 2 1 1 0 1 [] [] [(0, completed)]) second_wave"
    using scene_arm [of "[(0, 1)]" "[(1, shot)]" "[]" 2 1 1 0 1 "[]" "[]" "[(0, completed)]"]
    by (simp add: remove_task_def second_wave_def)
  from scene_first_run a b show ?thesis by (meson rtranclp.rtrancl_into_rtrancl)
qed

theorem scheduler_invariant_witness:
  "sched_step\<^sup>*\<^sup>* (initial_sched (\<lambda>_. 1)) second_wave \<and> tasks (wheel_of second_wave) = [(2, shot), (1, shot)] \<and>
   ids_ok second_wave \<and> heap_ok second_wave \<and> runners_ok second_wave \<and> pools_ok second_wave \<and>
   periods_ok second_wave"
  using scheduler_invariant [OF second_wave_reachable] second_wave_reachable
  by (simp add: second_wave_def scene_def)

theorem timer_liveness_witness:
  "\<exists>k \<le> 3. \<exists>due. drained second_wave due ((timer_turn True ^^ k) second_wave) \<and>
     set due = {(1, shot), (2, shot)}"
proof -
  have "heap (wheel_of second_wave) = [(0, 1), (0, 2)]" by (simp add: second_wave_def scene_def)
  with timer_liveness [OF second_wave_reachable, of True]
  obtain k due where "k \<le> 3" "drained second_wave due ((timer_turn True ^^ k) second_wave)"
    by (auto simp: numeral_3_eq_3)
  moreover from this(2) have "set due = {(1, shot), (2, shot)}"
    by (auto simp: drained_def second_wave_def scene_def shot_def)
  ultimately show ?thesis by blast
qed

text \<open>C38: A slow body can hold up another schedule. There is a reachable state in which a due
  schedule is queued and not running although one runner of the 64 exists: that runner was
  counted as idle for both due schedules, so no second one was started, and now runs the body of
  the other schedule. The timer does nothing more for the queued one: until that body ends, no
  step of the timer changes the state.
\<close>

theorem slow_body_holds_up_another:
  "\<exists>w. sched_step\<^sup>*\<^sup>* (initial_sched (\<lambda>_. 1)) w \<and>
     map fst (running w) = [1] \<and> map fst (pending (wheel_of w)) = [2] \<and>
     run_at (snd (hd (pending (wheel_of w)))) \<le> clock w \<and> live_runners (wheel_of w) = 1 \<and>
     free_runners w = 0 \<and> parked_runners w = 0 \<and> timer_turn True w = w"
proof -
  let ?o = "[(0, completed)]"
  have e1: "timer_turn True second_wave = scene [(0, 2)] [(2, shot)] [(1, shot)] 3 1 1 0 1 [] [] ?o"
    by (simp add: second_wave_def scene_timer_eval)
  have e2: "timer_turn True (scene [(0, 2)] [(2, shot)] [(1, shot)] 3 1 1 0 1 [] [] ?o)
      = scene [] [] [(1, shot), (2, shot)] 3 1 1 0 1 [] [] ?o"
    by (simp add: scene_timer_eval)
  have s1: "sched_step second_wave (scene [(0, 2)] [(2, shot)] [(1, shot)] 3 1 1 0 1 [] [] ?o)"
    using scene_timer [of 1 "[(0, 2)]"] e1 by (metis second_wave_def)
  have s2: "sched_step (scene [(0, 2)] [(2, shot)] [(1, shot)] 3 1 1 0 1 [] [] ?o)
      (scene [] [] [(1, shot), (2, shot)] 3 1 1 0 1 [] [] ?o)"
    using scene_timer [of 2 "[]" "[(2, shot)]" "[(1, shot)]" 3 1 1 0 1 "[]" "[]" ?o] e2 by simp
  have s3: "sched_step (scene [] [] [(1, shot), (2, shot)] 3 1 1 0 1 [] [] ?o)
      (scene [] [] [(1, shot), (2, shot)] 3 0 1 1 0 [] [] ?o)"
    using scene_wake [of "[]" "[]" "[(1, shot), (2, shot)]" 3 0 1 0 0 "[]" "[]" ?o] by simp
  have s4: "sched_step (scene [] [] [(1, shot), (2, shot)] 3 0 1 1 0 [] [] ?o)
      (scene [] [] [(2, shot)] 3 0 1 0 0 [(1, shot)] [] ?o)"
    using scene_take [of "[]" "[]" "(1, shot)" "[(2, shot)]" 3 0 1 0 0 "[]" "[]" ?o] by simp
  let ?w = "scene [] [] [(2, shot)] 3 0 1 0 0 [] [(1, shot)] ?o"
  have s5: "sched_step (scene [] [] [(2, shot)] 3 0 1 0 0 [(1, shot)] [] ?o) ?w"
    by (rule scene_start)
  have "sched_step\<^sup>*\<^sup>* (initial_sched (\<lambda>_. 1)) ?w"
    using second_wave_reachable s1 s2 s3 s4 s5 by (meson rtranclp.rtrancl_into_rtrancl)
  moreover have "timer_turn True ?w = ?w" by (simp add: scene_timer_eval)
  ultimately show ?thesis by (intro exI [of _ ?w]) (simp add: scene_def shot_def)
qed

end
