(* ===== verification/Spec2Isabelle.thy ===== *)
theory Spec2Isabelle
  imports Exec Nesting Gc_Log Schedule
begin

text \<open>
  This development models three parts of RustCFML, a CFML engine in Rust, and proves what makes
  them correct.

  \<^bold>\<open>The query engine\<close> (\<open>crates/cfml-qoq\<close>) runs SQL over queries held in memory. \<open>parse\<close> turns the
  text into a statement, \<open>base_table_names\<close> tells the VM which variables it needs, and \<open>execute\<close>
  runs the statement: the tables of FROM are combined into rows of row numbers, WHERE filters
  them, they are projected or grouped into columns, and DISTINCT, TOP, UNION, ORDER BY and LIMIT
  act on the columns.

  \<^bold>\<open>The cycle collector\<close> (\<open>crates/cfml-common/src/cycle_gc.rs\<close>) reclaims cycles of
  reference-counted containers by trial deletion, from logs of the allocations of a request.

  \<^bold>\<open>The scheduler\<close> (\<open>crates/cfml-vm/src/schedule_wheel.rs\<close>, with the permits of
  \<open>async_kernel.rs\<close>) runs delayed and periodic tasks with one timer thread and a pool of runners.

  The three do not call each other. The collector and the scheduler are state machines over the
  model of their own state; the query engine is a function of a statement and its sources.

  \<^bold>\<open>Conventions.\<close> A \<open>char\<close> is a number and a \<open>String\<close> a list of them (\<open>ustr\<close>, literals
  \<open>str ''...''\<close>); \<open>i64\<close> is a 64-bit word; \<open>f64\<close> is sign and magnitude bits, with its arithmetic
  defined by rounding exact results. A \<open>Result\<close> is a sum with the error left; a panic is the
  error \<open>Panic\<close>. What the source takes from elsewhere (Unicode case mapping, the regular
  expression crate, dates, transcendental functions) is the record \<open>runtime\<close>; a theorem that relies
  on it names what it relies on: \<open>unicode_laws\<close> and \<open>regex_laws\<close> state documented behaviour, and
  \<open>ascii_runtime\<close> and \<open>regex_runtime\<close> satisfy them.

  \<^bold>\<open>Theories of the query engine\<close>, in the order of the calls from below:

  \<^item> \<open>Prelude\<close>: lists, strings, outcomes, orderings; the locale \<open>comparator_on\<close> of a total order on a
    set of values, with sorting proved once for it.
  \<^item> \<open>F64\<close> and \<open>Values\<close> (\<open>cfml-common/src/dynamic.rs\<close>, \<open>numeric.rs\<close>, \<open>text.rs\<close>): floating point, the
    value type, its text and truth value.
  \<^item> \<open>Compare\<close> (\<open>compare.rs\<close>): three-valued comparison, the order of ORDER BY, row keys. The fast path
    of string comparison is exact; columns of one kind are totally ordered (interpretations of
    \<open>comparator_on\<close>); row keys decide equality on the cells named in the property, and not on the
    two zeros, on strings with the marker, or across types.
  \<^item> \<open>Lexer\<close> (\<open>lexer.rs\<close>), with the locale \<open>token_source\<close> of what the parser relies on; \<open>Like\<close>
    (\<open>like.rs\<close>): the compiled pattern agrees with the meaning of the pattern.
  \<^item> \<open>Functions\<close> (\<open>function.rs\<close>, \<open>functions.rs\<close>) and \<open>Operators\<close> (\<open>execution.rs\<close>): built-in functions,
    arithmetic, three-valued logic, aggregates.
  \<^item> \<open>Ast\<close> (\<open>ast.rs\<close>), \<open>Table\<close> (\<open>table.rs\<close>), \<open>Intersection\<close> (\<open>intersection.rs\<close>): the syntax tree with its
    walks, column resolution, and the store of row combinations with the nested-loop builder.
  \<^item> \<open>Eval\<close>, \<open>Bind\<close> (\<open>execution.rs\<close>) and \<open>Compiled\<close> (\<open>compiled.rs\<close>): evaluation of an expression;
    binding columns to slots and compiling a condition change no result.
  \<^item> \<open>Joins\<close>, \<open>Project\<close>, \<open>Grouping\<close>, \<open>Output\<close>, \<open>Exec\<close> (\<open>execution.rs\<close>): the nested loop refines the
    join specification; the hash join agrees with it on the columns named; the fused path agrees
    with the general one; groups, DISTINCT, ORDER BY, LIMIT and UNION do what their clauses say;
    results are well formed and the stages after the rows do not panic.
  \<^item> \<open>Parser\<close> (\<open>parser.rs\<close>), \<open>Printing\<close>, \<open>Round_Trip\<close>, \<open>Source_Text\<close>, \<open>Nesting\<close>: the parser method by
    method; a printer of statements, which the program does not have; every statement within the
    nesting limit is read back from its text; how deep parentheses and signs may nest.

  \<^bold>\<open>Theories of the collector.\<close> \<open>Cycle_Gc\<close> is one pass: the heap gives content and strong count of
  every address, \<open>collect_from_log_carrying\<close> the steps of the function of that name. The marked set
  is the set reachable from the seeds; under a ledger of strong counts the pass is exact; and four
  small heaps show what happens where its accounting fails. \<open>Gc_Log\<close> is the bookkeeping around it:
  the logs and generations of a thread, deferred logs, the set carried across requests and the
  displacement sweeps, as an inductive step relation with an invariant. \<open>Transition\<close> holds the locale
  \<open>invariant_system\<close>, interpreted on this relation and on that of the scheduler.

  \<^bold>\<open>Theory of the scheduler.\<close> \<open>Schedule\<close>: the state under the mutex is the record \<open>wheel\<close>; a step of
  \<open>sched_step\<close> is one critical section of one thread or one blocking call returning, so that every
  interleaving is a sequence of steps. Every schedule is in exactly one place, the timer queues all
  that is due, and the end of a run returns.

  \<^bold>\<open>Loops and fuel.\<close> Most loops are recursion on their data. Marking is a \<open>function\<close> whose measure is
  the number of unmarked nodes plus the queue. The loop that skips missed ticks is a
  \<open>partial_function\<close>, shown to return for every period a caller can give. The parser has fuel: a
  loop gets one unit more than \<open>todo\<close>, a bound on the tokens left, of which every iteration consumes
  one, and the nesting gets one more than the limit that \<open>enter_depth\<close> enforces; \<open>OutOfFuel\<close> is never
  returned. The search for a free column name has two units more than there are names taken.

  \<^bold>\<open>What the model assumes or leaves out.\<close>

  \<^item> The callback that runs a registered CFML function, and a function of an extension, are pure
    functions of their arguments; the source allows them state. The property of the fused path is
    therefore restricted to expressions without them, and holds for any callback there.
  \<^item> The standard library's sort is a stable sort. With a comparator that is no total order it may
    panic or give any order; properties of sorting have keys of one kind as a hypothesis.
  \<^item> Rows evaluated in parallel are evaluated in chunks and put together in order; where several
    chunks fail the first failure is reported, while the source may report any.
  \<^item> A sub-select is run once and its outcome shared by all rows.
  \<^item> The native stack is not modelled, nor is memory: a recursion the source does not count returns
    here. A regular expression is taken to compile, whatever its size.
  \<^item> Clearing a container empties it; that dropping its content lowers other strong counts is left
    to Rust. A lock that cannot be taken is a flag of the node. Diagnostics, metrics, timers and
    the reuse of buffers do not change what is collected and are left out.
  \<^item> An \<open>Instant\<close> is a number of milliseconds; a body is the result it reports; waking a parked thread
    may happen at any time.
  \<^item> The rest of the repository is not modelled: the CFML front end (\<open>cfml-compiler\<close>,
    \<open>cfml-codegen\<close>) and the interpreter (\<open>cfml-vm\<close>), which are systems of their own; the standard
    library and the shims, which call third-party crates; servers, storage and configuration,
    which are input and output.
\<close>

end
